(* ===== verification/Prelude.thy ===== *)
theory Prelude
  imports Main "HOL-Library.Word" "HOL-Library.AList" "HOL-Library.Multiset"
begin

text \<open>
  Shared ground of the development: the byte and dictionary types, the collections that the
  component theories fill, and generic lemmas about lists, options and dictionaries.

  A Go \<open>map\<close> whose iteration order or size the code observes is an association list with
  distinct keys (\<open>dict\<close>); \<open>map_of\<close> looks a key up and \<open>AList.update\<close> stores one.  Go
  strings are byte sequences and are modelled by \<open>string\<close>, whose characters are bytes.
\<close>

section \<open>Types\<close>

type_synonym byte = "8 word"

type_synonym ('k, 'v) dict = "('k \<times> 'v) list"

type_synonym headers = "(string, string list) dict"

text \<open>Go errors, by their messages.\<close>

type_synonym go_error = string

section \<open>Collections\<close>

named_theorems go_defs "definitions of the Go string functions, unfolded to evaluate them"
named_theorems frame_simps "field-wise decoding equations of wire frames"
named_theorems reg_simps "characteristic equations of registry operations"
named_theorems sess_simps "characteristic equations of session operations"
named_theorems client_simps "characteristic equations of client operations"

section \<open>Dictionaries\<close>

abbreviation wf_dict :: "('k, 'v) dict \<Rightarrow> bool" where
  "wf_dict d \<equiv> distinct (map fst d)"

lemma wf_dict_update [simp, intro]: "wf_dict d \<Longrightarrow> wf_dict (AList.update k v d)"
  by (rule distinct_update)

lemma map_of_update_same [simp]: "map_of (AList.update k v d) k = Some v"
  by (simp add: update_conv')

lemma map_of_update_other [simp]: "k' \<noteq> k \<Longrightarrow> map_of (AList.update k v d) k' = map_of d k'"
  by (simp add: update_conv')

lemma map_of_update_cases:
  "map_of (AList.update k v d) k' = (if k' = k then Some v else map_of d k')"
  by (simp add: update_conv')

lemma update_nonempty [simp]: "AList.update k v d \<noteq> []"
  by (cases d) auto

lemma length_update:
  "length (AList.update k v d) = (if k \<in> fst ` set d then length d else Suc (length d))"
  by (induction d) auto

lemma snd_update_subset: "snd ` set (AList.update k v d) \<subseteq> insert v (snd ` set d)"
  by (induction d) auto

lemma distinct_snd_update:
  "distinct (map snd d) \<Longrightarrow> v \<notin> snd ` set d \<Longrightarrow> distinct (map snd (AList.update k v d))"
proof (induction d)
  case (Cons p d)
  then show ?case using snd_update_subset [of k v d] by (cases p) auto
qed simp

lemma snd_delete_subset: "snd ` set (AList.delete k d) \<subseteq> snd ` set d"
  by (auto simp: AList.delete_eq)

lemma distinct_snd_delete: "distinct (map snd d) \<Longrightarrow> distinct (map snd (AList.delete k d))"
  by (induction d) (auto simp: AList.delete_eq)

lemma snd_delete_notin:
  "map_of d k = Some v \<Longrightarrow> distinct (map snd d) \<Longrightarrow> v \<notin> snd ` set (AList.delete k d)"
  by (induction d) (force simp: AList.delete_eq split: if_splits dest: map_of_SomeD)+

lemma map_of_mset_eq:
  assumes "mset d' = mset d" and "wf_dict d"
  shows "map_of d' = map_of d"
proof -
  have "mset (map fst d') = mset (map fst d)"
    using assms(1) by (metis mset_map)
  then have "distinct (map fst d')"
    using assms(2) mset_eq_imp_distinct_iff by blast
  then show ?thesis
    using assms by (metis map_of_inject_set mset_eq_setD)
qed

lemma wf_dict_mset: "mset d' = mset d \<Longrightarrow> wf_dict d \<Longrightarrow> wf_dict d'"
  by (metis mset_map mset_eq_imp_distinct_iff)

section \<open>Lists\<close>

lemma concat_map_singleton [simp]: "concat (map (\<lambda>x. [f x]) xs) = map f xs"
  by (induction xs) auto

lemma take_eq_iff_append: "take (length p) s = p \<longleftrightarrow> (\<exists>t. s = p @ t)"
  by (metis append_eq_conv_conj append_take_drop_id)

lemma rev_take_length: "rev (take n (rev xs)) = drop (length xs - n) xs"
  by (simp add: take_rev)

lemma length_filter_update:
  "j < length xs \<Longrightarrow> length (filter P (xs[j := y])) + of_bool (P (xs ! j)) = length (filter P xs) + of_bool (P y)"
proof (induction xs arbitrary: j)
  case (Cons x xs)
  then show ?case by (cases j) auto
qed simp

section \<open>Running a list of operations\<close>

text \<open>An operation that does not complete gives \<open>None\<close>, and so does the run.\<close>

fun run_opt :: "('q \<Rightarrow> 's \<Rightarrow> 's option) \<Rightarrow> 'q list \<Rightarrow> 's \<Rightarrow> 's option" where
  "run_opt step [] s = Some s"
| "run_opt step (q # qs) s = Option.bind (step q s) (run_opt step qs)"

lemma run_opt_append: "run_opt step (xs @ ys) s = Option.bind (run_opt step xs s) (run_opt step ys)"
  by (induction xs arbitrary: s) (auto split: bind_splits simp: bind_assoc)

lemma run_opt_snoc: "run_opt step (qs @ [q]) s = Option.bind (run_opt step qs s) (step q)"
  by (induction qs arbitrary: s) (auto split: bind_splits simp: bind_assoc)

text \<open>What every completed operation keeps, of the state and the operations so far, holds after every run.\<close>

locale traced =
  fixes step :: "'q \<Rightarrow> 's \<Rightarrow> 's option" and Q :: "'q list \<Rightarrow> 's \<Rightarrow> bool"
  assumes step_traced: "Q qs s \<Longrightarrow> step q s = Some s' \<Longrightarrow> Q (qs @ [q]) s'"
begin

lemma run_traced: "Q ps s \<Longrightarrow> run_opt step qs s = Some s' \<Longrightarrow> Q (ps @ qs) s'"
proof (induction qs arbitrary: ps s)
  case (Cons q qs)
  then obtain u where u: "step q s = Some u" "run_opt step qs u = Some s'"
    by (auto simp: bind_eq_Some_conv)
  from Cons.IH [OF step_traced [OF Cons.prems(1) u(1)] u(2)] show ?case by simp
qed simp

end

text \<open>The same for a predicate of the state alone.\<close>

locale stable =
  fixes step :: "'q \<Rightarrow> 's \<Rightarrow> 's option" and P :: "'s \<Rightarrow> bool"
  assumes step_keeps: "P s \<Longrightarrow> step q s = Some s' \<Longrightarrow> P s'"

sublocale stable \<subseteq> past: traced step "\<lambda>_. P"
  by unfold_locales (rule step_keeps)

context stable
begin

lemma run_keeps: "P s \<Longrightarrow> run_opt step qs s = Some s' \<Longrightarrow> P s'"
  by (rule past.run_traced)

end

section \<open>Keyed stores\<close>

text \<open>
  What a component that keeps objects under keys promises its clients: a lookup returns what was
  stored last, other keys are not disturbed, and a well-formed entry keeps the store well-formed.
\<close>

locale store =
  fixes get :: "'s \<Rightarrow> 'k \<Rightarrow> 'v option"
    and put :: "'k \<Rightarrow> 'v \<Rightarrow> 's \<Rightarrow> 's"
    and inv :: "'s \<Rightarrow> bool"
    and okv :: "'k \<Rightarrow> 'v \<Rightarrow> bool"
  assumes get_put_same: "get (put k v s) k = Some v"
    and get_put_other: "j \<noteq> k \<Longrightarrow> get (put k v s) j = get s j"
    and inv_put: "inv s \<Longrightarrow> okv k v \<Longrightarrow> inv (put k v s)"
    and inv_get: "inv s \<Longrightarrow> get s k = Some v \<Longrightarrow> okv k v"
begin

lemma get_put: "get (put k v s) j = (if j = k then Some v else get s j)"
  by (simp add: get_put_same get_put_other)

lemma put_twice: "get (put k v (put k w s)) j = get (put k v s) j"
  by (simp add: get_put)

lemma put_commute: "i \<noteq> k \<Longrightarrow> get (put i w (put k v s)) j = get (put k v (put i w s)) j"
  by (simp add: get_put)

lemma inv_modify:
  "inv s \<Longrightarrow> get s k = Some v \<Longrightarrow> (\<And>v. okv k v \<Longrightarrow> okv k (g v)) \<Longrightarrow> inv (put k (g v) s)"
  by (blast intro: inv_put dest: inv_get)

lemma put_fresh_keeps: "get s k = None \<Longrightarrow> get s j = Some w \<Longrightarrow> get (put k v s) j = Some w"
  by (metis get_put_other option.distinct(1))

end

section \<open>Atomic saving\<close>

text \<open>
  What writing a temporary file and renaming it promises: the stored document is the new one when
  no error is reported and the old one otherwise, so that any number of failed attempts leaves
  it alone and a later success makes up for them.
\<close>

locale atomic_save =
  fixes save :: "'io \<Rightarrow> 's \<Rightarrow> 'd \<Rightarrow> 'e option \<times> 'd"
    and stored :: "'s \<Rightarrow> 'd \<Rightarrow> 'c option"
    and content :: "'s \<Rightarrow> 'c"
    and completes :: "'io \<Rightarrow> bool"
  assumes save_stored:
      "stored s (snd (save io s d)) = (if completes io then Some (content s) else stored s d)"
    and save_result: "fst (save io s d) = None \<longleftrightarrow> completes io"
begin

lemma reported: "fst (save io s d) = None \<Longrightarrow> stored s (snd (save io s d)) = Some (content s)"
  by (simp add: save_stored save_result)

lemma not_reported: "fst (save io s d) \<noteq> None \<Longrightarrow> stored s (snd (save io s d)) = stored s d"
  by (simp only: save_stored save_result if_False)

lemma failures_keep:
  "list_all (\<lambda>io. \<not> completes io) ios \<Longrightarrow>
   stored s (fold (\<lambda>io d. snd (save io s d)) ios d) = stored s d"
  by (induction ios arbitrary: d) (simp_all add: save_stored)

lemma retry_succeeds:
  "completes io \<Longrightarrow> stored s (snd (save io s (fold (\<lambda>io d. snd (save io s d)) ios d))) = Some (content s)"
  by (simp add: save_stored)

end

end
