(* ===== verification/GoStrings.thy ===== *)
theory GoStrings
  imports Prelude "HOL-Library.Char_ord"
begin

text \<open>
  The parts of Go's packages \<open>strings\<close>, \<open>regexp\<close> and \<open>unicode/utf8\<close> that the program uses,
  over byte strings.

  \<^item> \<open>TrimSpace\<close> strips the UTF-8 encodings of exactly the runes for which
    \<open>unicode.IsSpace\<close> holds.
  \<^item> \<open>ToLower\<close> lowers the ASCII letters and the two non-ASCII runes whose lower case is ASCII
    (U+212A to k, U+0130 to i).  Every other non-ASCII rune has a non-ASCII lower case; its bytes
    are left as they are, which no test of the program can tell apart, since each compares the
    result with an ASCII pattern or table.
  \<^item> \<open>EqualFold\<close> is used with an ASCII second argument only; besides the ASCII letters, simple
    folding identifies U+212A with k and U+017F with s.
\<close>

section \<open>Prefixes and suffixes\<close>

definition HasPrefix :: "string \<Rightarrow> string \<Rightarrow> bool" where
  "HasPrefix s p \<longleftrightarrow> take (length p) s = p"

definition HasSuffix :: "string \<Rightarrow> string \<Rightarrow> bool" where
  "HasSuffix s p \<longleftrightarrow> HasPrefix (rev s) (rev p)"

definition TrimPrefix :: "string \<Rightarrow> string \<Rightarrow> string" where
  "TrimPrefix s p = (if HasPrefix s p then drop (length p) s else s)"

definition TrimSuffix :: "string \<Rightarrow> string \<Rightarrow> string" where
  "TrimSuffix s p = (if HasSuffix s p then take (length s - length p) s else s)"

lemma HasPrefix_iff: "HasPrefix s p \<longleftrightarrow> (\<exists>t. s = p @ t)"
  by (simp add: HasPrefix_def take_eq_iff_append)

lemma HasSuffix_iff: "HasSuffix s p \<longleftrightarrow> (\<exists>t. s = t @ p)"
proof -
  have "HasSuffix s p \<longleftrightarrow> (\<exists>t. rev s = rev p @ t)"
    by (simp add: HasSuffix_def HasPrefix_iff)
  also have "\<dots> \<longleftrightarrow> (\<exists>t. s = t @ p)"
    by (metis rev_append rev_rev_ident)
  finally show ?thesis .
qed

lemma HasPrefix_append [simp]: "HasPrefix (p @ t) p"
  by (auto simp: HasPrefix_iff)

lemma HasSuffix_append [simp]: "HasSuffix (t @ p) p"
  by (auto simp: HasSuffix_iff)

lemma TrimPrefix_append [simp]: "TrimPrefix (p @ t) p = t"
  by (simp add: TrimPrefix_def)

lemma TrimSuffix_append [simp]: "TrimSuffix (t @ p) p = t"
  by (simp add: TrimSuffix_def)

lemma TrimSuffix_id: "\<not> HasSuffix s p \<Longrightarrow> TrimSuffix s p = s"
  by (simp add: TrimSuffix_def)

lemma TrimPrefix_id: "\<not> HasPrefix s p \<Longrightarrow> TrimPrefix s p = s"
  by (simp add: TrimPrefix_def)

section \<open>White space\<close>

definition go_spaces :: "string list" where
  "go_spaces =
     [[CHR 0x20], [CHR 0x09], [CHR 0x0A], [CHR 0x0B], [CHR 0x0C], [CHR 0x0D],
      [CHR 0xC2, CHR 0x85], [CHR 0xC2, CHR 0xA0],
      [CHR 0xE1, CHR 0x9A, CHR 0x80],
      [CHR 0xE2, CHR 0x80, CHR 0x80], [CHR 0xE2, CHR 0x80, CHR 0x81],
      [CHR 0xE2, CHR 0x80, CHR 0x82], [CHR 0xE2, CHR 0x80, CHR 0x83],
      [CHR 0xE2, CHR 0x80, CHR 0x84], [CHR 0xE2, CHR 0x80, CHR 0x85],
      [CHR 0xE2, CHR 0x80, CHR 0x86], [CHR 0xE2, CHR 0x80, CHR 0x87],
      [CHR 0xE2, CHR 0x80, CHR 0x88], [CHR 0xE2, CHR 0x80, CHR 0x89],
      [CHR 0xE2, CHR 0x80, CHR 0x8A],
      [CHR 0xE2, CHR 0x80, CHR 0xA8], [CHR 0xE2, CHR 0x80, CHR 0xA9],
      [CHR 0xE2, CHR 0x80, CHR 0xAF], [CHR 0xE2, CHR 0x81, CHR 0x9F],
      [CHR 0xE3, CHR 0x80, CHR 0x80]]"

text \<open>The length of the first listed string that starts \<open>s\<close>, 0 if there is none.\<close>

definition lead_len :: "string list \<Rightarrow> string \<Rightarrow> nat" where
  "lead_len ws s = (case find (HasPrefix s) ws of None \<Rightarrow> 0 | Some w \<Rightarrow> length w)"

function strip :: "string list \<Rightarrow> string \<Rightarrow> string" where
  "strip ws s =
     (if s = [] \<or> lead_len ws s = 0 then s else strip ws (drop (lead_len ws s) s))"
  by pat_completeness auto
termination
  by (relation "measure (\<lambda>(ws, s). length s)") auto

declare strip.simps [simp del]

definition TrimSpace :: "string \<Rightarrow> string" where
  "TrimSpace s = rev (strip (map rev go_spaces) (rev (strip go_spaces s)))"

lemma strip_Nil [simp]: "strip ws [] = []"
  by (simp add: strip.simps)

lemma strip_id: "lead_len ws s = 0 \<Longrightarrow> strip ws s = s"
  by (simp add: strip.simps [of ws s])

lemma strip_stops: "s' = strip ws s \<Longrightarrow> s' = [] \<or> lead_len ws s' = 0"
proof (induction ws s arbitrary: s' rule: strip.induct)
  case (1 ws s)
  show ?case
  proof (cases "s = [] \<or> lead_len ws s = 0")
    case True
    with 1(2) show ?thesis by (auto simp: strip.simps [of ws s])
  next
    case False
    then have "strip ws s = strip ws (drop (lead_len ws s) s)"
      by (subst strip.simps) simp
    with 1 False show ?thesis by simp
  qed
qed

lemma lead_len_first_char:
  assumes "\<And>w. w \<in> set ws \<Longrightarrow> w \<noteq> [] \<and> hd w \<noteq> c"
  shows "lead_len ws (c # s) = 0"
proof -
  have "find (HasPrefix (c # s)) ws = None"
    unfolding find_None_iff
  proof
    assume "\<exists>w. w \<in> set ws \<and> HasPrefix (c # s) w"
    then obtain w where w: "w \<in> set ws" "HasPrefix (c # s) w" by blast
    then obtain t where "c # s = w @ t" by (auto simp: HasPrefix_iff)
    with assms [OF w(1)] show False by (cases w) auto
  qed
  then show ?thesis by (simp add: lead_len_def)
qed

text \<open>A string whose first and last bytes start and end no white space is left alone.\<close>

definition printable_ends :: "string \<Rightarrow> bool" where
  "printable_ends s \<longleftrightarrow>
     s \<noteq> [] \<and> hd s \<notin> hd ` set go_spaces \<and> last s \<notin> last ` set go_spaces"

lemma go_spaces_nonempty: "w \<in> set go_spaces \<Longrightarrow> w \<noteq> []"
  by (auto simp: go_spaces_def)

lemma TrimSpace_printable_ends:
  assumes "printable_ends s"
  shows "TrimSpace s = s"
proof -
  obtain c r where s: "s = c # r"
    using assms by (cases s) (auto simp: printable_ends_def)
  obtain d q where rs: "rev s = d # q"
    using s by (cases "rev s") auto
  have d: "d = last s"
    using rs s by (metis last.simps last_rev list.sel(1) list.simps(3) rev_rev_ident)
  have c: "w \<noteq> [] \<and> hd w \<noteq> c" if "w \<in> set go_spaces" for w
    using that assms s by (auto simp: printable_ends_def dest: go_spaces_nonempty)
  have dd: "w \<noteq> [] \<and> hd w \<noteq> d" if "w \<in> set (map rev go_spaces)" for w
  proof -
    obtain v where v: "v \<in> set go_spaces" "w = rev v" using \<open>w \<in> _\<close> by auto
    then have "v \<noteq> []" by (simp add: go_spaces_nonempty)
    moreover have "last v \<in> last ` set go_spaces"
      using v(1) by (rule imageI)
    then have "last v \<noteq> d"
      using assms unfolding d printable_ends_def by metis
    ultimately show ?thesis using v(2) by (simp add: hd_rev)
  qed
  have "strip go_spaces s = s"
    unfolding s by (rule strip_id, rule lead_len_first_char) (use c in blast)
  moreover have "strip (map rev go_spaces) (rev s) = rev s"
    unfolding rs by (rule strip_id, rule lead_len_first_char) (use dd in blast)
  ultimately show ?thesis by (simp add: TrimSpace_def)
qed

section \<open>Case\<close>

text \<open>In ASCII a letter's lower case differs from its upper case by bit 5 only.\<close>

definition ascii_lower :: "char \<Rightarrow> char" where
  "ascii_lower c =
     (if CHR ''A'' \<le> c \<and> c \<le> CHR ''Z'' then
        (case c of Char b0 b1 b2 b3 b4 b5 b6 b7 \<Rightarrow> Char b0 b1 b2 b3 b4 True b6 b7)
      else c)"

fun ToLower :: "string \<Rightarrow> string" where
  "ToLower [] = []"
| "ToLower (c # s) =
     (if c = CHR 0xE2 \<and> take 2 s = [CHR 0x84, CHR 0xAA] then CHR ''k'' # ToLower (drop 2 s)
      else if c = CHR 0xC4 \<and> take 1 s = [CHR 0xB0] then CHR ''i'' # ToLower (drop 1 s)
      else ascii_lower c # ToLower s)"

fun fold_case :: "string \<Rightarrow> string" where
  "fold_case [] = []"
| "fold_case (c # s) =
     (if c = CHR 0xE2 \<and> take 2 s = [CHR 0x84, CHR 0xAA] then CHR ''k'' # fold_case (drop 2 s)
      else if c = CHR 0xC5 \<and> take 1 s = [CHR 0xBF] then CHR ''s'' # fold_case (drop 1 s)
      else ascii_lower c # fold_case s)"

definition EqualFold :: "string \<Rightarrow> string \<Rightarrow> bool" where
  "EqualFold s t \<longleftrightarrow> fold_case s = fold_case t"

lemma EqualFold_refl [simp]: "EqualFold s s"
  by (simp add: EqualFold_def)

definition is_ascii :: "string \<Rightarrow> bool" where
  "is_ascii s \<longleftrightarrow> list_all (\<lambda>c. c < CHR 0x80) s"

lemma is_ascii_simps [simp]:
  "is_ascii []" "is_ascii (c # s) \<longleftrightarrow> c < CHR 0x80 \<and> is_ascii s"
  by (simp_all add: is_ascii_def)

lemma ToLower_ascii: "is_ascii s \<Longrightarrow> ToLower s = map ascii_lower s"
  by (induction s rule: ToLower.induct) auto

lemma fold_case_ascii: "is_ascii s \<Longrightarrow> fold_case s = map ascii_lower s"
  by (induction s rule: fold_case.induct) auto

section \<open>Splitting, joining, searching\<close>

text \<open>\<open>strings.SplitN(s, c, 2)\<close>, \<open>strings.Split(s, c)\<close> and \<open>strings.Contains\<close> for a
  one-byte separator.\<close>

definition SplitN2 :: "char \<Rightarrow> string \<Rightarrow> string list" where
  "SplitN2 c s =
     (case dropWhile (\<lambda>x. x \<noteq> c) s of
        [] \<Rightarrow> [s]
      | _ # r \<Rightarrow> [takeWhile (\<lambda>x. x \<noteq> c) s, r])"

fun Split :: "char \<Rightarrow> string \<Rightarrow> string list" where
  "Split c [] = [[]]"
| "Split c (x # s) =
     (if x = c then [] # Split c s
      else (case Split c s of [] \<Rightarrow> [[x]] | p # ps \<Rightarrow> (x # p) # ps))"

definition Contains :: "string \<Rightarrow> string \<Rightarrow> bool" where
  "Contains s sub \<longleftrightarrow> list_ex (\<lambda>i. HasPrefix (drop i s) sub) [0..<Suc (length s)]"

lemma SplitN2_sep: "c \<notin> set s \<Longrightarrow> SplitN2 c (s @ c # r) = [s, r]"
  by (induction s) (auto simp: SplitN2_def split: list.splits)

lemma SplitN2_none: "c \<notin> set s \<Longrightarrow> SplitN2 c s = [s]"
proof -
  assume "c \<notin> set s"
  then have "dropWhile (\<lambda>x. x \<noteq> c) s = []" by (auto simp: dropWhile_eq_Nil_conv)
  then show ?thesis unfolding SplitN2_def by (simp only: list.case)
qed

lemma Split_nonempty [simp]: "Split c s \<noteq> []"
  by (induction s) (auto split: list.splits)

lemma Split_no_sep: "p \<in> set (Split c s) \<Longrightarrow> c \<notin> set p"
  by (induction s arbitrary: p) (auto split: if_splits list.splits)

lemma Contains_iff: "Contains s sub \<longleftrightarrow> (\<exists>a b. s = a @ sub @ b)"
proof
  assume "Contains s sub"
  then obtain i where "i \<le> length s" "HasPrefix (drop i s) sub"
    by (auto simp: Contains_def list_ex_iff less_Suc_eq_le simp del: upt_Suc)
  then obtain t where "drop i s = sub @ t" by (auto simp: HasPrefix_iff)
  then have "s = take i s @ sub @ t" by (metis append_take_drop_id)
  then show "\<exists>a b. s = a @ sub @ b" by blast
next
  assume "\<exists>a b. s = a @ sub @ b"
  then obtain a b where s: "s = a @ sub @ b" by blast
  then have "HasPrefix (drop (length a) s) sub" by simp
  moreover have "length a \<in> set [0..<Suc (length s)]" using s by auto
  ultimately show "Contains s sub" unfolding Contains_def list_ex_iff by blast
qed

section \<open>Numbers\<close>

text \<open>\<open>fmt.Sprintf("%d", n)\<close> of a number that is not negative.\<close>

fun dec_digits :: "nat \<Rightarrow> string" where
  "dec_digits n =
     (if n < 10 then [char_of (48 + n)] else dec_digits (n div 10) @ [char_of (48 + n mod 10)])"

declare dec_digits.simps [simp del]

section \<open>The tunnel ID pattern\<close>

definition id_char :: "char \<Rightarrow> bool" where
  "id_char c \<longleftrightarrow> CHR ''a'' \<le> c \<and> c \<le> CHR ''z'' \<or> CHR ''0'' \<le> c \<and> c \<le> CHR ''9''"

definition idRe :: "string \<Rightarrow> bool" where
  "idRe s \<longleftrightarrow> length s = 8 \<and> list_all id_char s"

lemma idRe_length: "idRe s \<Longrightarrow> length s = 8"
  by (simp add: idRe_def)

lemma idRe_nonempty: "idRe s \<Longrightarrow> s \<noteq> []"
  by (auto simp: idRe_def)

lemma idRe_no_slash: "idRe s \<Longrightarrow> CHR ''/'' \<notin> set s"
  by (auto simp: idRe_def list_all_iff id_char_def)

end
