(* ===== verification/GoCodec.thy ===== *)
theory GoCodec
  imports GoStrings
begin

unbundle bit_operations_syntax

text \<open>
  Go's \<open>encoding/base64\<close> and \<open>crypto/sha256\<close>, as far as the program uses them.

  Encoding is the padded \<open>StdEncoding\<close> (frame payloads and secret hashes) or the unpadded
  \<open>RawURLEncoding\<close> (fresh secrets).  Decoding is only ever \<open>StdEncoding.DecodeString\<close>: line
  breaks are skipped, the last quantum must be padded, and, as the decoder is not strict, the
  unused bits of a padded quantum are ignored.

  The locale \<open>codec\<close> is the contract the framing layer relies on: what a sender encodes the
  receiver decodes.
\<close>

section \<open>The contract\<close>

locale codec =
  fixes enc :: "'a \<Rightarrow> 'b" and dec :: "'b \<Rightarrow> 'a option"
  assumes dec_enc: "dec (enc x) = Some x"
begin

lemma enc_inj: "enc x = enc y \<Longrightarrow> x = y"
  by (metis dec_enc option.inject)

lemma decode_each: "map dec (map enc xs) = map Some xs"
  by (simp add: dec_enc)

lemma decoded_concat: "concat (map (\<lambda>s. case dec s of None \<Rightarrow> [] | Some b \<Rightarrow> f b) (map enc xs)) = concat (map f xs)"
  by (induction xs) (simp_all add: dec_enc)

end

section \<open>Base64\<close>

definition std_alphabet :: string where
  "std_alphabet = ''ABCDEFGHIJKLMNOPQRSTUVWXYZabcdefghijklmnopqrstuvwxyz0123456789+/''"

definition url_alphabet :: string where
  "url_alphabet = ''ABCDEFGHIJKLMNOPQRSTUVWXYZabcdefghijklmnopqrstuvwxyz0123456789-_''"

definition b64_digit :: "string \<Rightarrow> char \<Rightarrow> nat option" where
  "b64_digit al c = (if c \<in> set al then Some (length (takeWhile (\<lambda>x. x \<noteq> c) al)) else None)"

text \<open>Three bytes make four digits of six bits; a shorter tail is padded when \<open>pad\<close> holds.\<close>

fun b64_encode :: "string \<Rightarrow> bool \<Rightarrow> byte list \<Rightarrow> string" where
  "b64_encode al pad [] = []"
| "b64_encode al pad [a] =
     [al ! (unat a div 4), al ! (unat a mod 4 * 16)] @ (if pad then ''=='' else [])"
| "b64_encode al pad [a, b] =
     [al ! (unat a div 4), al ! (unat a mod 4 * 16 + unat b div 16), al ! (unat b mod 16 * 4)]
       @ (if pad then ''='' else [])"
| "b64_encode al pad (a # b # c # bs) =
     [al ! (unat a div 4), al ! (unat a mod 4 * 16 + unat b div 16),
      al ! (unat b mod 16 * 4 + unat c div 64), al ! (unat c mod 64)] @ b64_encode al pad bs"

definition byte_of :: "nat \<Rightarrow> byte" where
  "byte_of n = of_nat n"

lemma byte_of_unat [simp]: "byte_of (unat b) = b"
  by (simp add: byte_of_def)

fun b64_quanta :: "string \<Rightarrow> string \<Rightarrow> byte list option" where
  "b64_quanta al [] = Some []"
| "b64_quanta al (a # b # c # d # s) =
     (if c = CHR ''='' \<and> d = CHR ''='' \<and> s = [] then
        (case (b64_digit al a, b64_digit al b) of
           (Some x, Some y) \<Rightarrow> Some [byte_of (x * 4 + y div 16)]
         | _ \<Rightarrow> None)
      else if d = CHR ''='' \<and> s = [] then
        (case (b64_digit al a, b64_digit al b, b64_digit al c) of
           (Some x, Some y, Some z) \<Rightarrow>
             Some [byte_of (x * 4 + y div 16), byte_of (y mod 16 * 16 + z div 4)]
         | _ \<Rightarrow> None)
      else
        (case (b64_digit al a, b64_digit al b, b64_digit al c, b64_digit al d, b64_quanta al s) of
           (Some x, Some y, Some z, Some w, Some bs) \<Rightarrow>
             Some (byte_of (x * 4 + y div 16) # byte_of (y mod 16 * 16 + z div 4)
                     # byte_of (z mod 4 * 64 + w) # bs)
         | _ \<Rightarrow> None))"
| "b64_quanta al _ = None"

definition EncodeToString :: "byte list \<Rightarrow> string" where
  "EncodeToString bs = b64_encode std_alphabet True bs"

definition RawURLEncode :: "byte list \<Rightarrow> string" where
  "RawURLEncode bs = b64_encode url_alphabet False bs"

definition DecodeString :: "string \<Rightarrow> byte list option" where
  "DecodeString s = b64_quanta std_alphabet (filter (\<lambda>c. c \<noteq> CHR 0x0A \<and> c \<noteq> CHR 0x0D) s)"

lemma b64_digit_nth:
  assumes "distinct al" and "n < length al"
  shows "b64_digit al (al ! n) = Some n"
proof -
  have "takeWhile (\<lambda>x. x \<noteq> al ! n) al = take n al"
    by (rule takeWhile_eq_take_P_nth) (use assms nth_eq_iff_index_eq in fastforce)+
  with assms show ?thesis by (simp add: b64_digit_def)
qed

lemma std_alphabet_facts [simp]:
  "distinct std_alphabet" "length std_alphabet = 64" "CHR ''='' \<notin> set std_alphabet"
  by (simp_all add: std_alphabet_def)

lemma url_alphabet_facts [simp]: "length url_alphabet = 64"
  by (simp add: url_alphabet_def)

lemma std_digit [simp]: "n < 64 \<Longrightarrow> b64_digit std_alphabet (std_alphabet ! n) = Some n"
  by (simp add: b64_digit_nth)

lemma std_not_pad: "n < 64 \<Longrightarrow> std_alphabet ! n \<noteq> CHR ''=''"
  by (metis nth_mem std_alphabet_facts(2,3))

lemma byte_bound [simp]: "unat (b :: byte) < 256"
  using unsigned_less [of b] by simp

lemma sextet_bounds [simp]:
  fixes a b :: byte
  shows "unat a div 4 < 64" "unat a mod 4 * 16 < 64" "unat a mod 4 * 16 + unat b div 16 < 64"
    "unat a mod 16 * 4 < 64" "unat a mod 16 * 4 + unat b div 64 < 64"
  using byte_bound [of a] byte_bound [of b] by linarith+

lemma sextet_parts: "y < 256 \<Longrightarrow> y div 16 < 16" "y < 256 \<Longrightarrow> y div 64 < 4" for y :: nat
  by linarith+

lemma sextet_join [simp]:
  fixes b :: byte
  shows "unat b div 16 div 16 = 0" "unat b div 16 mod 16 = unat b div 16"
    and "unat b div 64 div 4 = 0" "unat b div 64 mod 4 = unat b div 64"
  using sextet_parts [OF byte_bound, of b] by simp_all

lemma induct_list3 [case_names Nil One Two Three]:
  assumes "P []" "\<And>a. P [a]" "\<And>a b. P [a, b]" "\<And>a b c bs. P bs \<Longrightarrow> P (a # b # c # bs)"
  shows "P bs"
proof (induction "length bs" arbitrary: bs rule: less_induct)
  case less
  show ?case
  proof (cases "3 \<le> length bs")
    case True
    then obtain a b c r where "bs = a # b # c # r"
      by (auto simp: numeral_3_eq_3 Suc_le_length_iff)
    with less assms(4) show ?thesis by simp
  next
    case False
    then consider "bs = []" | a where "bs = [a]" | a b where "bs = [a, b]"
      by (cases bs rule: remdups_adj.cases) (auto simp: Suc_length_conv neq_Nil_conv not_le numeral_3_eq_3 less_Suc_eq)
    then show ?thesis using assms by cases auto
  qed
qed

lemma b64_quanta_encode: "b64_quanta std_alphabet (b64_encode std_alphabet True bs) = Some bs"
proof (induction bs rule: induct_list3)
  case (Three a b c bs)
  then show ?case by (simp add: std_not_pad)
qed (simp_all add: std_not_pad)

lemma b64_encode_chars:
  "length al = 64 \<Longrightarrow> set (b64_encode al pad bs) \<subseteq> insert (CHR ''='') (set al)"
  by (induction al pad bs rule: b64_encode.induct) (auto split: if_splits)

lemma DecodeString_EncodeToString [simp]: "DecodeString (EncodeToString bs) = Some bs"
proof -
  have "set (EncodeToString bs) \<subseteq> insert (CHR ''='') (set std_alphabet)"
    unfolding EncodeToString_def by (rule b64_encode_chars) simp
  then have "filter (\<lambda>c. c \<noteq> CHR 0x0A \<and> c \<noteq> CHR 0x0D) (EncodeToString bs) = EncodeToString bs"
    by (intro filter_True) (auto simp: std_alphabet_def)
  then show ?thesis
    by (simp add: DecodeString_def EncodeToString_def b64_quanta_encode)
qed

interpretation b64: codec EncodeToString DecodeString
  by unfold_locales simp

lemma length_b64_encode_pad:
  "length (b64_encode al True bs) = 4 * ((length bs + 2) div 3)"
proof (induction bs rule: induct_list3)
  case (Three a b c bs)
  have "(length bs + 5) div 3 = Suc ((length bs + 2) div 3)" by presburger
  with Three show ?case by (simp add: add.commute)
qed simp_all

lemma length_EncodeToString: "length (EncodeToString bs) = 4 * ((length bs + 2) div 3)"
  by (simp add: EncodeToString_def length_b64_encode_pad)

lemma EncodeToString_ascii: "is_ascii (EncodeToString bs)"
proof -
  have "set (EncodeToString bs) \<subseteq> insert (CHR ''='') (set std_alphabet)"
    unfolding EncodeToString_def by (rule b64_encode_chars) simp
  moreover have "c < CHR 0x80" if "c \<in> insert (CHR ''='') (set std_alphabet)" for c
    using that by (auto simp: std_alphabet_def)
  ultimately show ?thesis by (auto simp: is_ascii_def list_all_iff)
qed

lemma RawURLEncode_ascii: "is_ascii (RawURLEncode bs)"
proof -
  have "set (RawURLEncode bs) \<subseteq> insert (CHR ''='') (set url_alphabet)"
    unfolding RawURLEncode_def by (rule b64_encode_chars) simp
  moreover have "c < CHR 0x80" if "c \<in> insert (CHR ''='') (set url_alphabet)" for c
    using that by (auto simp: url_alphabet_def)
  ultimately show ?thesis by (auto simp: is_ascii_def list_all_iff)
qed

lemma RawURLEncode_nonempty: "bs \<noteq> [] \<Longrightarrow> RawURLEncode bs \<noteq> []"
  by (cases "(url_alphabet, False, bs)" rule: b64_encode.cases) (auto simp: RawURLEncode_def)

section \<open>SHA-256\<close>

type_synonym w32 = "32 word"

text \<open>The constants, two 32-bit words in each number, the first in the high half.\<close>

definition halves :: "64 word list \<Rightarrow> w32 list" where
  "halves xs = concat (map (\<lambda>x. [ucast (drop_bit 32 x), ucast x]) xs)"

definition sha_k :: "w32 list" where
  "sha_k =
     halves [
        4794697085070296209, 13096744586791213989, 4131703405765792241, 10538285296827260629,
        15566598207151758081, 2608012711741390275, 8268148720858477054, 11230858888332702068,
        16472876343709550470, 1135362055407968716, 3308224257782482090, 6679025011744409818,
        10970295157772109421, 12683024718762704839, 14330467156182405447, 489312709404862823,
        2861767655337697592, 5560940570391088403, 7280758554198936251, 9350256978237205637,
        11727347735703742027, 14000437183109681571, 15101387698198873636, 17586052440550711408,
        1847814047869135880, 2830643534987574453, 4115178123771292234, 6601373596217405427,
        8399075790807196527, 9568029438005150216, 10430055239000288491, 13761210420988836082]"

definition sha_h0 :: "w32 list" where
  "sha_h0 =
     halves [
        7640891576010911365, 4354685563439150394, 5840696474761259148, 2270897967128956185]"

definition sha_pad :: "byte list \<Rightarrow> byte list" where
  "sha_pad m =
     m @ [0x80] @ replicate ((119 - length m mod 64) mod 64) 0
       @ map (\<lambda>i. of_int (int (length m) * 8 div 256 ^ (7 - i))) [0..<8]"

fun be_words :: "byte list \<Rightarrow> w32 list" where
  "be_words (a # b # c # d # bs) =
     (push_bit 24 (ucast a) OR push_bit 16 (ucast b) OR push_bit 8 (ucast c) OR ucast d)
       # be_words bs"
| "be_words _ = []"

definition be_bytes :: "w32 \<Rightarrow> byte list" where
  "be_bytes w = [ucast (drop_bit 24 w), ucast (drop_bit 16 w), ucast (drop_bit 8 w), ucast w]"

text \<open>The message schedule, newest word first.\<close>

primrec sha_schedule :: "nat \<Rightarrow> w32 list \<Rightarrow> w32 list" where
  "sha_schedule 0 ws = ws"
| "sha_schedule (Suc n) ws =
     (let w2 = ws ! 1; w15 = ws ! 14;
          s0 = word_rotr 7 w15 XOR word_rotr 18 w15 XOR drop_bit 3 w15;
          s1 = word_rotr 17 w2 XOR word_rotr 19 w2 XOR drop_bit 10 w2
      in sha_schedule n ((ws ! 15 + s0 + ws ! 6 + s1) # ws))"

fun sha_round :: "w32 list \<Rightarrow> w32 \<times> w32 \<Rightarrow> w32 list" where
  "sha_round [a, b, c, d, e, f, g, h] (k, w) =
     (let s1 = word_rotr 6 e XOR word_rotr 11 e XOR word_rotr 25 e;
          ch = (e AND f) XOR (NOT e AND g);
          t1 = h + s1 + ch + k + w;
          s0 = word_rotr 2 a XOR word_rotr 13 a XOR word_rotr 22 a;
          maj = (a AND b) XOR (a AND c) XOR (b AND c)
      in [t1 + s0 + maj, a, b, c, d + t1, e, f, g])"
| "sha_round st _ = st"

definition sha_block :: "w32 list \<Rightarrow> byte list \<Rightarrow> w32 list" where
  "sha_block st blk =
     map2 (+) st (foldl sha_round st (zip sha_k (rev (sha_schedule 48 (rev (be_words blk))))))"

function sha_blocks :: "w32 list \<Rightarrow> byte list \<Rightarrow> w32 list" where
  "sha_blocks st m = (if m = [] then st else sha_blocks (sha_block st (take 64 m)) (drop 64 m))"
  by pat_completeness auto
termination
  by (relation "measure (\<lambda>(st, m). length m)") auto

declare sha_blocks.simps [simp del]

definition Sum256 :: "byte list \<Rightarrow> byte list" where
  "Sum256 m = concat (map be_bytes (sha_blocks sha_h0 (sha_pad m)))"

text \<open>\<open>[]byte(s)\<close>: the bytes of a Go string.\<close>

definition bytes_of :: "string \<Rightarrow> byte list" where
  "bytes_of s = map (\<lambda>c. of_nat (of_char c)) s"

lemma length_sha_round [simp]: "length (sha_round st kw) = length st"
  by (cases "(st, kw)" rule: sha_round.cases) (auto simp: Let_def)

lemma length_foldl_sha_round [simp]: "length (foldl sha_round st kws) = length st"
  by (induction kws arbitrary: st) auto

lemma length_sha_blocks: "length (sha_blocks st m) = length st"
proof (induction st m rule: sha_blocks.induct)
  case (1 st m)
  show ?case
    by (subst sha_blocks.simps) (use 1 in \<open>simp add: sha_block_def\<close>)
qed

lemma length_Sum256 [simp]: "length (Sum256 m) = 32"
proof -
  have "length (concat (map be_bytes ws)) = 4 * length ws" for ws
    by (induction ws) (auto simp: be_bytes_def)
  then show ?thesis by (simp add: Sum256_def length_sha_blocks sha_h0_def halves_def)
qed

end
