(* ===== verification/Frame.thy ===== *)
theory Frame
  imports GoCodec "HOL-Library.List_Lexorder"
begin

text \<open>
  Package \<open>proto\<close> (\<open>internal/proto/frame.go\<close>): the frame record, its JSON encoding and the
  decoding rules of \<open>encoding/json\<close> it relies on.

  A frame on the wire is a JSON document, here its syntax tree \<open>json\<close>: \<open>Marshal\<close> yields one
  and \<open>Unmarshal\<close> takes \<open>None\<close> for a payload that is no JSON document at all.  What
  \<open>encoding/json\<close> does between the two is modelled: zero values are omitted, invalid UTF-8 is
  replaced on encoding, map keys are sorted, keys are matched to fields without regard to case,
  unknown keys are skipped, \<open>null\<close> leaves a scalar as it is, and a value of the wrong kind or
  out of the field's range is an error.  A number is a literal with an integer value, or one
  with a fraction or exponent, which no integer field accepts.
\<close>

section \<open>UTF-8\<close>

definition byte_at :: "string \<Rightarrow> nat \<Rightarrow> char" where
  "byte_at s i = (if i < length s then s ! i else CHR 0x00)"

definition between :: "char \<Rightarrow> char \<Rightarrow> char \<Rightarrow> bool" where
  "between lo hi c \<longleftrightarrow> lo \<le> c \<and> c \<le> hi"

definition cont_byte :: "char \<Rightarrow> bool" where
  "cont_byte c \<longleftrightarrow> between (CHR 0x80) (CHR 0xBF) c"

text \<open>The width of the rune that starts \<open>s\<close>, 0 where \<open>utf8.DecodeRune\<close> reports an invalid one.\<close>

definition rune_len :: "string \<Rightarrow> nat" where
  "rune_len s =
     (let c = byte_at s 0; d = byte_at s 1; e = byte_at s 2; g = byte_at s 3 in
      if s = [] then 0
      else if c < CHR 0x80 then 1
      else if between (CHR 0xC2) (CHR 0xDF) c \<and> cont_byte d then 2
      else if (c = CHR 0xE0 \<and> between (CHR 0xA0) (CHR 0xBF) d
               \<or> between (CHR 0xE1) (CHR 0xEC) c \<and> cont_byte d
               \<or> c = CHR 0xED \<and> between (CHR 0x80) (CHR 0x9F) d
               \<or> between (CHR 0xEE) (CHR 0xEF) c \<and> cont_byte d) \<and> cont_byte e then 3
      else if (c = CHR 0xF0 \<and> between (CHR 0x90) (CHR 0xBF) d
               \<or> between (CHR 0xF1) (CHR 0xF3) c \<and> cont_byte d
               \<or> c = CHR 0xF4 \<and> between (CHR 0x80) (CHR 0x8F) d) \<and> cont_byte e \<and> cont_byte g
           then 4
      else 0)"

function utf8_coerce :: "string \<Rightarrow> string" where
  "utf8_coerce s =
     (if s = [] then []
      else if rune_len s = 0 then [CHR 0xEF, CHR 0xBF, CHR 0xBD] @ utf8_coerce (drop 1 s)
      else take (rune_len s) s @ utf8_coerce (drop (rune_len s) s))"
  by pat_completeness auto
termination
  by (relation "measure length") auto

function valid_utf8 :: "string \<Rightarrow> bool" where
  "valid_utf8 s =
     (if s = [] then True
      else if rune_len s = 0 then False
      else valid_utf8 (drop (rune_len s) s))"
  by pat_completeness auto
termination
  by (relation "measure length") auto

declare utf8_coerce.simps [simp del] valid_utf8.simps [simp del]

lemma utf8_coerce_valid [simp]: "valid_utf8 s \<Longrightarrow> utf8_coerce s = s"
proof (induction s rule: utf8_coerce.induct)
  case (1 s)
  then have "s = [] \<or> rune_len s \<noteq> 0 \<and> valid_utf8 (drop (rune_len s) s)"
    by (subst (asm) valid_utf8.simps) (simp split: if_splits)
  with 1(2) show ?case by (subst utf8_coerce.simps) auto
qed

lemma rune_len_ascii: "c < CHR 0x80 \<Longrightarrow> rune_len (c # s) = 1"
  by (simp add: rune_len_def byte_at_def)

lemma valid_utf8_Nil [simp]: "valid_utf8 []"
  by (simp add: valid_utf8.simps)

lemma valid_utf8_ascii: "is_ascii s \<Longrightarrow> valid_utf8 s"
proof (induction s)
  case (Cons c s)
  then show ?case by (subst valid_utf8.simps) (simp add: rune_len_ascii)
qed simp

section \<open>The frame\<close>

datatype json =
    JNull
  | JBool bool
  | JNum int
  | JFrac string
  | JStr string
  | JArr "json list"
  | JObj "(string \<times> json) list"

record frame =
  f_Type :: string
  f_Version :: int
  f_DesiredId :: string
  f_Secret :: string
  f_ClientType :: string
  f_ExtVersion :: string
  f_Ok :: bool
  f_TunnelID :: string
  f_Error :: string
  f_IDReused :: bool
  f_DesiredDenied :: bool
  f_TS :: int
  f_Target :: string
  f_Forwarded :: "64 word"
  f_ReqID :: "32 word"
  f_Method :: string
  f_Path :: string
  f_Query :: string
  f_Headers :: headers
  f_HasBody :: bool
  f_Seq :: int
  f_Data :: string
  f_Status :: int

definition HelloVersion :: int where
  "HelloVersion = 1"

definition zero_frame :: frame where
  "zero_frame =
     \<lparr>f_Type = '''', f_Version = 0, f_DesiredId = '''', f_Secret = '''', f_ClientType = '''',
        f_ExtVersion = '''', f_Ok = False, f_TunnelID = '''', f_Error = '''', f_IDReused =
        False, f_DesiredDenied = False, f_TS = 0, f_Target = '''', f_Forwarded = 0, f_ReqID = 0,
        f_Method = '''', f_Path = '''', f_Query = '''', f_Headers = [], f_HasBody = False, f_Seq
        = 0, f_Data = '''', f_Status = 0\<rparr>"

section \<open>Encoding\<close>

definition opt_str :: "string \<Rightarrow> string \<Rightarrow> (string \<times> json) list" where
  "opt_str k s = (if s = [] then [] else [(k, JStr (utf8_coerce s))])"

definition opt_int :: "string \<Rightarrow> int \<Rightarrow> (string \<times> json) list" where
  "opt_int k n = (if n = 0 then [] else [(k, JNum n)])"

definition opt_bool :: "string \<Rightarrow> bool \<Rightarrow> (string \<times> json) list" where
  "opt_bool k b = (if b then [(k, JBool True)] else [])"

definition enc_strings :: "string list \<Rightarrow> json" where
  "enc_strings ss = JArr (map (\<lambda>s. JStr (utf8_coerce s)) ss)"

definition opt_headers :: "string \<Rightarrow> headers \<Rightarrow> (string \<times> json) list" where
  "opt_headers k h =
     (if h = [] then []
      else [(k, JObj (map (\<lambda>(n, vs). (utf8_coerce n, enc_strings vs)) (sort_key fst h)))])"

definition Marshal :: "frame \<Rightarrow> json" where
  "Marshal f = JObj
       ([(''type'', JStr (utf8_coerce (f_Type f)))]
        @ opt_int ''version'' (f_Version f)
        @ opt_str ''desiredId'' (f_DesiredId f)
        @ opt_str ''secret'' (f_Secret f)
        @ opt_str ''clientType'' (f_ClientType f)
        @ opt_str ''extVersion'' (f_ExtVersion f)
        @ opt_bool ''ok'' (f_Ok f)
        @ opt_str ''tunnelID'' (f_TunnelID f)
        @ opt_str ''error'' (f_Error f)
        @ opt_bool ''idReused'' (f_IDReused f)
        @ opt_bool ''desiredDenied'' (f_DesiredDenied f)
        @ opt_int ''ts'' (f_TS f)
        @ opt_str ''target'' (f_Target f)
        @ opt_int ''forwarded'' (uint (f_Forwarded f))
        @ opt_int ''reqId'' (uint (f_ReqID f))
        @ opt_str ''method'' (f_Method f)
        @ opt_str ''path'' (f_Path f)
        @ opt_str ''query'' (f_Query f)
        @ opt_headers ''headers'' (f_Headers f)
        @ opt_bool ''hasBody'' (f_HasBody f)
        @ opt_int ''seq'' (f_Seq f)
        @ opt_str ''data'' (f_Data f)
        @ opt_int ''status'' (f_Status f))"

section \<open>Decoding\<close>

definition frame_fields :: "string list" where
  "frame_fields =
     [''type'', ''version'', ''desiredId'', ''secret'', ''clientType'', ''extVersion'',
      ''ok'', ''tunnelID'', ''error'', ''idReused'', ''desiredDenied'', ''ts'', ''target'',
      ''forwarded'', ''reqId'', ''method'', ''path'', ''query'', ''headers'', ''hasBody'',
      ''seq'', ''data'', ''status'']"

definition field_name :: "string \<Rightarrow> string option" where
  "field_name k = find (\<lambda>n. EqualFold k n) frame_fields"

fun dec_str :: "json \<Rightarrow> string \<Rightarrow> string option" where
  "dec_str (JStr s) old = Some s"
| "dec_str JNull old = Some old"
| "dec_str _ old = None"

fun dec_int :: "int \<Rightarrow> int \<Rightarrow> json \<Rightarrow> int \<Rightarrow> int option" where
  "dec_int lo hi (JNum n) old = (if lo \<le> n \<and> n < hi then Some n else None)"
| "dec_int lo hi JNull old = Some old"
| "dec_int lo hi _ old = None"

fun dec_bool :: "json \<Rightarrow> bool \<Rightarrow> bool option" where
  "dec_bool (JBool b) old = Some b"
| "dec_bool JNull old = Some old"
| "dec_bool _ old = None"

fun dec_strings :: "json list \<Rightarrow> string list option" where
  "dec_strings [] = Some []"
| "dec_strings (j # js) =
     (case (dec_str j [], dec_strings js) of
        (Some s, Some ss) \<Rightarrow> Some (s # ss)
      | _ \<Rightarrow> None)"

fun dec_header_entries :: "(string \<times> json) list \<Rightarrow> headers \<Rightarrow> headers option" where
  "dec_header_entries [] h = Some h"
| "dec_header_entries ((k, JNull) # kvs) h = dec_header_entries kvs (AList.update k [] h)"
| "dec_header_entries ((k, JArr js) # kvs) h =
     (case dec_strings js of
        None \<Rightarrow> None
      | Some ss \<Rightarrow> dec_header_entries kvs (AList.update k ss h))"
| "dec_header_entries _ h = None"

fun dec_headers :: "json \<Rightarrow> headers \<Rightarrow> headers option" where
  "dec_headers JNull h = Some []"
| "dec_headers (JObj kvs) h = dec_header_entries kvs h"
| "dec_headers _ h = None"

definition set_field :: "string \<Rightarrow> json \<Rightarrow> frame \<Rightarrow> frame option" where
  "set_field name v f =
     (if name = ''type'' then map_option (\<lambda>s. f\<lparr>f_Type := s\<rparr>) (dec_str v (f_Type f))
      else if name = ''version'' then map_option (\<lambda>n. f\<lparr>f_Version := n\<rparr>) (dec_int (- (2 ^ 63)) (2 ^ 63) v (f_Version f))
      else if name = ''desiredId'' then map_option (\<lambda>s. f\<lparr>f_DesiredId := s\<rparr>) (dec_str v (f_DesiredId f))
      else if name = ''secret'' then map_option (\<lambda>s. f\<lparr>f_Secret := s\<rparr>) (dec_str v (f_Secret f))
      else if name = ''clientType'' then map_option (\<lambda>s. f\<lparr>f_ClientType := s\<rparr>) (dec_str v (f_ClientType f))
      else if name = ''extVersion'' then map_option (\<lambda>s. f\<lparr>f_ExtVersion := s\<rparr>) (dec_str v (f_ExtVersion f))
      else if name = ''ok'' then map_option (\<lambda>b. f\<lparr>f_Ok := b\<rparr>) (dec_bool v (f_Ok f))
      else if name = ''tunnelID'' then map_option (\<lambda>s. f\<lparr>f_TunnelID := s\<rparr>) (dec_str v (f_TunnelID f))
      else if name = ''error'' then map_option (\<lambda>s. f\<lparr>f_Error := s\<rparr>) (dec_str v (f_Error f))
      else if name = ''idReused'' then map_option (\<lambda>b. f\<lparr>f_IDReused := b\<rparr>) (dec_bool v (f_IDReused f))
      else if name = ''desiredDenied'' then map_option (\<lambda>b. f\<lparr>f_DesiredDenied := b\<rparr>) (dec_bool v (f_DesiredDenied f))
      else if name = ''ts'' then map_option (\<lambda>n. f\<lparr>f_TS := n\<rparr>) (dec_int (- (2 ^ 63)) (2 ^ 63) v (f_TS f))
      else if name = ''target'' then map_option (\<lambda>s. f\<lparr>f_Target := s\<rparr>) (dec_str v (f_Target f))
      else if name = ''forwarded'' then map_option (\<lambda>n. f\<lparr>f_Forwarded := of_int n\<rparr>) (dec_int 0 (2 ^ 64) v (uint (f_Forwarded f)))
      else if name = ''reqId'' then map_option (\<lambda>n. f\<lparr>f_ReqID := of_int n\<rparr>) (dec_int 0 (2 ^ 32) v (uint (f_ReqID f)))
      else if name = ''method'' then map_option (\<lambda>s. f\<lparr>f_Method := s\<rparr>) (dec_str v (f_Method f))
      else if name = ''path'' then map_option (\<lambda>s. f\<lparr>f_Path := s\<rparr>) (dec_str v (f_Path f))
      else if name = ''query'' then map_option (\<lambda>s. f\<lparr>f_Query := s\<rparr>) (dec_str v (f_Query f))
      else if name = ''headers'' then map_option (\<lambda>h. f\<lparr>f_Headers := h\<rparr>) (dec_headers v (f_Headers f))
      else if name = ''hasBody'' then map_option (\<lambda>b. f\<lparr>f_HasBody := b\<rparr>) (dec_bool v (f_HasBody f))
      else if name = ''seq'' then map_option (\<lambda>n. f\<lparr>f_Seq := n\<rparr>) (dec_int (- (2 ^ 63)) (2 ^ 63) v (f_Seq f))
      else if name = ''data'' then map_option (\<lambda>s. f\<lparr>f_Data := s\<rparr>) (dec_str v (f_Data f))
      else if name = ''status'' then map_option (\<lambda>n. f\<lparr>f_Status := n\<rparr>) (dec_int (- (2 ^ 63)) (2 ^ 63) v (f_Status f))
      else Some f)"

fun decode_fields :: "(string \<times> json) list \<Rightarrow> frame \<Rightarrow> frame option" where
  "decode_fields [] f = Some f"
| "decode_fields ((k, v) # kvs) f =
     (case field_name k of
        None \<Rightarrow> decode_fields kvs f
      | Some n \<Rightarrow>
          (case set_field n v f of
             None \<Rightarrow> None
           | Some f' \<Rightarrow> decode_fields kvs f'))"

text \<open>\<open>None\<close> in is a payload that is not JSON; \<open>None\<close> out is the error return.\<close>

fun Unmarshal :: "json option \<Rightarrow> frame \<Rightarrow> frame option" where
  "Unmarshal None f = None"
| "Unmarshal (Some (JObj kvs)) f = decode_fields kvs f"
| "Unmarshal (Some JNull) f = Some f"
| "Unmarshal (Some _) f = None"

section \<open>Round trip\<close>

definition int64 :: "int \<Rightarrow> bool" where
  "int64 n \<longleftrightarrow> - (2 ^ 63) \<le> n \<and> n < 2 ^ 63"

definition valid_headers :: "headers \<Rightarrow> bool" where
  "valid_headers h \<longleftrightarrow>
     wf_dict h \<and> list_all (\<lambda>(k, vs). valid_utf8 k \<and> list_all valid_utf8 vs) h"

definition valid_frame :: "frame \<Rightarrow> bool" where
  "valid_frame f \<longleftrightarrow>
     valid_utf8 (f_Type f) \<and>
     valid_utf8 (f_DesiredId f) \<and>
     valid_utf8 (f_Secret f) \<and>
     valid_utf8 (f_ClientType f) \<and>
     valid_utf8 (f_ExtVersion f) \<and>
     valid_utf8 (f_TunnelID f) \<and>
     valid_utf8 (f_Error f) \<and>
     valid_utf8 (f_Target f) \<and>
     valid_utf8 (f_Method f) \<and>
     valid_utf8 (f_Path f) \<and>
     valid_utf8 (f_Query f) \<and>
     valid_utf8 (f_Data f) \<and>
     int64 (f_Version f) \<and>
     int64 (f_TS f) \<and>
     int64 (f_Seq f) \<and>
     int64 (f_Status f) \<and>
     valid_headers (f_Headers f)"

lemma int64_0 [simp]: "int64 0"
  by (simp add: int64_def)

lemma field_name_all: "list_all (\<lambda>n. field_name n = Some n) frame_fields"
  by code_simp

lemma field_names [simp]:
  "field_name ''type'' = Some ''type''"
  "field_name ''version'' = Some ''version''"
  "field_name ''desiredId'' = Some ''desiredId''"
  "field_name ''secret'' = Some ''secret''"
  "field_name ''clientType'' = Some ''clientType''"
  "field_name ''extVersion'' = Some ''extVersion''"
  "field_name ''ok'' = Some ''ok''"
  "field_name ''tunnelID'' = Some ''tunnelID''"
  "field_name ''error'' = Some ''error''"
  "field_name ''idReused'' = Some ''idReused''"
  "field_name ''desiredDenied'' = Some ''desiredDenied''"
  "field_name ''ts'' = Some ''ts''"
  "field_name ''target'' = Some ''target''"
  "field_name ''forwarded'' = Some ''forwarded''"
  "field_name ''reqId'' = Some ''reqId''"
  "field_name ''method'' = Some ''method''"
  "field_name ''path'' = Some ''path''"
  "field_name ''query'' = Some ''query''"
  "field_name ''headers'' = Some ''headers''"
  "field_name ''hasBody'' = Some ''hasBody''"
  "field_name ''seq'' = Some ''seq''"
  "field_name ''data'' = Some ''data''"
  "field_name ''status'' = Some ''status''"
  using field_name_all by (simp_all add: frame_fields_def)

lemma decode_fields_append:
  "decode_fields (xs @ ys) f = Option.bind (decode_fields xs f) (decode_fields ys)"
  by (induction xs f rule: decode_fields.induct) (auto split: option.splits)

lemma dec_strings_enc: "list_all valid_utf8 ss \<Longrightarrow> dec_strings (map (\<lambda>s. JStr (utf8_coerce s)) ss) = Some ss"
  by (induction ss) auto

lemma update_append_new: "k \<notin> fst ` set h \<Longrightarrow> AList.update k v h = h @ [(k, v)]"
  by (induction h) auto

lemma dec_header_entries_enc:
  assumes "list_all (\<lambda>(k, vs). valid_utf8 k \<and> list_all valid_utf8 vs) h"
    and "distinct (map fst (acc @ h))"
  shows "dec_header_entries (map (\<lambda>(n, vs). (utf8_coerce n, enc_strings vs)) h) acc = Some (acc @ h)"
  using assms
proof (induction h arbitrary: acc)
  case (Cons p h)
  obtain k vs where p: "p = (k, vs)" by (cases p)
  with Cons.prems have "k \<notin> fst ` set acc" by auto
  then have "AList.update k vs acc = acc @ [p]" by (simp add: update_append_new p)
  with Cons p show ?case by (auto simp: enc_strings_def dec_strings_enc)
qed simp

lemma wf_dict_sort_key [simp]: "wf_dict (sort_key fst h) \<longleftrightarrow> wf_dict h"
  using mset_eq_imp_distinct_iff [of "map fst (sort_key fst h)" "map fst h"]
  by (metis mset_map mset_sort)

lemma dec_enc_headers:
  assumes "valid_headers h"
  shows "dec_header_entries (map (\<lambda>(n, vs). (utf8_coerce n, enc_strings vs)) (sort_key fst h)) []
           = Some (sort_key fst h)"
  using dec_header_entries_enc [of "sort_key fst h" "[]"] assms
  by (simp add: valid_headers_def list_all_iff)

lemma decode_Type [frame_simps]:
  "decode_fields ((''type'', JStr s) # kvs) f = decode_fields kvs (f\<lparr>f_Type := s\<rparr>)"
  by (simp add: set_field_def)

lemma decode_Version [frame_simps]:
  "f_Version f = 0 \<Longrightarrow> int64 n \<Longrightarrow> decode_fields (opt_int ''version'' n) f = Some (f\<lparr>f_Version := n\<rparr>)"
  by (simp add: opt_int_def set_field_def int64_def)

lemma decode_DesiredId [frame_simps]:
  "f_DesiredId f = [] \<Longrightarrow> valid_utf8 s \<Longrightarrow> decode_fields (opt_str ''desiredId'' s) f = Some (f\<lparr>f_DesiredId := s\<rparr>)"
  by (simp add: opt_str_def set_field_def)

lemma decode_Secret [frame_simps]:
  "f_Secret f = [] \<Longrightarrow> valid_utf8 s \<Longrightarrow> decode_fields (opt_str ''secret'' s) f = Some (f\<lparr>f_Secret := s\<rparr>)"
  by (simp add: opt_str_def set_field_def)

lemma decode_ClientType [frame_simps]:
  "f_ClientType f = [] \<Longrightarrow> valid_utf8 s \<Longrightarrow> decode_fields (opt_str ''clientType'' s) f = Some (f\<lparr>f_ClientType := s\<rparr>)"
  by (simp add: opt_str_def set_field_def)

lemma decode_ExtVersion [frame_simps]:
  "f_ExtVersion f = [] \<Longrightarrow> valid_utf8 s \<Longrightarrow> decode_fields (opt_str ''extVersion'' s) f = Some (f\<lparr>f_ExtVersion := s\<rparr>)"
  by (simp add: opt_str_def set_field_def)

lemma decode_Ok [frame_simps]:
  "\<not> f_Ok f \<Longrightarrow> decode_fields (opt_bool ''ok'' b) f = Some (f\<lparr>f_Ok := b\<rparr>)"
  by (simp add: opt_bool_def set_field_def)

lemma decode_TunnelID [frame_simps]:
  "f_TunnelID f = [] \<Longrightarrow> valid_utf8 s \<Longrightarrow> decode_fields (opt_str ''tunnelID'' s) f = Some (f\<lparr>f_TunnelID := s\<rparr>)"
  by (simp add: opt_str_def set_field_def)

lemma decode_Error [frame_simps]:
  "f_Error f = [] \<Longrightarrow> valid_utf8 s \<Longrightarrow> decode_fields (opt_str ''error'' s) f = Some (f\<lparr>f_Error := s\<rparr>)"
  by (simp add: opt_str_def set_field_def)

lemma decode_IDReused [frame_simps]:
  "\<not> f_IDReused f \<Longrightarrow> decode_fields (opt_bool ''idReused'' b) f = Some (f\<lparr>f_IDReused := b\<rparr>)"
  by (simp add: opt_bool_def set_field_def)

lemma decode_DesiredDenied [frame_simps]:
  "\<not> f_DesiredDenied f \<Longrightarrow> decode_fields (opt_bool ''desiredDenied'' b) f = Some (f\<lparr>f_DesiredDenied := b\<rparr>)"
  by (simp add: opt_bool_def set_field_def)

lemma decode_TS [frame_simps]:
  "f_TS f = 0 \<Longrightarrow> int64 n \<Longrightarrow> decode_fields (opt_int ''ts'' n) f = Some (f\<lparr>f_TS := n\<rparr>)"
  by (simp add: opt_int_def set_field_def int64_def)

lemma decode_Target [frame_simps]:
  "f_Target f = [] \<Longrightarrow> valid_utf8 s \<Longrightarrow> decode_fields (opt_str ''target'' s) f = Some (f\<lparr>f_Target := s\<rparr>)"
  by (simp add: opt_str_def set_field_def)

lemma decode_Forwarded [frame_simps]:
  "f_Forwarded f = 0 \<Longrightarrow> decode_fields (opt_int ''forwarded'' (uint n)) f = Some (f\<lparr>f_Forwarded := n\<rparr>)"
  using uint_bounded [of n]
  by (auto simp: opt_int_def set_field_def uint_0_iff)

lemma decode_ReqID [frame_simps]:
  "f_ReqID f = 0 \<Longrightarrow> decode_fields (opt_int ''reqId'' (uint n)) f = Some (f\<lparr>f_ReqID := n\<rparr>)"
  using uint_bounded [of n]
  by (auto simp: opt_int_def set_field_def uint_0_iff)

lemma decode_Method [frame_simps]:
  "f_Method f = [] \<Longrightarrow> valid_utf8 s \<Longrightarrow> decode_fields (opt_str ''method'' s) f = Some (f\<lparr>f_Method := s\<rparr>)"
  by (simp add: opt_str_def set_field_def)

lemma decode_Path [frame_simps]:
  "f_Path f = [] \<Longrightarrow> valid_utf8 s \<Longrightarrow> decode_fields (opt_str ''path'' s) f = Some (f\<lparr>f_Path := s\<rparr>)"
  by (simp add: opt_str_def set_field_def)

lemma decode_Query [frame_simps]:
  "f_Query f = [] \<Longrightarrow> valid_utf8 s \<Longrightarrow> decode_fields (opt_str ''query'' s) f = Some (f\<lparr>f_Query := s\<rparr>)"
  by (simp add: opt_str_def set_field_def)

lemma decode_Headers [frame_simps]:
  "f_Headers f = [] \<Longrightarrow> valid_headers h \<Longrightarrow>
   decode_fields (opt_headers ''headers'' h) f = Some (f\<lparr>f_Headers := sort_key fst h\<rparr>)"
  by (simp add: opt_headers_def set_field_def dec_enc_headers)

lemma decode_HasBody [frame_simps]:
  "\<not> f_HasBody f \<Longrightarrow> decode_fields (opt_bool ''hasBody'' b) f = Some (f\<lparr>f_HasBody := b\<rparr>)"
  by (simp add: opt_bool_def set_field_def)

lemma decode_Seq [frame_simps]:
  "f_Seq f = 0 \<Longrightarrow> int64 n \<Longrightarrow> decode_fields (opt_int ''seq'' n) f = Some (f\<lparr>f_Seq := n\<rparr>)"
  by (simp add: opt_int_def set_field_def int64_def)

lemma decode_Data [frame_simps]:
  "f_Data f = [] \<Longrightarrow> valid_utf8 s \<Longrightarrow> decode_fields (opt_str ''data'' s) f = Some (f\<lparr>f_Data := s\<rparr>)"
  by (simp add: opt_str_def set_field_def)

lemma decode_Status [frame_simps]:
  "f_Status f = 0 \<Longrightarrow> int64 n \<Longrightarrow> decode_fields (opt_int ''status'' n) f = Some (f\<lparr>f_Status := n\<rparr>)"
  by (simp add: opt_int_def set_field_def int64_def)

lemma decode_Marshal:
  assumes "valid_frame f"
  shows "Unmarshal (Some (Marshal f)) zero_frame = Some (f\<lparr>f_Headers := sort_key fst (f_Headers f)\<rparr>)"
  using assms
  by (simp add: Marshal_def decode_fields_append frame_simps valid_frame_def zero_frame_def
      del: decode_fields.simps(2))

text \<open>C29.  A well-formed frame survives encoding and decoding: every field comes back, the
  headers in the sorted order in which \<open>encoding/json\<close> writes a map.\<close>

theorem Unmarshal_Marshal:
  assumes "valid_frame f"
  shows "Unmarshal (Some (Marshal f)) zero_frame = Some (f\<lparr>f_Headers := sort_key fst (f_Headers f)\<rparr>)"
  using assms by (rule decode_Marshal)

text \<open>Whatever the strings of a frame are, the request ID and the type of what is decoded are those
  that were encoded; keys of other fields do not disturb them.\<close>

lemma set_field_keeps:
  "set_field n v f = Some f' \<Longrightarrow> n \<noteq> ''reqId'' \<Longrightarrow> f_ReqID f' = f_ReqID f"
  "set_field n v f = Some f' \<Longrightarrow> n \<noteq> ''type'' \<Longrightarrow> f_Type f' = f_Type f"
  by (auto simp: set_field_def split: if_splits)

lemma decode_fields_keeps:
  "decode_fields kvs f = Some f' \<Longrightarrow> Some ''reqId'' \<notin> field_name ` fst ` set kvs \<Longrightarrow> f_ReqID f' = f_ReqID f"
  "decode_fields kvs f = Some f' \<Longrightarrow> Some ''type'' \<notin> field_name ` fst ` set kvs \<Longrightarrow> f_Type f' = f_Type f"
  by (induction kvs f rule: decode_fields.induct)
    (auto split: option.splits dest: set_field_keeps)

lemma opt_keys:
  "fst ` set (opt_str k s) \<subseteq> {k}" "fst ` set (opt_int k n) \<subseteq> {k}"
  "fst ` set (opt_bool k b) \<subseteq> {k}" "fst ` set (opt_headers k h) \<subseteq> {k}"
  by (auto simp: opt_str_def opt_int_def opt_bool_def opt_headers_def)

lemma opt_names:
  "field_name k = Some n \<Longrightarrow> field_name ` fst ` set (opt_str k s) \<subseteq> {Some n}"
  "field_name k = Some n \<Longrightarrow> field_name ` fst ` set (opt_int k m) \<subseteq> {Some n}"
  "field_name k = Some n \<Longrightarrow> field_name ` fst ` set (opt_bool k b) \<subseteq> {Some n}"
  "field_name k = Some n \<Longrightarrow> field_name ` fst ` set (opt_headers k h) \<subseteq> {Some n}"
  by (auto simp: opt_str_def opt_int_def opt_bool_def opt_headers_def)

lemma Marshal_ids:
  assumes "Unmarshal (Some (Marshal f)) zero_frame = Some f'"
  shows "f_ReqID f' = f_ReqID f" and "f_Type f' = utf8_coerce (f_Type f)"
proof -
  define B where "B = opt_str ''method'' (f_Method f) @ opt_str ''path'' (f_Path f) @
    opt_str ''query'' (f_Query f) @ opt_headers ''headers'' (f_Headers f) @
    opt_bool ''hasBody'' (f_HasBody f) @ opt_int ''seq'' (f_Seq f) @ opt_str ''data'' (f_Data f) @
    opt_int ''status'' (f_Status f)"
  define A where "A = opt_int ''version'' (f_Version f) @ opt_str ''desiredId'' (f_DesiredId f) @
    opt_str ''secret'' (f_Secret f) @ opt_str ''clientType'' (f_ClientType f) @
    opt_str ''extVersion'' (f_ExtVersion f) @ opt_bool ''ok'' (f_Ok f) @
    opt_str ''tunnelID'' (f_TunnelID f) @ opt_str ''error'' (f_Error f) @
    opt_bool ''idReused'' (f_IDReused f) @ opt_bool ''desiredDenied'' (f_DesiredDenied f) @
    opt_int ''ts'' (f_TS f) @ opt_str ''target'' (f_Target f) @
    opt_int ''forwarded'' (uint (f_Forwarded f))"
  let ?f1 = "zero_frame\<lparr>f_Type := utf8_coerce (f_Type f)\<rparr>"
  have kA: "field_name ` fst ` set A \<subseteq> Some ` (set frame_fields - {''type'', ''reqId''})"
    and kB: "field_name ` fst ` set B \<subseteq> Some ` (set frame_fields - {''type'', ''reqId''})"
    unfolding A_def B_def set_append image_Un frame_fields_def
    by (intro Un_least; rule order_trans, rule opt_names, rule field_names, simp)+
  have m: "Marshal f = JObj ((''type'', JStr (utf8_coerce (f_Type f))) # A @ opt_int ''reqId'' (uint (f_ReqID f)) @ B)"
    by (simp add: Marshal_def A_def B_def)
  obtain g h where g: "decode_fields A ?f1 = Some g"
      "decode_fields (opt_int ''reqId'' (uint (f_ReqID f))) g = Some h" "decode_fields B h = Some f'"
    using assms unfolding m
    by (auto simp: decode_Type decode_fields_append bind_eq_Some_conv simp del: decode_fields.simps(2))
  have "f_ReqID g = 0" "f_Type g = utf8_coerce (f_Type f)"
    using decode_fields_keeps [OF g(1)] kA by (auto simp: zero_frame_def)
  then have "f_ReqID h = f_ReqID f" "f_Type h = utf8_coerce (f_Type f)"
    using g(2) by (auto simp: decode_ReqID)
  then show "f_ReqID f' = f_ReqID f" "f_Type f' = utf8_coerce (f_Type f)"
    using decode_fields_keeps [OF g(3)] kB by auto
qed

definition sample_frame :: frame where
  "sample_frame = zero_frame\<lparr>f_Type := ''response_start'', f_ReqID := 42, f_Status := 200,
     f_Headers := [(''X-Any'', [''v'']), (''Content-Type'', [''text/plain'', ''b''])]\<rparr>"

lemma valid_sample_frame: "valid_frame sample_frame"
  by (simp add: sample_frame_def valid_frame_def zero_frame_def valid_headers_def int64_def
      valid_utf8_ascii)

theorem Unmarshal_Marshal_witness:
  "valid_frame sample_frame \<and>
   Unmarshal (Some (Marshal sample_frame)) zero_frame =
     Some (sample_frame\<lparr>f_Headers := sort_key fst (f_Headers sample_frame)\<rparr>)"
  using valid_sample_frame Unmarshal_Marshal [OF valid_sample_frame] by simp

text \<open>A key that names no field of the frame, in whatever case, changes nothing about what
  is decoded, whatever its value and wherever it stands in the document.\<close>

theorem Unmarshal_unknown_field:
  assumes "field_name k = None"
  shows "Unmarshal (Some (JObj (xs @ (k, v) # ys))) f = Unmarshal (Some (JObj (xs @ ys))) f"
  using assms by (cases "decode_fields xs f") (simp_all add: decode_fields_append)

theorem Unmarshal_unknown_field_witness:
  "field_name ''futureField'' = None \<and>
   Unmarshal (Some (JObj ([(''type'', JStr ''ping'')] @ (''futureField'', JArr []) # [(''ts'', JNum 7)])))
     zero_frame
   = Unmarshal (Some (JObj ([(''type'', JStr ''ping'')] @ [(''ts'', JNum 7)]))) zero_frame"
proof -
  have k: "field_name ''futureField'' = None" by code_simp
  show ?thesis using k Unmarshal_unknown_field [OF k] by blast
qed

end
