(* ===== verification/Registry.thy ===== *)
theory Registry
  imports Frame
begin

text \<open>
  The tunnel registry (\<open>internal/server/registry.go\<close>): tunnels keyed by ID, ownership by the
  hash of a secret, persistence to one JSON file through a temporary file and a rename.

  A \<open>Tunnel\<close> object is reached through the registry's map only, under its own ID, so the model
  keeps the objects in the map and names a \<open>*Tunnel\<close> by its ID.  A session pointer is an
  address (\<open>sid\<close>).  Inputs of the operations that stand for the outside world are explicit
  arguments: the current time \<open>now\<close>, the results of successive \<open>rand.Read\<close> calls (\<open>draws\<close>),
  the order \<open>iter\<close> in which \<open>range\<close> walks the map, and the outcome of each file operation.
  The file holds the decoded list of records, or \<open>Garbage\<close> where \<open>encoding/json\<close> refuses it.
\<close>

section \<open>State\<close>

type_synonym sid = nat

record TunnelRecord =
  r_ID :: string
  r_SecretHash :: string
  r_Target :: string
  r_CreatedAt :: int

record Tunnel =
  t_ID :: string
  t_secretHash :: string
  t_createdAt :: int
  t_session :: "sid option"
  t_target :: string
  t_reqCount :: "64 word"

type_synonym tunnels = "(string, Tunnel) dict"

record Registry =
  rg_tunnels :: tunnels
  rg_file :: string

datatype file_doc = Records "TunnelRecord list" | Garbage

type_synonym disk = "string \<Rightarrow> file_doc option"

text \<open>A failing \<open>os.WriteFile\<close> leaves anything behind at the path it wrote to.\<close>

datatype write_outcome = WriteOk | WriteFail go_error "file_doc option"

record save_io =
  io_write :: write_outcome
  io_rename :: "go_error option"

type_synonym draw = "go_error + byte list"

section \<open>Tunnel operations\<close>

definition newTunnel :: "int \<Rightarrow> string \<Rightarrow> Tunnel" where
  "newTunnel now i =
     \<lparr>t_ID = i, t_secretHash = [], t_createdAt = now, t_session = None, t_target = [],
      t_reqCount = 0\<rparr>"

definition tunnel_SetTarget :: "string \<Rightarrow> Tunnel \<Rightarrow> Tunnel" where
  "tunnel_SetTarget tgt t = t\<lparr>t_target := tgt\<rparr>"

definition Tunnel_Target :: "Tunnel \<Rightarrow> string" where
  "Tunnel_Target t = t_target t"

definition RequestCount :: "Tunnel \<Rightarrow> nat" where
  "RequestCount t = unat (t_reqCount t)"

definition setSecretHash :: "string \<Rightarrow> Tunnel \<Rightarrow> Tunnel" where
  "setSecretHash h t = t\<lparr>t_secretHash := h\<rparr>"

definition hashSecret :: "string \<Rightarrow> string" where
  "hashSecret s = EncodeToString (Sum256 (bytes_of s))"

definition verifySecret :: "Tunnel \<Rightarrow> string \<Rightarrow> bool" where
  "verifySecret t secret =
     (if t_secretHash t = [] then secret = [] else t_secretHash t = hashSecret secret)"

text \<open>\<open>make([]byte, n)\<close> filled by \<open>rand.Read\<close>.\<close>

definition fill_buf :: "nat \<Rightarrow> byte list \<Rightarrow> byte list" where
  "fill_buf n bs = take n (bs @ replicate n 0)"

definition id_alphabet :: string where
  "id_alphabet = ''abcdefghijklmnopqrstuvwxyz0123456789''"

definition generateID :: "draw \<Rightarrow> go_error + string" where
  "generateID d =
     (case d of
        Inl e \<Rightarrow> Inl e
      | Inr bs \<Rightarrow> Inr (map (\<lambda>b. id_alphabet ! (unat b mod length id_alphabet)) (fill_buf 8 bs)))"

definition generateSecret :: "draw \<Rightarrow> go_error + string" where
  "generateSecret d =
     (case d of Inl e \<Rightarrow> Inl e | Inr bs \<Rightarrow> Inr (RawURLEncode (fill_buf 32 bs)))"

section \<open>Registry operations\<close>

definition NewRegistry :: "string \<Rightarrow> Registry" where
  "NewRegistry path = \<lparr>rg_tunnels = [], rg_file = path\<rparr>"

definition Get :: "Registry \<Rightarrow> string \<Rightarrow> Tunnel option" where
  "Get r i = map_of (rg_tunnels r) i"

definition put_tunnel :: "string \<Rightarrow> Tunnel \<Rightarrow> Registry \<Rightarrow> Registry" where
  "put_tunnel i t r = r\<lparr>rg_tunnels := AList.update i t (rg_tunnels r)\<rparr>"

text \<open>Mutation of the tunnel object a pointer leads to.\<close>

definition modify_tunnel :: "string \<Rightarrow> (Tunnel \<Rightarrow> Tunnel) \<Rightarrow> Registry \<Rightarrow> Registry" where
  "modify_tunnel i g r = (case Get r i of None \<Rightarrow> r | Some t \<Rightarrow> put_tunnel i (g t) r)"

definition Count :: "Registry \<Rightarrow> nat" where
  "Count r = length (rg_tunnels r)"

definition List_tunnels :: "(tunnels \<Rightarrow> tunnels) \<Rightarrow> Registry \<Rightarrow> Tunnel list" where
  "List_tunnels iter r = sort_key t_ID (map snd (iter (rg_tunnels r)))"

subsection \<open>Persistence\<close>

definition to_record :: "Tunnel \<Rightarrow> TunnelRecord" where
  "to_record t = \<lparr>r_ID = t_ID t, r_SecretHash = t_secretHash t, r_Target = t_target t,
                  r_CreatedAt = t_createdAt t\<rparr>"

text \<open>\<open>encoding/json\<close> replaces invalid UTF-8 in the strings of a record.\<close>

definition coerce_record :: "TunnelRecord \<Rightarrow> TunnelRecord" where
  "coerce_record rec = rec\<lparr>r_ID := utf8_coerce (r_ID rec),
     r_SecretHash := utf8_coerce (r_SecretHash rec), r_Target := utf8_coerce (r_Target rec)\<rparr>"

definition saveLocked ::
    "(tunnels \<Rightarrow> tunnels) \<Rightarrow> save_io \<Rightarrow> Registry \<Rightarrow> disk \<Rightarrow> go_error option \<times> disk" where
  "saveLocked iter io r dk =
     (let records = map (coerce_record \<circ> to_record \<circ> snd) (iter (rg_tunnels r));
          tmp = rg_file r @ ''.tmp''
      in case io_write io of
           WriteFail e rest \<Rightarrow> (Some e, dk(tmp := rest))
         | WriteOk \<Rightarrow>
             (let dk1 = dk(tmp := Some (Records records))
              in case io_rename io of
                   Some e \<Rightarrow> (Some e, dk1)
                 | None \<Rightarrow> (None, dk1(rg_file r := dk1 tmp, tmp := None))))"

definition Save ::
    "(tunnels \<Rightarrow> tunnels) \<Rightarrow> save_io \<Rightarrow> Registry \<Rightarrow> disk \<Rightarrow> go_error option \<times> disk" where
  "Save iter io r dk = saveLocked iter io r dk"

definition restore :: "int \<Rightarrow> TunnelRecord \<Rightarrow> Tunnel" where
  "restore now rec =
     (tunnel_SetTarget (r_Target rec) (setSecretHash (r_SecretHash rec) (newTunnel now (r_ID rec))))
       \<lparr>t_createdAt := r_CreatedAt rec\<rparr>"

fun load_records :: "int \<Rightarrow> TunnelRecord list \<Rightarrow> Registry \<Rightarrow> Registry" where
  "load_records now [] r = r"
| "load_records now (rec # recs) r =
     (if \<not> idRe (r_ID rec) then load_records now recs r
      else load_records now recs (put_tunnel (r_ID rec) (restore now rec) r))"

text \<open>\<open>read_err\<close> is an error of \<open>os.ReadFile\<close> other than "does not exist".\<close>

definition Load ::
    "int \<Rightarrow> go_error option \<Rightarrow> disk \<Rightarrow> Registry \<Rightarrow> go_error option \<times> Registry" where
  "Load now read_err dk r =
     (case read_err of
        Some e \<Rightarrow> (Some e, r)
      | None \<Rightarrow>
          (case dk (rg_file r) of
             None \<Rightarrow> (None, r)
           | Some Garbage \<Rightarrow> (Some ''invalid JSON'', r)
           | Some (Records recs) \<Rightarrow> (None, load_records now recs r)))"

definition registry_SetTarget ::
    "(tunnels \<Rightarrow> tunnels) \<Rightarrow> save_io \<Rightarrow> string \<Rightarrow> string \<Rightarrow> Registry \<Rightarrow> disk
       \<Rightarrow> bool \<times> Registry \<times> disk" where
  "registry_SetTarget iter io i tgt r dk =
     (case Get r i of
        None \<Rightarrow> (False, r, dk)
      | Some t \<Rightarrow>
          (let r' = put_tunnel i (tunnel_SetTarget tgt t) r
           in (True, r', snd (saveLocked iter io r' dk))))"

subsection \<open>Allocation\<close>

definition normalizeDesired :: "string \<Rightarrow> string" where
  "normalizeDesired desired =
     (let d = ToLower (TrimSpace desired) in if d \<noteq> [] \<and> \<not> idRe d then [] else d)"

text \<open>What the desired ID gives: the tunnel if any, \<open>reused\<close>, \<open>denied\<close>.\<close>

definition claimDesired ::
    "int \<Rightarrow> string \<Rightarrow> string \<Rightarrow> Registry \<Rightarrow> (string option \<times> bool \<times> bool) \<times> Registry" where
  "claimDesired now d secret r =
     (if d = [] then ((None, False, False), r)
      else case Get r d of
             Some existing \<Rightarrow>
               if verifySecret existing secret then ((Some d, True, False), r)
               else ((None, False, True), r)
           | None \<Rightarrow> ((Some d, False, False), put_tunnel d (newTunnel now d) r))"

text \<open>The allocation loop; \<open>None\<close> when the draws run out before it has ended.\<close>

fun allocRandom ::
    "int \<Rightarrow> draw list \<Rightarrow> Registry \<Rightarrow> ((go_error + string) \<times> Registry \<times> draw list) option" where
  "allocRandom now [] r = None"
| "allocRandom now (d # ds) r =
     (case generateID d of
        Inl e \<Rightarrow> Some (Inl e, r, ds)
      | Inr i \<Rightarrow>
          if Get r i = None then Some (Inr i, put_tunnel i (newTunnel now i) r, ds)
          else allocRandom now ds r)"

type_synonym reg_result = "go_error + string \<times> bool \<times> bool \<times> string"

fun issueSecret ::
    "(tunnels \<Rightarrow> tunnels) \<Rightarrow> save_io \<Rightarrow> string \<Rightarrow> bool \<Rightarrow> draw list \<Rightarrow> Registry \<Rightarrow> disk
       \<Rightarrow> (reg_result \<times> Registry \<times> disk) option" where
  "issueSecret iter io i denied [] r dk = None"
| "issueSecret iter io i denied (d # ds) r dk =
     (case generateSecret d of
        Inl e \<Rightarrow> Some (Inl e, r, dk)
      | Inr s \<Rightarrow>
          (let r' = modify_tunnel i (setSecretHash (hashSecret s)) r
           in case saveLocked iter io r' dk of
                (Some e, dk') \<Rightarrow> Some (Inl e, r', dk')
              | (None, dk') \<Rightarrow> Some (Inr (i, False, denied, s), r', dk')))"

definition Register ::
    "(tunnels \<Rightarrow> tunnels) \<Rightarrow> save_io \<Rightarrow> int \<Rightarrow> draw list \<Rightarrow> string \<Rightarrow> string \<Rightarrow> Registry \<Rightarrow> disk
       \<Rightarrow> (reg_result \<times> Registry \<times> disk) option" where
  "Register iter io now draws desired secret r dk =
     (case claimDesired now (normalizeDesired desired) secret r of
        ((Some i, True, denied), r1) \<Rightarrow> Some (Inr (i, True, denied, []), r1, dk)
      | ((Some i, False, denied), r1) \<Rightarrow> issueSecret iter io i denied draws r1 dk
      | ((None, _, denied), r1) \<Rightarrow>
          (case allocRandom now draws r1 of
             None \<Rightarrow> None
           | Some (Inl e, r2, ds) \<Rightarrow> Some (Inl e, r2, dk)
           | Some (Inr i, r2, ds) \<Rightarrow> issueSecret iter io i denied ds r2 dk))"

section \<open>Well-formedness and the store contract\<close>

definition tunnel_ok :: "string \<Rightarrow> Tunnel \<Rightarrow> bool" where
  "tunnel_ok i t \<longleftrightarrow> idRe i \<and> t_ID t = i"

definition registry_ok :: "Registry \<Rightarrow> bool" where
  "registry_ok r \<longleftrightarrow> wf_dict (rg_tunnels r) \<and> list_all (\<lambda>(i, t). tunnel_ok i t) (rg_tunnels r)"

lemma registry_ok_iff:
  "registry_ok r \<longleftrightarrow> wf_dict (rg_tunnels r) \<and> (\<forall>i t. Get r i = Some t \<longrightarrow> tunnel_ok i t)"
  unfolding registry_ok_def Get_def list_all_iff
  by (auto dest: map_of_SomeD intro: map_of_is_SomeI)

interpretation reg: store Get put_tunnel registry_ok tunnel_ok
proof unfold_locales
  fix r :: Registry and i t
  assume "registry_ok r" "tunnel_ok i t"
  then show "registry_ok (put_tunnel i t r)"
    by (simp add: registry_ok_iff put_tunnel_def Get_def map_of_update_cases)
qed (auto simp: Get_def put_tunnel_def registry_ok_iff map_of_update_cases)

declare reg.get_put [reg_simps]

lemma rg_file_put [reg_simps]: "rg_file (put_tunnel i t r) = rg_file r"
  by (simp add: put_tunnel_def)

lemma Get_modify [reg_simps]:
  "Get (modify_tunnel i g r) j = (if j = i then map_option g (Get r i) else Get r j)"
  by (simp add: modify_tunnel_def reg.get_put split: option.split)

lemma rg_file_modify [reg_simps]: "rg_file (modify_tunnel i g r) = rg_file r"
  by (simp add: modify_tunnel_def reg_simps split: option.split)

lemma registry_ok_modify:
  assumes "registry_ok r" and "\<And>t. t_ID (g t) = t_ID t"
  shows "registry_ok (modify_tunnel i g r)"
proof (cases "Get r i")
  case None
  with assms show ?thesis by (simp add: modify_tunnel_def)
next
  case (Some t)
  with assms reg.inv_modify [of r i t g] show ?thesis
    by (simp add: modify_tunnel_def tunnel_ok_def)
qed

lemma NewRegistry_ok [simp]: "registry_ok (NewRegistry path)"
  by (simp add: registry_ok_def NewRegistry_def)

lemma tunnel_ok_new [simp]: "tunnel_ok i (newTunnel now i) \<longleftrightarrow> idRe i"
  by (auto simp: tunnel_ok_def newTunnel_def)

lemma setSecretHash_simps [simp]:
  "t_ID (setSecretHash h t) = t_ID t" "t_secretHash (setSecretHash h t) = h"
  "t_target (setSecretHash h t) = t_target t" "t_session (setSecretHash h t) = t_session t"
  by (simp_all add: setSecretHash_def)

lemma tunnel_SetTarget_simps [simp]:
  "t_ID (tunnel_SetTarget x t) = t_ID t" "t_target (tunnel_SetTarget x t) = x"
  "t_secretHash (tunnel_SetTarget x t) = t_secretHash t"
  "t_session (tunnel_SetTarget x t) = t_session t"
  by (simp_all add: tunnel_SetTarget_def)

lemma newTunnel_simps [simp]:
  "t_ID (newTunnel now i) = i" "t_secretHash (newTunnel now i) = []"
  "t_session (newTunnel now i) = None" "t_target (newTunnel now i) = []"
  "t_reqCount (newTunnel now i) = 0"
  by (simp_all add: newTunnel_def)

section \<open>IDs and secrets\<close>

lemma id_alphabet_chars: "list_all id_char id_alphabet"
  by (simp add: id_alphabet_def id_char_def)

lemma length_fill_buf [simp]: "length (fill_buf n bs) = n"
  by (simp add: fill_buf_def)

lemma generateID_idRe:
  assumes "generateID d = Inr i"
  shows "idRe i"
proof -
  obtain bs where i: "i = map (\<lambda>b. id_alphabet ! (unat b mod length id_alphabet)) (fill_buf 8 bs)"
    using assms by (auto simp: generateID_def split: sum.splits)
  have "id_char (id_alphabet ! (n mod length id_alphabet))" for n
    using id_alphabet_chars by (simp add: list_all_length id_alphabet_def)
  then show ?thesis unfolding i idRe_def by (simp add: list_all_iff)
qed

text \<open>Every ID the generator makes, from whatever bytes the random source delivers, has the
  canonical form: eight characters from a to z and 0 to 9.\<close>

theorem generateID_canonical:
  assumes "generateID d = Inr i"
  shows "idRe i"
  using assms by (rule generateID_idRe)

theorem generateID_canonical_witness:
  "generateID (Inr [0, 35, 36, 255]) = Inr ''a9adaaaa'' \<and> idRe ''a9adaaaa''"
proof -
  have e: "generateID (Inr [0, 35, 36, 255]) = Inr ''a9adaaaa''"
    by code_simp
  show ?thesis using e generateID_canonical [OF e] by simp
qed

lemma hashSecret_length: "length (hashSecret s) = 44"
  by (simp add: hashSecret_def length_EncodeToString)

lemma hashSecret_nonempty [simp]: "hashSecret s \<noteq> []"
  using hashSecret_length [of s] by auto

lemma generateSecret_nonempty: "generateSecret d = Inr s \<Longrightarrow> s \<noteq> []"
  by (auto simp: generateSecret_def split: sum.splits)
    (metis RawURLEncode_nonempty length_fill_buf list.size(3) zero_neq_numeral)

lemma verifySecret_hashed [simp]:
  "t_secretHash t = hashSecret s \<Longrightarrow> verifySecret t s' \<longleftrightarrow> hashSecret s' = hashSecret s"
  by (auto simp: verifySecret_def)

lemma id_char_not_space: "id_char c \<Longrightarrow> c \<notin> hd ` set go_spaces \<and> c \<notin> last ` set go_spaces"
  by (auto simp: go_spaces_def id_char_def)

lemma id_char_lower: "id_char c \<Longrightarrow> ascii_lower c = c \<and> c < CHR 0x80"
  by (cases c) (auto simp: id_char_def ascii_lower_def)

lemma idRe_printable: "idRe i \<Longrightarrow> printable_ends i"
proof -
  assume i: "idRe i"
  then have ne: "i \<noteq> []" by (rule idRe_nonempty)
  with i have h: "id_char (hd i)" and l: "id_char (last i)"
    unfolding idRe_def list_all_iff by simp_all
  show ?thesis
    unfolding printable_ends_def using ne id_char_not_space [OF h] id_char_not_space [OF l] by simp
qed

lemma idRe_ToLower: "idRe i \<Longrightarrow> ToLower i = i"
proof -
  assume "idRe i"
  then have "\<forall>c \<in> set i. ascii_lower c = c \<and> c < CHR 0x80"
    by (auto simp: idRe_def list_all_iff dest: id_char_lower)
  moreover from this have "is_ascii i" by (simp add: is_ascii_def list_all_iff)
  ultimately show ?thesis by (simp add: ToLower_ascii map_idI)
qed

lemma idRe_ascii: "idRe i \<Longrightarrow> is_ascii i"
  by (auto simp: idRe_def is_ascii_def list_all_iff dest: id_char_lower)

lemma normalizeDesired_id [simp]: "idRe i \<Longrightarrow> normalizeDesired i = i"
  by (simp add: normalizeDesired_def TrimSpace_printable_ends idRe_printable idRe_ToLower)

lemma normalizeDesired_cases: "normalizeDesired d = [] \<or> idRe (normalizeDesired d)"
  by (simp add: normalizeDesired_def Let_def)

section \<open>Registration\<close>

text \<open>What a completed registration did: reuse, or a fresh tunnel at a free ID, given a secret.\<close>

lemma issueSecret_cases:
  assumes "issueSecret iter io i dn ds r dk = Some (res, r', dk')"
  obtains (rand) e where "res = Inl e" "r' = r"
  | (save) d s e where "generateSecret d = Inr s" "res = Inl e"
      "r' = modify_tunnel i (setSecretHash (hashSecret s)) r" "saveLocked iter io r' dk = (Some e, dk')"
  | (ok) d s where "generateSecret d = Inr s" "res = Inr (i, False, dn, s)"
      "r' = modify_tunnel i (setSecretHash (hashSecret s)) r" "saveLocked iter io r' dk = (None, dk')"
  using assms
  by (cases "(iter, io, i, dn, ds, r, dk)" rule: issueSecret.cases)
    (auto simp: Let_def split: sum.splits prod.splits option.splits)

lemma issueSecret_frame:
  "issueSecret iter io i dn ds r dk = Some (res, r', dk') \<Longrightarrow> j \<noteq> i \<Longrightarrow> Get r' j = Get r j"
  by (erule issueSecret_cases) (simp_all add: reg_simps)

lemma issueSecret_ok:
  "issueSecret iter io i dn ds r dk = Some (res, r', dk') \<Longrightarrow> registry_ok r \<Longrightarrow> registry_ok r'"
  by (erule issueSecret_cases) (auto intro: registry_ok_modify)

lemma allocRandom_Inr:
  assumes "allocRandom now ds r = Some (Inr i, r', ds')"
  shows "Get r i = None \<and> idRe i \<and> r' = put_tunnel i (newTunnel now i) r"
  using assms
  by (induction now ds r rule: allocRandom.induct)
    (auto split: sum.splits if_splits simp: generateID_idRe)

lemma allocRandom_Inl: "allocRandom now ds r = Some (Inl e, r', ds') \<Longrightarrow> r' = r"
  by (induction now ds r rule: allocRandom.induct) (auto split: sum.splits if_splits)

lemma Register_cases:
  assumes "Register iter io now draws desired secret r dk = Some (res, r', dk')"
  obtains
    (reuse) t where "normalizeDesired desired \<noteq> []" "Get r (normalizeDesired desired) = Some t"
      "verifySecret t secret" "res = Inr (normalizeDesired desired, True, False, [])"
      "r' = r" "dk' = dk"
  | (custom) ds where "idRe (normalizeDesired desired)" "Get r (normalizeDesired desired) = None"
      "issueSecret iter io (normalizeDesired desired) False ds
         (put_tunnel (normalizeDesired desired) (newTunnel now (normalizeDesired desired)) r) dk
       = Some (res, r', dk')"
  | (random) i dn ds where "Get r i = None" "idRe i"
      "dn \<longleftrightarrow> (\<exists>t. normalizeDesired desired \<noteq> []
                  \<and> Get r (normalizeDesired desired) = Some t \<and> \<not> verifySecret t secret)"
      "normalizeDesired desired = [] \<or> dn"
      "issueSecret iter io i dn ds (put_tunnel i (newTunnel now i) r) dk = Some (res, r', dk')"
  | (norand) e where "res = Inl e" "r' = r" "dk' = dk"
proof -
  let ?d = "normalizeDesired desired"
  note u = assms [unfolded Register_def claimDesired_def]
  note cs = normalizeDesired_cases [of desired]
  show thesis
  proof (cases "?d \<noteq> [] \<and> Get r ?d = None")
    case True
    show thesis by (rule custom [of draws]) (use True u cs in simp_all)
  next
    case notfree: False
    show thesis
    proof (cases "\<exists>t. ?d \<noteq> [] \<and> Get r ?d = Some t \<and> verifySecret t secret")
      case True
      then obtain t where t: "?d \<noteq> []" "Get r ?d = Some t" "verifySecret t secret" by blast
      show thesis by (rule reuse [OF t]) (use t u in simp_all)
    next
      case notmine: False
      define dn where "dn = (\<exists>t. ?d \<noteq> [] \<and> Get r ?d = Some t \<and> \<not> verifySecret t secret)"
      have dn: "?d = [] \<or> dn" using notfree notmine by (auto simp: dn_def)
      have "claimDesired now ?d secret r = ((None, False, dn), r)"
        using notfree notmine by (cases "?d = []") (auto simp: claimDesired_def dn_def)
      with assms have "(case allocRandom now draws r of None \<Rightarrow> None
           | Some (Inl e, r2, ds) \<Rightarrow> Some (Inl e, r2, dk)
           | Some (Inr i, r2, ds) \<Rightarrow> issueSecret iter io i dn ds r2 dk) = Some (res, r', dk')"
        by (simp add: Register_def)
      then consider e ds where "allocRandom now draws r = Some (Inl e, r', ds)" "res = Inl e" "dk' = dk"
        | i r2 ds where "allocRandom now draws r = Some (Inr i, r2, ds)"
            "issueSecret iter io i dn ds r2 dk = Some (res, r', dk')"
        by (auto split: option.splits prod.splits sum.splits)
      then show thesis
      proof cases
        case 1
        show thesis by (rule norand [OF 1(2) allocRandom_Inl [OF 1(1)] 1(3)])
      next
        case 2
        have a: "Get r i = None" "idRe i" "r2 = put_tunnel i (newTunnel now i) r"
          using allocRandom_Inr [OF 2(1)] by simp_all
        show thesis
          by (rule random [OF a(1,2) dn_def dn]) (use 2(2) a(3) in simp)
      qed
    qed
  qed
qed

lemma Register_frame:
  assumes "Register iter io now draws desired secret r dk = Some (res, r', dk')"
    and "Get r j = Some t"
  shows "Get r' j = Some t"
  using assms(1)
proof (cases rule: Register_cases)
  case (custom ds)
  with assms(2) have "j \<noteq> normalizeDesired desired" by auto
  with issueSecret_frame [OF custom(3)] assms(2) show ?thesis by (simp add: reg_simps)
next
  case (random i dn ds)
  with assms(2) have "j \<noteq> i" by auto
  with issueSecret_frame [OF random(5)] assms(2) show ?thesis by (simp add: reg_simps)
qed (use assms(2) in auto)

text \<open>C4.  Registering keeps every tunnel that was registered before exactly as it was: its
  secret hash, target, session and counter.  No hello can disturb another owner's tunnel.\<close>

theorem Register_keeps_tunnels:
  assumes "Register iter io now draws desired secret r dk = Some (res, r', dk')"
    and "Get r j = Some t"
  shows "Get r' j = Some t"
  using assms by (rule Register_frame)

lemma Register_wf:
  assumes "registry_ok r" and "Register iter io now draws desired secret r dk = Some (res, r', dk')"
  shows "registry_ok r'"
  using assms(2)
proof (cases rule: Register_cases)
  case (custom ds)
  then show ?thesis
    using issueSecret_ok [OF custom(3)] reg.inv_put [OF assms(1)] by simp
next
  case (random i dn ds)
  then show ?thesis
    using issueSecret_ok [OF random(5)] reg.inv_put [OF assms(1)] by simp
qed (use assms(1) in auto)

text \<open>C30.  Registering keeps the registry well-formed: one entry per ID, every key a canonical
  ID and the ID of its tunnel, on every outcome, errors included.\<close>

theorem Register_registry_ok:
  assumes "registry_ok r" and "Register iter io now draws desired secret r dk = Some (res, r', dk')"
  shows "registry_ok r'"
  using assms by (rule Register_wf)

text \<open>C14.  A claimed ID is never handed to somebody whose secret does not match: such a hello
  ends with an error or is downgraded to another, canonical and previously free ID with
  \<open>denied\<close> set, and the claimed tunnel stays as it was.\<close>

theorem Register_wrong_secret:
  assumes "Register iter io now draws desired secret r dk = Some (res, r', dk')"
    and "normalizeDesired desired \<noteq> []"
    and "Get r (normalizeDesired desired) = Some t" and "\<not> verifySecret t secret"
  shows "Get r' (normalizeDesired desired) = Some t \<and>
    (\<forall>i reused denied s. res = Inr (i, reused, denied, s) \<longrightarrow>
       i \<noteq> normalizeDesired desired \<and> idRe i \<and> Get r i = None \<and> denied \<and> \<not> reused \<and> s \<noteq> [])"
  using assms(1)
proof (cases rule: Register_cases)
  case (random i dn ds)
  have "i \<noteq> normalizeDesired desired" using random(1) assms(3) by auto
  then have keep: "Get r' (normalizeDesired desired) = Some t"
    using issueSecret_frame [OF random(5)] assms(3) by (simp add: reg_simps)
  have "dn" using random(4) assms(2) by simp
  have "\<forall>j reused denied s. res = Inr (j, reused, denied, s) \<longrightarrow>
      j = i \<and> \<not> reused \<and> denied = dn \<and> s \<noteq> []"
    using random(5) by (cases rule: issueSecret_cases) (auto dest: generateSecret_nonempty)
  with keep random(1,2) \<open>i \<noteq> _\<close> \<open>dn\<close> show ?thesis by blast
qed (use assms in auto)

text \<open>The allocation loop ends with the first drawn ID that is free: draws whose IDs are taken
  are skipped, and a draw that gives a free ID is enough for it to return.\<close>

theorem allocRandom_first_free:
  assumes "list_all (\<lambda>x. \<exists>j. generateID x = Inr j \<and> Get r j \<noteq> None) pre"
    and "generateID d = Inr i" and "Get r i = None"
  shows "allocRandom now (pre @ d # ds) r = Some (Inr i, put_tunnel i (newTunnel now i) r, ds)"
  using assms(1)
proof (induction pre)
  case Nil
  with assms(2,3) show ?case by simp
next
  case (Cons x pre)
  then obtain j t where "generateID x = Inr j" "Get r j = Some t" by auto
  with Cons show ?case by simp
qed

section \<open>Histories\<close>

text \<open>The operations a running server performs on its registry.\<close>

datatype reg_op =
    OpRegister save_io int "draw list" string string
  | OpSetTarget save_io string string
  | OpReport save_io string string
  | OpSession string "sid option"
  | OpCount string

fun reg_step :: "(tunnels \<Rightarrow> tunnels) \<Rightarrow> reg_op \<Rightarrow> Registry \<times> disk \<Rightarrow> (Registry \<times> disk) option" where
  "reg_step iter (OpRegister io now draws d s) (r, dk) =
     map_option snd (Register iter io now draws d s r dk)"
| "reg_step iter (OpSetTarget io i tgt) (r, dk) = Some (snd (registry_SetTarget iter io i tgt r dk))"
| "reg_step iter (OpReport io i tgt) (r, dk) =
     (let r' = modify_tunnel i (tunnel_SetTarget tgt) r in Some (r', snd (saveLocked iter io r' dk)))"
| "reg_step iter (OpSession i s) (r, dk) = Some (modify_tunnel i (\<lambda>t. t\<lparr>t_session := s\<rparr>) r, dk)"
| "reg_step iter (OpCount i) (r, dk) =
     Some (modify_tunnel i (\<lambda>t. t\<lparr>t_reqCount := t_reqCount t + 1\<rparr>) r, dk)"

definition owned :: "string \<Rightarrow> string \<Rightarrow> Registry \<times> disk \<Rightarrow> bool" where
  "owned i s st \<longleftrightarrow> (\<exists>t. Get (fst st) i = Some t \<and> t_secretHash t = hashSecret s)"

lemma owned_modify:
  "owned i s (r, dk) \<Longrightarrow> (\<And>t. t_secretHash (g t) = t_secretHash t) \<Longrightarrow>
   owned i s (modify_tunnel j g r, dk')"
  by (auto simp: owned_def reg_simps)

lemma registry_SetTarget_modify:
  "fst (snd (registry_SetTarget iter io i tgt r dk)) = modify_tunnel i (tunnel_SetTarget tgt) r"
  by (simp add: registry_SetTarget_def modify_tunnel_def Let_def split: option.split)

lemma reg_step_owned:
  assumes "owned i s st" and "reg_step iter q st = Some st'"
  shows "owned i s st'"
proof (cases "(iter, q, st)" rule: reg_step.cases)
  case (1 _ io now draws d s' r dk)
  then obtain res r' dk' where "Register iter io now draws d s' r dk = Some (res, r', dk')"
    and "st' = (r', dk')" using assms(2) by (auto simp: map_option_case split: option.splits)
  with assms(1) 1 show ?thesis by (auto simp: owned_def dest: Register_frame)
next
  case (2 _ io j tgt r dk)
  with assms registry_SetTarget_modify [of iter io j tgt r dk] show ?thesis
    by (metis owned_modify tunnel_SetTarget_simps(3) option.inject prod.collapse reg_step.simps(2)
        prod.inject)
next
  case (3 _ io j tgt r dk)
  with assms show ?thesis by (auto simp: Let_def intro: owned_modify)
next
  case (4 _ j so r dk)
  with assms show ?thesis by (auto intro: owned_modify)
next
  case (5 _ j r dk)
  with assms show ?thesis by (auto intro: owned_modify)
qed

interpretation own: stable "reg_step iter" "owned i s" for iter i s
  by unfold_locales (rule reg_step_owned)

lemma reg_step_ok:
  assumes "registry_ok (fst st)" and "reg_step iter q st = Some st'"
  shows "registry_ok (fst st')"
proof (cases "(iter, q, st)" rule: reg_step.cases)
  case (1 _ io now draws d s' r dk)
  with assms show ?thesis by (auto simp: map_option_case split: option.splits intro: Register_wf)
next
  case (2 _ io j tgt r dk)
  with assms registry_SetTarget_modify [of iter io j tgt r dk] show ?thesis
    by (auto intro: registry_ok_modify)
qed (use assms in \<open>auto simp: Let_def registry_ok_modify\<close>)

interpretation regwf: stable "reg_step iter" "\<lambda>st. registry_ok (fst st)" for iter
  by unfold_locales (rule reg_step_ok)

lemma Register_fresh_owned:
  assumes "Register iter io now draws desired secret r dk = Some (Inr (i, False, dn, s), r1, dk1)"
  shows "idRe i \<and> owned i s (r1, dk1)"
  using assms
proof (cases rule: Register_cases)
  case (custom ds)
  from custom(3) show ?thesis
    by (cases rule: issueSecret_cases) (use custom(1) in \<open>auto simp: reg_simps owned_def\<close>)
next
  case (random j dn' ds)
  from random(5) show ?thesis
    by (cases rule: issueSecret_cases) (use random(2) in \<open>auto simp: reg_simps owned_def\<close>)
qed auto

lemma Register_owned:
  "idRe i \<Longrightarrow> owned i s (r, dk0) \<Longrightarrow>
   Register iter io now draws i s r dk = Some (Inr (i, True, False, []), r, dk)"
  by (auto simp: Register_def claimDesired_def owned_def dest: idRe_nonempty)

text \<open>C15.  The ID is the owner's for good: after any sequence of later registrations by others,
  target changes, stats reports, session changes and relayed requests, file errors included, the
  ID and the secret delivered once still get the tunnel back.\<close>

theorem Register_reclaim_later:
  assumes "Register iter io now draws desired secret r dk = Some (Inr (i, False, dn, s), r1, dk1)"
    and "run_opt (reg_step iter) ops (r1, dk1) = Some (r2, dk2)"
  shows "Register iter' io' now' draws' i s r2 dk3 = Some (Inr (i, True, False, []), r2, dk3)"
proof -
  have "idRe i" and "owned i s (r1, dk1)" using Register_fresh_owned [OF assms(1)] by simp_all
  with own.run_keeps [OF _ assms(2)] show ?thesis by (blast intro: Register_owned)
qed

section \<open>The file\<close>

text \<open>\<open>iter\<close> is an order in which \<open>range\<close> may walk this registry's map.\<close>

definition ranges :: "(tunnels \<Rightarrow> tunnels) \<Rightarrow> Registry \<Rightarrow> bool" where
  "ranges iter r \<longleftrightarrow> mset (iter (rg_tunnels r)) = mset (rg_tunnels r)"

definition storable :: "Tunnel \<Rightarrow> bool" where
  "storable t \<longleftrightarrow> valid_utf8 (t_secretHash t) \<and> valid_utf8 (t_target t)"

definition records_of :: "(tunnels \<Rightarrow> tunnels) \<Rightarrow> Registry \<Rightarrow> TunnelRecord list" where
  "records_of iter r = map (coerce_record \<circ> to_record \<circ> snd) (iter (rg_tunnels r))"

lemma tmp_not_file [simp]: "f @ ''.tmp'' \<noteq> f" "f \<noteq> f @ ''.tmp''"
  by simp_all

lemma saveLocked_main:
  "snd (saveLocked iter io r dk) (rg_file r) =
     (if fst (saveLocked iter io r dk) = None then Some (Records (records_of iter r)) else dk (rg_file r))"
  by (simp add: saveLocked_def records_of_def Let_def split: write_outcome.split option.split)

lemma saveLocked_disk:
  "snd (saveLocked iter io r dk) (rg_file r) =
     (if io_write io = WriteOk \<and> io_rename io = None
      then Some (Records (map (coerce_record \<circ> to_record \<circ> snd) (iter (rg_tunnels r))))
      else dk (rg_file r)) \<and>
   (fst (saveLocked iter io r dk) = None) = (io_write io = WriteOk \<and> io_rename io = None)"
  by (simp add: saveLocked_def Let_def split: write_outcome.split option.split)

interpretation regfile: atomic_save "saveLocked iter" "\<lambda>r dk. dk (rg_file r)"
  "\<lambda>r. Records (map (coerce_record \<circ> to_record \<circ> snd) (iter (rg_tunnels r)))"
  "\<lambda>io. io_write io = WriteOk \<and> io_rename io = None" for iter
  by unfold_locales (use saveLocked_disk in auto)

text \<open>C18.  Saving is atomic: whatever fails, and whatever a failed write leaves behind, the
  registry file afterwards is the complete new one exactly when no error is returned, and the
  untouched old one otherwise.\<close>

theorem saveLocked_atomic:
  "snd (saveLocked iter io r dk) (rg_file r) =
     (if io_write io = WriteOk \<and> io_rename io = None
      then Some (Records (map (coerce_record \<circ> to_record \<circ> snd) (iter (rg_tunnels r))))
      else dk (rg_file r)) \<and>
   (fst (saveLocked iter io r dk) = None) = (io_write io = WriteOk \<and> io_rename io = None)"
  by (rule saveLocked_disk)

lemma restore_saved:
  "tunnel_ok i t \<Longrightarrow> restore now (coerce_record (to_record t)) =
     t\<lparr>t_secretHash := utf8_coerce (t_secretHash t), t_target := utf8_coerce (t_target t),
       t_session := None, t_reqCount := 0\<rparr>"
  by (cases t) (simp add: restore_def coerce_record_def to_record_def newTunnel_def setSecretHash_def
      tunnel_SetTarget_def tunnel_ok_def idRe_ascii valid_utf8_ascii)

lemma Get_load_records:
  "Get (load_records now recs r) i =
     (case map_of (rev (map (\<lambda>rec. (r_ID rec, restore now rec)) (filter (idRe \<circ> r_ID) recs))) i of
        None \<Rightarrow> Get r i | Some t \<Rightarrow> Some t)"
  by (induction now recs r rule: load_records.induct)
    (auto simp: reg_simps map_add_Some_iff split: option.splits)

lemma load_records_ok: "registry_ok r \<Longrightarrow> registry_ok (load_records now recs r)"
proof (induction now recs r rule: load_records.induct)
  case (2 now rec recs r)
  have "tunnel_ok (r_ID rec) (restore now rec)" if "idRe (r_ID rec)"
    using that by (simp add: tunnel_ok_def restore_def)
  with 2 show ?case by (auto intro: reg.inv_put)
qed simp

lemma Count_card:
  assumes "registry_ok r"
  shows "Count r = card (dom (Get r))"
proof -
  have "dom (Get r) = set (map fst (rg_tunnels r))"
    by (simp add: Get_def [abs_def] dom_map_of_conv_image_fst)
  with assms show ?thesis
    by (simp add: registry_ok_def Count_def distinct_card del: set_map)
qed

lemma ranges_facts:
  assumes "registry_ok r" and "ranges iter r"
  shows "wf_dict (iter (rg_tunnels r))" "map_of (iter (rg_tunnels r)) = Get r"
    "set (iter (rg_tunnels r)) = set (rg_tunnels r)"
proof -
  have m: "mset (iter (rg_tunnels r)) = mset (rg_tunnels r)" and wf: "wf_dict (rg_tunnels r)"
    using assms by (simp_all add: ranges_def registry_ok_def)
  show "wf_dict (iter (rg_tunnels r))" by (rule wf_dict_mset [OF m wf])
  show "map_of (iter (rg_tunnels r)) = Get r"
    using map_of_mset_eq [OF m wf] by (simp add: Get_def [abs_def])
  show "set (iter (rg_tunnels r)) = set (rg_tunnels r)" by (rule mset_eq_setD [OF m])
qed

text \<open>C17.  Persistence: what a successful save writes, a restarted server loads back: the same
  tunnels with the same owner, target and creation time, all offline with a zero counter.\<close>

theorem Save_Load:
  assumes "registry_ok r" and "ranges iter r"
    and "saveLocked iter io r dk = (None, dk')"
    and "list_all (storable \<circ> snd) (rg_tunnels r)"
  shows "\<exists>r'. Load now None dk' (NewRegistry (rg_file r)) = (None, r') \<and> registry_ok r' \<and>
           Count r' = Count r \<and>
           Get r' = (\<lambda>i. map_option (\<lambda>t. t\<lparr>t_session := None, t_reqCount := 0\<rparr>) (Get r i))"
proof -
  let ?d = "iter (rg_tunnels r)"
  let ?off = "\<lambda>t. t\<lparr>t_session := None, t_reqCount := 0\<rparr>"
  let ?recs = "records_of iter r"
  define r' where "r' = load_records now ?recs (NewRegistry (rg_file r))"
  note wf = ranges_facts(1) [OF assms(1,2)] and lookup = ranges_facts(2) [OF assms(1,2)]
    and elems = ranges_facts(3) [OF assms(1,2)]
  have ok: "tunnel_ok i t \<and> storable t" if "(i, t) \<in> set ?d" for i t
    using that assms(1,4) elems by (auto simp: registry_ok_def list_all_iff)
  have saved: "r_ID (coerce_record (to_record t)) = i \<and>
      restore now (coerce_record (to_record t)) = ?off t \<and> idRe i"
    if "(i, t) \<in> set ?d" for i t
    using ok [OF that] restore_saved [of i t now]
    by (simp add: storable_def tunnel_ok_def coerce_record_def to_record_def idRe_ascii valid_utf8_ascii)
  have L: "map (\<lambda>rec. (r_ID rec, restore now rec)) (filter (idRe \<circ> r_ID) ?recs)
             = map (\<lambda>(i, t). (i, ?off t)) ?d"
  proof -
    have "filter (idRe \<circ> r_ID) ?recs = ?recs"
      using saved by (intro filter_True) (auto simp: records_of_def)
    with saved show ?thesis by (auto simp: records_of_def)
  qed
  have "Get r' i = map_option ?off (Get r i)" for i
  proof -
    have "map_of (rev (map (\<lambda>(i, t). (i, ?off t)) ?d)) = map_of (map (\<lambda>(i, t). (i, ?off t)) ?d)"
      by (rule map_of_mset_eq) (use wf in \<open>simp_all add: o_def split_def\<close>)
    moreover have "Get (NewRegistry (rg_file r)) i = None" by (simp add: Get_def NewRegistry_def)
    ultimately show ?thesis
      by (simp add: r'_def Get_load_records L map_of_map lookup split: option.split)
  qed
  then have get: "Get r' = (\<lambda>i. map_option ?off (Get r i))" by blast
  have ok': "registry_ok r'" by (simp add: r'_def load_records_ok)
  moreover have "Count r' = Count r"
    using get by (simp add: Count_card ok' assms(1) dom_def)
  moreover have "Load now None dk' (NewRegistry (rg_file r)) = (None, r')"
    using saveLocked_main [of iter io r dk] assms(3) by (simp add: Load_def NewRegistry_def r'_def)
  ultimately show ?thesis using get by blast
qed

text \<open>The session table's listing: all registered tunnels, each once, in increasing order
  of their IDs, whatever order the map was walked in.\<close>

theorem List_tunnels_sorted:
  assumes "registry_ok r" and "ranges iter r"
  shows "sorted (map t_ID (List_tunnels iter r)) \<and> distinct (map t_ID (List_tunnels iter r)) \<and>
    length (List_tunnels iter r) = Count r \<and>
    (\<lambda>t. t \<in> set (List_tunnels iter r)) = (\<lambda>t. Get r (t_ID t) = Some t)"
proof -
  let ?d = "iter (rg_tunnels r)"
  note facts = ranges_facts [OF assms]
  have ids: "map t_ID (map snd ?d) = map fst ?d"
    using facts(3) assms(1) by (auto simp: registry_ok_def list_all_iff tunnel_ok_def)
  have "mset (map t_ID (List_tunnels iter r)) = mset (map t_ID (map snd ?d))"
    by (simp only: List_tunnels_def mset_map mset_sort)
  then have "distinct (map t_ID (List_tunnels iter r))"
    using facts(1) ids mset_eq_imp_distinct_iff by metis
  moreover have "length (List_tunnels iter r) = Count r"
    using mset_eq_length [OF assms(2) [unfolded ranges_def]] by (simp add: List_tunnels_def Count_def)
  moreover have "t \<in> set (List_tunnels iter r) \<longleftrightarrow> Get r (t_ID t) = Some t" for t
  proof
    assume "t \<in> set (List_tunnels iter r)"
    then obtain i where it: "(i, t) \<in> set ?d" by (auto simp: List_tunnels_def)
    then have "Get r i = Some t" using facts(1,2) map_of_is_SomeI by metis
    moreover from this have "t_ID t = i" using reg.inv_get [OF assms(1)] by (simp add: tunnel_ok_def)
    ultimately show "Get r (t_ID t) = Some t" by simp
  next
    assume "Get r (t_ID t) = Some t"
    then have "(t_ID t, t) \<in> set ?d" unfolding facts(2) [symmetric] by (rule map_of_SomeD)
    then show "t \<in> set (List_tunnels iter r)" by (force simp: List_tunnels_def)
  qed
  ultimately show ?thesis by (simp add: List_tunnels_def)
qed

text \<open>When the file cannot be written, a hello that claims a free ID fails, but the ID stays
  claimed in memory under the hash of a secret nobody was told: from then on only that
  undelivered secret gets it, and every honest retry is denied.\<close>

theorem Register_failed_save:
  assumes "idRe d" and "Get r d = None" and "generateSecret x = Inr s"
    and "\<not> (io_write io = WriteOk \<and> io_rename io = None)"
  shows "\<exists>e r' dk' t. Register iter io now (x # ds) d secret r dk = Some (Inl e, r', dk') \<and>
    Get r' d = Some t \<and> (verifySecret t = (\<lambda>p. hashSecret p = hashSecret s))"
proof -
  let ?r = "modify_tunnel d (setSecretHash (hashSecret s)) (put_tunnel d (newTunnel now d) r)"
  obtain e dk' where e: "saveLocked iter io ?r dk = (Some e, dk')"
    using saveLocked_disk [of iter io ?r dk] assms(4)
    by (cases "saveLocked iter io ?r dk") auto
  have "Register iter io now (x # ds) d secret r dk = Some (Inl e, ?r, dk')"
    using assms(1-3) e by (simp add: Register_def claimDesired_def Let_def idRe_nonempty)
  moreover have "Get ?r d = Some (setSecretHash (hashSecret s) (newTunnel now d))"
    by (simp add: reg_simps)
  ultimately show ?thesis by (auto simp: fun_eq_iff intro!: exI)
qed

section \<open>Witnesses\<close>

definition demo_tunnel :: Tunnel where
  "demo_tunnel = (newTunnel 7 ''abcd1234'')\<lparr>t_secretHash := ''x'', t_target := ''http://h''\<rparr>"

definition demo_registry :: Registry where
  "demo_registry = \<lparr>rg_tunnels = [(''abcd1234'', demo_tunnel)], rg_file = ''tunnels.json''\<rparr>"

definition demo_io :: save_io where
  "demo_io = \<lparr>io_write = WriteOk, io_rename = None\<rparr>"

lemma idRe_demo [simp]: "idRe ''abcd1234''" "idRe ''aaaaaaaa''" "idRe ''zzzz0000''"
  by (simp_all add: idRe_def id_char_def)

lemma demo_ok: "registry_ok demo_registry"
  by (simp add: registry_ok_def demo_registry_def tunnel_ok_def demo_tunnel_def)

lemma demo_get [simp]: "Get demo_registry ''abcd1234'' = Some demo_tunnel"
  "Get demo_registry ''aaaaaaaa'' = None" "Get demo_registry ''zzzz0000'' = None"
  by (simp_all add: Get_def demo_registry_def)

lemma demo_normalize: "normalizeDesired '' ABCD1234'' = ''abcd1234''"
  by code_simp

lemma demo_generate: "generateID (Inr []) = Inr ''aaaaaaaa''"
  by code_simp

lemma hashSecret_not_short: "length h < 44 \<Longrightarrow> h \<noteq> hashSecret s"
  using hashSecret_length [of s] by auto

lemma demo_wrong: "\<not> verifySecret demo_tunnel ''wrong''"
  using hashSecret_not_short [of "''x''" "''wrong''"] by (simp add: verifySecret_def demo_tunnel_def)

lemma saveLocked_demo_io: "\<exists>dk'. saveLocked iter demo_io r dk = (None, dk')"
  by (simp add: saveLocked_def demo_io_def Let_def)

definition demo_secret :: string where
  "demo_secret = RawURLEncode (fill_buf 32 [])"

lemma demo_issue:
  "\<exists>dk'. issueSecret iter demo_io i dn [Inr []] r dk =
     Some (Inr (i, False, dn, demo_secret), modify_tunnel i (setSecretHash (hashSecret demo_secret)) r, dk')"
  using saveLocked_demo_io [of iter "modify_tunnel i (setSecretHash (hashSecret demo_secret)) r" dk]
  by (auto simp: generateSecret_def demo_secret_def Let_def)

lemma demo_denied:
  "\<exists>r' dk'. Register id demo_io 5 [Inr [], Inr []] '' ABCD1234'' ''wrong'' demo_registry dk =
     Some (Inr (''aaaaaaaa'', False, True, demo_secret), r', dk')"
  using demo_issue [of id "''aaaaaaaa''" True "put_tunnel ''aaaaaaaa'' (newTunnel 5 ''aaaaaaaa'') demo_registry" dk]
  by (auto simp: Register_def claimDesired_def demo_normalize demo_wrong demo_generate)

lemma demo_custom:
  "\<exists>r' dk'. Register id demo_io 5 [Inr []] ''zzzz0000'' [] demo_registry dk =
     Some (Inr (''zzzz0000'', False, False, demo_secret), r', dk')"
  using demo_issue [of id "''zzzz0000''" False "put_tunnel ''zzzz0000'' (newTunnel 5 ''zzzz0000'') demo_registry" dk]
  by (auto simp: Register_def claimDesired_def)

theorem Register_keeps_tunnels_witness:
  "\<exists>res r' dk'. Register id demo_io 5 [Inr [], Inr []] '' ABCD1234'' ''wrong'' demo_registry Map.empty
      = Some (res, r', dk') \<and> Get r' ''abcd1234'' = Some demo_tunnel"
  using demo_denied [of Map.empty] Register_keeps_tunnels [OF _ demo_get(1)] by blast

theorem Register_registry_ok_witness:
  "\<exists>res r' dk'. Register id demo_io 5 [Inr []] ''zzzz0000'' [] demo_registry Map.empty
      = Some (res, r', dk') \<and> registry_ok r'"
  using demo_custom [of Map.empty] Register_registry_ok [OF demo_ok] by blast

theorem Register_wrong_secret_witness:
  "\<exists>i denied s r' dk'.
     Register id demo_io 5 [Inr [], Inr []] '' ABCD1234'' ''wrong'' demo_registry Map.empty
       = Some (Inr (i, False, denied, s), r', dk') \<and>
     i \<noteq> ''abcd1234'' \<and> idRe i \<and> denied \<and> Get r' ''abcd1234'' = Some demo_tunnel"
proof -
  obtain r' dk' where r: "Register id demo_io 5 [Inr [], Inr []] '' ABCD1234'' ''wrong''
      demo_registry Map.empty = Some (Inr (''aaaaaaaa'', False, True, demo_secret), r', dk')"
    using demo_denied [of Map.empty] by blast
  show ?thesis
    using r Register_wrong_secret [OF r, of demo_tunnel] demo_wrong by (auto simp: demo_normalize)
qed

theorem Register_reclaim_later_witness:
  "\<exists>r1 dk1 r2 dk2.
     Register id demo_io 5 [Inr []] ''zzzz0000'' [] demo_registry Map.empty
       = Some (Inr (''zzzz0000'', False, False, demo_secret), r1, dk1) \<and>
     run_opt (reg_step id) [OpSession ''zzzz0000'' (Some 3), OpSetTarget demo_io ''zzzz0000'' ''http://t'']
       (r1, dk1) = Some (r2, dk2) \<and>
     Register id demo_io 9 [] ''zzzz0000'' demo_secret r2 dk2
       = Some (Inr (''zzzz0000'', True, False, []), r2, dk2)"
proof -
  obtain r1 dk1 where r: "Register id demo_io 5 [Inr []] ''zzzz0000'' [] demo_registry Map.empty
      = Some (Inr (''zzzz0000'', False, False, demo_secret), r1, dk1)"
    using demo_custom [of Map.empty] by blast
  obtain r2 dk2 where q: "run_opt (reg_step id)
      [OpSession ''zzzz0000'' (Some 3), OpSetTarget demo_io ''zzzz0000'' ''http://t''] (r1, dk1)
      = Some (r2, dk2)"
    by (cases "snd (registry_SetTarget id demo_io ''zzzz0000'' ''http://t''
          (modify_tunnel ''zzzz0000'' (\<lambda>t. t\<lparr>t_session := Some 3\<rparr>) r1) dk1)") simp
  show ?thesis using r q Register_reclaim_later [OF r q] by blast
qed

theorem allocRandom_first_free_witness:
  "allocRandom 5 ([Inr [0, 1, 2, 3, 26, 27, 28, 29]] @ Inr [] # [Inl ''unused'']) 
     (put_tunnel ''abcd0123'' (newTunnel 0 ''abcd0123'') demo_registry)
   = Some (Inr ''aaaaaaaa'', put_tunnel ''aaaaaaaa'' (newTunnel 5 ''aaaaaaaa'')
       (put_tunnel ''abcd0123'' (newTunnel 0 ''abcd0123'') demo_registry), [Inl ''unused''])"
proof (rule allocRandom_first_free)
  have "generateID (Inr [0, 1, 2, 3, 26, 27, 28, 29]) = Inr ''abcd0123''" by code_simp
  then show "list_all (\<lambda>x. \<exists>j. generateID x = Inr j \<and>
      Get (put_tunnel ''abcd0123'' (newTunnel 0 ''abcd0123'') demo_registry) j \<noteq> None)
      [Inr [0, 1, 2, 3, 26, 27, 28, 29]]"
    by (simp add: reg_simps)
qed (simp_all add: demo_generate reg_simps)

theorem Save_Load_witness:
  "\<exists>dk' r'. saveLocked rev demo_io demo_registry Map.empty = (None, dk') \<and>
     Load 9 None dk' (NewRegistry ''tunnels.json'') = (None, r') \<and> Count r' = Count demo_registry"
proof -
  obtain dk' where d: "saveLocked rev demo_io demo_registry Map.empty = (None, dk')"
    using saveLocked_demo_io by blast
  have p: "ranges rev demo_registry" by (simp add: ranges_def)
  have u: "list_all (storable \<circ> snd) (rg_tunnels demo_registry)"
    by (simp add: demo_registry_def storable_def demo_tunnel_def valid_utf8_ascii)
  have f: "rg_file demo_registry = ''tunnels.json''" by (simp add: demo_registry_def)
  show ?thesis using d Save_Load [OF demo_ok p d u, of 9] unfolding f by blast
qed

theorem List_tunnels_sorted_witness:
  "ranges rev demo_registry \<and> sorted (map t_ID (List_tunnels rev demo_registry)) \<and>
   length (List_tunnels rev demo_registry) = Count demo_registry"
proof -
  have p: "ranges rev demo_registry" by (simp add: ranges_def)
  show ?thesis using p List_tunnels_sorted [OF demo_ok p] by blast
qed

theorem Register_failed_save_witness:
  "\<exists>e r' dk' t. Register id (demo_io\<lparr>io_rename := Some ''disk full''\<rparr>) 5 [Inr []] ''zzzz0000'' []
      demo_registry Map.empty = Some (Inl e, r', dk') \<and> Get r' ''zzzz0000'' = Some t \<and>
      verifySecret t = (\<lambda>p. hashSecret p = hashSecret demo_secret)"
  by (rule Register_failed_save) (simp_all add: generateSecret_def demo_secret_def demo_io_def)

end
