(* ===== verification/GoHttp.thy ===== *)
theory GoHttp
  imports Frame
begin

text \<open>
  What both ends of the tunnel use of HTTP: canonical header keys, header maps, reads of a body,
  and the chunk frames that carry one.
\<close>

type_synonym reqid = "32 word"

section \<open>Header maps\<close>

text \<open>\<open>textproto.CanonicalMIMEHeaderKey\<close>: a key of token characters gets its first letter, and
  each letter after a hyphen, in upper case and the others in lower case.\<close>

definition token_char :: "char \<Rightarrow> bool" where
  "token_char c \<longleftrightarrow> (CHR ''a'' \<le> c \<and> c \<le> CHR ''z'') \<or> (CHR ''A'' \<le> c \<and> c \<le> CHR ''Z'') \<or>
     (CHR ''0'' \<le> c \<and> c \<le> CHR ''9'') \<or> c \<in> set ''!#$%&*+-.^_|~'' \<or> c = CHR 0x27 \<or> c = CHR 0x60"

definition ascii_upper :: "char \<Rightarrow> char" where
  "ascii_upper c =
     (if CHR ''a'' \<le> c \<and> c \<le> CHR ''z'' then
        (case c of Char b0 b1 b2 b3 b4 b5 b6 b7 \<Rightarrow> Char b0 b1 b2 b3 b4 False b6 b7)
      else c)"

fun canonical :: "bool \<Rightarrow> string \<Rightarrow> string" where
  "canonical up [] = []"
| "canonical up (c # cs) = (if up then ascii_upper c else ascii_lower c) # canonical (c = CHR ''-'') cs"

definition CanonicalHeaderKey :: "string \<Rightarrow> string" where
  "CanonicalHeaderKey k = (if list_all token_char k then canonical True k else k)"

definition header_values :: "string \<Rightarrow> headers \<Rightarrow> string list" where
  "header_values k h = (case map_of h k of None \<Rightarrow> [] | Some vv \<Rightarrow> vv)"

text \<open>\<open>http.Header.Add\<close>.\<close>

definition header_add :: "string \<Rightarrow> string \<Rightarrow> headers \<Rightarrow> headers" where
  "header_add k v h =
     (let c = CanonicalHeaderKey k in AList.update c (header_values c h @ [v]) h)"

lemma ascii_lower_upper [simp]: "ascii_lower (ascii_upper c) = ascii_lower c"
  by (cases c) (auto simp: ascii_lower_def ascii_upper_def)

lemma ascii_lower_twice [simp]: "ascii_lower (ascii_lower c) = ascii_lower c"
  by (cases c) (auto simp: ascii_lower_def)

lemma lower_canonical: "map ascii_lower (canonical up k) = map ascii_lower k"
  by (induction k arbitrary: up) simp_all

lemma token_ascii: "token_char c \<Longrightarrow> ascii_upper c < CHR 0x80 \<and> ascii_lower c < CHR 0x80 \<and> c < CHR 0x80"
  by (cases c) (auto simp: token_char_def ascii_upper_def ascii_lower_def)

lemma canonical_ascii: "list_all token_char k \<Longrightarrow> is_ascii (canonical up k)"
  by (induction k arbitrary: up) (auto dest: token_ascii)

text \<open>Canonical keys differ from the given ones in letter case only.\<close>

lemma ToLower_CanonicalHeaderKey: "ToLower (CanonicalHeaderKey k) = ToLower k"
proof (cases "list_all token_char k")
  case True
  then have "is_ascii k" by (auto simp: is_ascii_def list_all_iff dest: token_ascii)
  with True show ?thesis
    by (simp add: CanonicalHeaderKey_def ToLower_ascii canonical_ascii lower_canonical)
qed (simp add: CanonicalHeaderKey_def)

lemma header_values_add:
  "header_values c (header_add k v h) =
     header_values c h @ (if CanonicalHeaderKey k = c then [v] else [])"
  by (auto simp: header_add_def header_values_def Let_def map_of_update_cases)

section \<open>Reads\<close>

text \<open>\<open>body.Read\<close> after the bytes it has delivered: more, the end, or an error.\<close>

datatype read_end = More | EOF | ReadErr go_error

section \<open>Chunked bodies\<close>

definition chunk_frames :: "(int \<Rightarrow> byte list \<Rightarrow> frame) \<Rightarrow> byte list list \<Rightarrow> frame list" where
  "chunk_frames mk bss = map2 mk (map int [0..<length bss]) bss"

text \<open>What a receiver makes of the payload of a frame.\<close>

definition payload :: "frame \<Rightarrow> byte list" where
  "payload f = (case DecodeString (f_Data f) of None \<Rightarrow> [] | Some bs \<Rightarrow> bs)"

text \<open>A sender of chunks, for a request or a response: base64 payload, sequence number.\<close>

locale chunking =
  fixes mk :: "int \<Rightarrow> byte list \<Rightarrow> frame" and kind :: string and req :: reqid
  assumes mk_data: "f_Data (mk s bs) = EncodeToString bs"
    and mk_seq: "f_Seq (mk s bs) = s" and mk_type: "f_Type (mk s bs) = kind"
    and mk_req: "f_ReqID (mk s bs) = req"
begin

lemma payload_mk [simp]: "payload (mk s bs) = bs"
  by (simp add: payload_def mk_data b64.dec_enc)

lemma chunk_frames_snoc:
  "chunk_frames mk (bss @ [bs]) = chunk_frames mk bss @ [mk (int (length bss)) bs]"
  by (simp add: chunk_frames_def)

lemma map_chunk_frames:
  "map payload (chunk_frames mk bss) = bss"
  "map f_Seq (chunk_frames mk bss) = map int [0..<length bss]"
  "f \<in> set (chunk_frames mk bss) \<Longrightarrow> f_Type f = kind \<and> f_ReqID f = req"
  by (induction bss rule: rev_induct)
    (auto simp: chunk_frames_snoc mk_seq mk_type mk_req, auto simp: chunk_frames_def)

lemma decodable: "f \<in> set (chunk_frames mk bss) \<Longrightarrow> DecodeString (f_Data f) = Some (payload f)"
  by (auto simp: chunk_frames_def mk_data b64.dec_enc set_zip)

end

end
