(* ===== verification/Session.thy ===== *)
theory Session
  imports Registry GoHttp
begin

text \<open>
  Tunnel sessions (\<open>internal/server/tunnel.go\<close>): the send queue, the request IDs, the mailboxes
  of in-flight requests, delivery of response frames, and the teardown.

  \<open>World\<close> is the heap of the server process: sessions and mailboxes are shared through pointers
  (a relay handler keeps its mailbox after the session's map has dropped it), so both live under
  addresses, below the next fresh address.  A \<open>done\<close> channel is a flag; closing a closed channel
  is the panic Go makes of it.  A \<open>select\<close> is resolved by an explicit choice, and an operation
  whose chosen branch is not ready gives \<open>None\<close>: the goroutine is still blocked.
\<close>

section \<open>State\<close>

type_synonym addr = nat

datatype panic = CloseOfClosedChannel

definition sendQueueCap :: nat where
  "sendQueueCap = 256"

definition mailboxCap :: nat where
  "mailboxCap = 16"

record pendingResp =
  pr_ch :: "frame list"
  pr_done :: bool

text \<open>\<open>s_wire\<close> is what \<open>conn.WriteMessage\<close> has written to the connection, oldest first;
  \<open>s_reading\<close> says that the session's read loop has not returned.\<close>

record Session =
  s_tun :: "string option"
  s_remoteAddr :: string
  s_startedAt :: int
  s_sendQ :: "json list"
  s_done :: bool
  s_pending :: "(reqid, addr) dict"
  s_nextID :: reqid
  s_lastRx :: int
  s_closed :: bool
  s_helloDone :: bool
  s_writeDone :: bool
  s_connClosed :: bool
  s_reading :: bool
  s_wire :: "json list"

record World =
  w_sess :: "sid \<Rightarrow> Session"
  w_nsess :: sid
  w_box :: "addr \<Rightarrow> pendingResp"
  w_nbox :: addr
  w_reg :: Registry
  w_disk :: disk
  w_online :: int

definition modify_sess :: "sid \<Rightarrow> (Session \<Rightarrow> Session) \<Rightarrow> World \<Rightarrow> World" where
  "modify_sess i g w = w\<lparr>w_sess := (w_sess w)(i := g (w_sess w i))\<rparr>"

definition modify_box :: "addr \<Rightarrow> (pendingResp \<Rightarrow> pendingResp) \<Rightarrow> World \<Rightarrow> World" where
  "modify_box a g w = w\<lparr>w_box := (w_box w)(a := g (w_box w a))\<rparr>"

definition modify_reg :: "(Registry \<Rightarrow> Registry) \<Rightarrow> World \<Rightarrow> World" where
  "modify_reg g w = w\<lparr>w_reg := g (w_reg w)\<rparr>"

section \<open>Creation\<close>

definition fresh_session :: "int \<Rightarrow> string \<Rightarrow> Session" where
  "fresh_session now remote =
     \<lparr>s_tun = None, s_remoteAddr = remote, s_startedAt = now, s_sendQ = [], s_done = False,
      s_pending = [], s_nextID = 0, s_lastRx = 0, s_closed = False, s_helloDone = False,
      s_writeDone = False, s_connClosed = False, s_reading = True, s_wire = []\<rparr>"

definition newSession :: "int \<Rightarrow> string \<Rightarrow> World \<Rightarrow> sid \<times> World" where
  "newSession now remote w =
     (w_nsess w,
      w\<lparr>w_sess := (w_sess w)(w_nsess w := fresh_session now remote), w_nsess := Suc (w_nsess w)\<rparr>)"

section \<open>Sending\<close>

datatype send_pick = PickSend | PickDone | PickCtx go_error

definition sendWithContext ::
    "send_pick \<Rightarrow> sid \<Rightarrow> frame \<Rightarrow> World \<Rightarrow> (go_error option \<times> World) option" where
  "sendWithContext pick i f w =
     (let s = w_sess w i in
      if s_closed s then Some (Some ''session closed'', w)
      else let b = Marshal f in
        case pick of
          PickSend \<Rightarrow>
            if length (s_sendQ s) < sendQueueCap
            then Some (None, modify_sess i (\<lambda>s. s\<lparr>s_sendQ := s_sendQ s @ [b]\<rparr>) w)
            else None
        | PickDone \<Rightarrow> if s_done s then Some (Some ''session closed'', w) else None
        | PickCtx e \<Rightarrow> Some (Some e, w))"

text \<open>\<open>send\<close> gives up after five seconds, with \<open>context.DeadlineExceeded\<close>.\<close>

definition with_deadline :: "send_pick \<Rightarrow> send_pick" where
  "with_deadline pick = (case pick of PickCtx _ \<Rightarrow> PickCtx ''context deadline exceeded'' | p \<Rightarrow> p)"

definition send ::
    "send_pick \<Rightarrow> sid \<Rightarrow> frame \<Rightarrow> World \<Rightarrow> (go_error option \<times> World) option" where
  "send pick i f w = sendWithContext (with_deadline pick) i f w"

section \<open>Request IDs and mailboxes\<close>

text \<open>The loop of \<open>NextReqID\<close>: add one, take the ID unless a request in flight holds it.\<close>

partial_function (option) nextReqIDLoop :: "(reqid \<Rightarrow> bool) \<Rightarrow> reqid \<Rightarrow> reqid option" where
  "nextReqIDLoop inUse n =
     (if inUse (n + 1) then nextReqIDLoop inUse (n + 1) else Some (n + 1))"

definition in_flight :: "Session \<Rightarrow> reqid \<Rightarrow> bool" where
  "in_flight s k \<longleftrightarrow> map_of (s_pending s) k \<noteq> None"

definition NextReqID :: "sid \<Rightarrow> World \<Rightarrow> (reqid \<times> World) option" where
  "NextReqID i w =
     (case nextReqIDLoop (in_flight (w_sess w i)) (s_nextID (w_sess w i)) of
        None \<Rightarrow> None
      | Some k \<Rightarrow> Some (k, modify_sess i (\<lambda>s. s\<lparr>s_nextID := k\<rparr>) w))"

definition RegisterPending :: "sid \<Rightarrow> reqid \<Rightarrow> World \<Rightarrow> addr \<times> World" where
  "RegisterPending i k w =
     (let a = w_nbox w;
          w1 = w\<lparr>w_box := (w_box w)(a := \<lparr>pr_ch = [], pr_done = False\<rparr>), w_nbox := Suc a\<rparr>
      in (a, modify_sess i (\<lambda>s. s\<lparr>s_pending := AList.update k a (s_pending s)\<rparr>) w1))"

definition close_done :: "addr \<Rightarrow> World \<Rightarrow> panic + World" where
  "close_done a w =
     (if pr_done (w_box w a) then Inl CloseOfClosedChannel
      else Inr (modify_box a (\<lambda>p. p\<lparr>pr_done := True\<rparr>) w))"

definition UnregisterPending :: "sid \<Rightarrow> reqid \<Rightarrow> World \<Rightarrow> panic + World" where
  "UnregisterPending i k w =
     (case map_of (s_pending (w_sess w i)) k of
        None \<Rightarrow> Inr w
      | Some a \<Rightarrow>
          (case close_done a w of
             Inl p \<Rightarrow> Inl p
           | Inr w1 \<Rightarrow>
               Inr (modify_sess i (\<lambda>s. s\<lparr>s_pending := AList.delete k (s_pending s)\<rparr>) w1)))"

datatype route_pick = PickDeliver | PickAbort

definition routeResponse :: "route_pick \<Rightarrow> sid \<Rightarrow> frame \<Rightarrow> World \<Rightarrow> World option" where
  "routeResponse pick i f w =
     (case map_of (s_pending (w_sess w i)) (f_ReqID f) of
        None \<Rightarrow> Some w
      | Some a \<Rightarrow>
          (case pick of
             PickDeliver \<Rightarrow>
               if length (pr_ch (w_box w a)) < mailboxCap
               then Some (modify_box a (\<lambda>p. p\<lparr>pr_ch := pr_ch p @ [f]\<rparr>) w) else None
           | PickAbort \<Rightarrow> if pr_done (w_box w a) then Some w else None))"

section \<open>Teardown\<close>

text \<open>\<open>close\<close> in the steps between which other goroutines can run.\<close>

fun close_boxes :: "addr list \<Rightarrow> World \<Rightarrow> panic + World" where
  "close_boxes [] w = Inr w"
| "close_boxes (a # as) w =
     (case close_done a w of Inl p \<Rightarrow> Inl p | Inr w' \<Rightarrow> close_boxes as w')"

definition close_signal :: "sid \<Rightarrow> World \<Rightarrow> panic + World" where
  "close_signal i w =
     (if s_done (w_sess w i) then Inl CloseOfClosedChannel
      else Inr (modify_sess i (\<lambda>s. s\<lparr>s_connClosed := True, s_done := True\<rparr>) w))"

definition close_pending :: "sid \<Rightarrow> World \<Rightarrow> panic + World" where
  "close_pending i w =
     (case close_boxes (map snd (s_pending (w_sess w i))) w of
        Inl p \<Rightarrow> Inl p
      | Inr w' \<Rightarrow> Inr (modify_sess i (\<lambda>s. s\<lparr>s_pending := []\<rparr>) w'))"

text \<open>\<open>CompareAndSwap(s, nil)\<close> on the tunnel's session pointer, and the counter.\<close>

definition close_offline :: "sid \<Rightarrow> World \<Rightarrow> World" where
  "close_offline i w =
     (case s_tun (w_sess w i) of
        None \<Rightarrow> w
      | Some tid \<Rightarrow>
          (case Get (w_reg w) tid of
             None \<Rightarrow> w
           | Some t \<Rightarrow>
               if t_session t = Some i
               then modify_reg (modify_tunnel tid (\<lambda>t. t\<lparr>t_session := None\<rparr>)) w
                      \<lparr>w_online := w_online w - 1\<rparr>
               else w))"

definition close :: "sid \<Rightarrow> World \<Rightarrow> panic + World" where
  "close i w =
     (if s_closed (w_sess w i) then Inr w
      else case close_signal i (modify_sess i (\<lambda>s. s\<lparr>s_closed := True\<rparr>) w) of
             Inl p \<Rightarrow> Inl p
           | Inr w1 \<Rightarrow>
               (case close_pending i w1 of
                  Inl p \<Rightarrow> Inl p
                | Inr w2 \<Rightarrow> Inr (close_offline i w2)))"

section \<open>Activity\<close>

definition touch :: "int \<Rightarrow> sid \<Rightarrow> World \<Rightarrow> World" where
  "touch now i w = modify_sess i (\<lambda>s. s\<lparr>s_lastRx := now\<rparr>) w"

definition RemoteAddr :: "sid \<Rightarrow> World \<Rightarrow> string" where
  "RemoteAddr i w = s_remoteAddr (w_sess w i)"

definition StartedAt :: "sid \<Rightarrow> World \<Rightarrow> int" where
  "StartedAt i w = s_startedAt (w_sess w i)"

definition tunID :: "sid \<Rightarrow> World \<Rightarrow> string" where
  "tunID i w = (case s_tun (w_sess w i) of None \<Rightarrow> [] | Some t \<Rightarrow> t)"

section \<open>The writer\<close>

text \<open>One turn of \<open>writeLoop\<close>: which case of the \<open>select\<close> is taken, and, for a frame, whether
  the write succeeds.  The flag of the result says whether the loop goes on.\<close>

datatype write_turn = Dequeue bool | SeeDone | Tick send_pick int

definition frame_ping :: "int \<Rightarrow> frame" where
  "frame_ping now = zero_frame\<lparr>f_Type := ''ping'', f_TS := now\<rparr>"

definition writer_exit :: "sid \<Rightarrow> World \<Rightarrow> World" where
  "writer_exit i w = modify_sess i (\<lambda>s. s\<lparr>s_writeDone := True\<rparr>) w"

definition writeTurn :: "write_turn \<Rightarrow> sid \<Rightarrow> World \<Rightarrow> (bool \<times> World) option" where
  "writeTurn turn i w =
     (let s = w_sess w i in
      case turn of
        Dequeue ok \<Rightarrow>
          (case s_sendQ s of
             [] \<Rightarrow> None
           | b # q \<Rightarrow>
               (let w1 = modify_sess i (\<lambda>s. s\<lparr>s_sendQ := q\<rparr>) w in
                if ok then Some (True, modify_sess i (\<lambda>s. s\<lparr>s_wire := s_wire s @ [b]\<rparr>) w1)
                else Some (False, writer_exit i w1)))
      | SeeDone \<Rightarrow> if s_done s then Some (False, writer_exit i w) else None
      | Tick pick now \<Rightarrow>
          if s_closed s then Some (False, writer_exit i w)
          else (case send pick i (frame_ping now) w of
                  None \<Rightarrow> None
                | Some (None, w') \<Rightarrow> Some (True, w')
                | Some (Some e, w') \<Rightarrow> Some (False, writer_exit i w')))"

section \<open>Reading the heap after an update\<close>

lemma modify_sess_sel [sess_simps]:
  "w_sess (modify_sess i g w) = (w_sess w)(i := g (w_sess w i))"
  "w_box (modify_sess i g w) = w_box w" "w_nbox (modify_sess i g w) = w_nbox w"
  "w_nsess (modify_sess i g w) = w_nsess w" "w_reg (modify_sess i g w) = w_reg w"
  "w_disk (modify_sess i g w) = w_disk w" "w_online (modify_sess i g w) = w_online w"
  by (simp_all add: modify_sess_def)

lemma modify_box_sel [sess_simps]:
  "w_box (modify_box a h w) = (w_box w)(a := h (w_box w a))"
  "w_sess (modify_box a h w) = w_sess w" "w_nbox (modify_box a h w) = w_nbox w"
  "w_nsess (modify_box a h w) = w_nsess w" "w_reg (modify_box a h w) = w_reg w"
  "w_disk (modify_box a h w) = w_disk w" "w_online (modify_box a h w) = w_online w"
  by (simp_all add: modify_box_def)

lemma modify_reg_sel [sess_simps]:
  "w_reg (modify_reg h w) = h (w_reg w)"
  "w_sess (modify_reg h w) = w_sess w" "w_box (modify_reg h w) = w_box w"
  "w_nbox (modify_reg h w) = w_nbox w" "w_nsess (modify_reg h w) = w_nsess w"
  "w_disk (modify_reg h w) = w_disk w" "w_online (modify_reg h w) = w_online w"
  by (simp_all add: modify_reg_def)

section \<open>Request IDs\<close>

lemma nextReqIDLoop_run:
  assumes "\<And>e. e < d \<Longrightarrow> inUse (n + 1 + of_nat e)" and "\<not> inUse (n + 1 + of_nat d)"
  shows "nextReqIDLoop inUse n = Some (n + 1 + of_nat d)"
  using assms
proof (induction d arbitrary: n)
  case 0
  then show ?case by (subst nextReqIDLoop.simps) simp
next
  case (Suc d)
  have "inUse (n + 1)" using Suc.prems(1) [of 0] by simp
  moreover have "nextReqIDLoop inUse (n + 1) = Some (n + 1 + 1 + of_nat d)"
  proof (rule Suc.IH)
    show "inUse (n + 1 + 1 + of_nat e)" if "e < d" for e
      using Suc.prems(1) [of "Suc e"] that by (simp add: add_ac)
    show "\<not> inUse (n + 1 + 1 + of_nat d)"
      using Suc.prems(2) by (simp add: add_ac)
  qed
  ultimately show ?case by (subst nextReqIDLoop.simps) (simp add: add_ac)
qed

lemma nextReqIDLoop_free:
  assumes "nextReqIDLoop inUse n = Some k"
  shows "\<not> inUse k"
  by (rule nextReqIDLoop.raw_induct [where P = "\<lambda>u n k. \<not> u k", OF _ assms])
    (auto split: if_splits)

lemma nextReqIDLoop_least:
  assumes "\<not> inUse k"
  obtains d where "nextReqIDLoop inUse n = Some (n + 1 + of_nat d)" and "d < 2 ^ 32"
    and "\<And>e. e < d \<Longrightarrow> inUse (n + 1 + of_nat e)" and "\<not> inUse (n + 1 + of_nat d)"
proof -
  let ?P = "\<lambda>d. \<not> inUse (n + 1 + of_nat d)"
  have k: "?P (unat (k - (n + 1)))" using assms by simp
  show ?thesis
  proof (rule that)
    show l: "?P (LEAST d. ?P d)" by (rule LeastI [of ?P, OF k])
    show e: "inUse (n + 1 + of_nat e)" if "e < (LEAST d. ?P d)" for e
      using not_less_Least [OF that] by simp
    show "nextReqIDLoop inUse n = Some (n + 1 + of_nat (LEAST d. ?P d))"
      by (rule nextReqIDLoop_run) (use e l in blast)+
    have "(LEAST d. ?P d) \<le> unat (k - (n + 1))" by (rule Least_le [of ?P, OF k])
    moreover have "unat (k - (n + 1)) < 2 ^ 32"
      by (rule order_less_le_trans [OF unsigned_less]) simp
    ultimately show "(LEAST d. ?P d) < 2 ^ 32" by simp
  qed
qed

text \<open>C20.  The request ID a relay gets is the next one after the last that no request in flight holds,
  counted with wrap-around at 2 to the 32; and it always gets one, as fewer than 2 to the 32
  requests are in flight.\<close>

theorem NextReqID_fresh:
  assumes "length (s_pending (w_sess w i)) < 2 ^ 32"
  shows "\<exists>d k w'. NextReqID i w = Some (k, w') \<and> k = s_nextID (w_sess w i) + 1 + of_nat d \<and>
    \<not> in_flight (w_sess w i) k \<and>
    (\<forall>e. \<not> (e < d \<and> \<not> in_flight (w_sess w i) (s_nextID (w_sess w i) + 1 + of_nat e))) \<and>
    w' = modify_sess i (\<lambda>s. s\<lparr>s_nextID := k\<rparr>) w"
proof -
  let ?s = "w_sess w i"
  let ?K = "fst ` set (s_pending ?s)"
  have "card ?K \<le> length (s_pending ?s)"
    by (metis card_image_le card_length finite_set le_trans)
  also have "\<dots> < card (UNIV :: reqid set)"
    using assms by (simp add: card_word)
  finally have "?K \<noteq> UNIV" by auto
  then obtain k0 where "k0 \<notin> ?K" by blast
  then have "\<not> in_flight ?s k0" by (simp add: in_flight_def map_of_eq_None_iff)
  then obtain d where "nextReqIDLoop (in_flight ?s) (s_nextID ?s) = Some (s_nextID ?s + 1 + of_nat d)"
    and "\<And>e. e < d \<Longrightarrow> in_flight ?s (s_nextID ?s + 1 + of_nat e)"
    and "\<not> in_flight ?s (s_nextID ?s + 1 + of_nat d)"
    using nextReqIDLoop_least [of "in_flight ?s" k0 "s_nextID ?s"] by metis
  then show ?thesis by (auto simp: NextReqID_def intro!: exI)
qed

section \<open>The heap invariant\<close>

definition boxes :: "World \<Rightarrow> sid \<Rightarrow> addr list" where
  "boxes w i = map snd (s_pending (w_sess w i))"

text \<open>The mailboxes of a session are distinct, allocated and open; \<open>done\<close> follows \<open>closed\<close>.\<close>

definition sess_ok :: "World \<Rightarrow> sid \<Rightarrow> bool" where
  "sess_ok w i \<longleftrightarrow> wf_dict (s_pending (w_sess w i)) \<and> distinct (boxes w i) \<and>
     list_all (\<lambda>a. a < w_nbox w \<and> \<not> pr_done (w_box w a)) (boxes w i) \<and>
     s_done (w_sess w i) = s_closed (w_sess w i)"

text \<open>No two sessions share a mailbox, and a tunnel's session pointer leads to an open session that
  is bound to that tunnel.\<close>

definition pointer_ok :: "World \<Rightarrow> string \<Rightarrow> sid \<Rightarrow> bool" where
  "pointer_ok w tid i \<longleftrightarrow>
     i < w_nsess w \<and> s_tun (w_sess w i) = Some tid \<and> \<not> s_closed (w_sess w i)"

definition world_ok :: "World \<Rightarrow> bool" where
  "world_ok w \<longleftrightarrow> registry_ok (w_reg w) \<and> (\<forall>i. sess_ok w i) \<and>
     (\<forall>i j. i \<noteq> j \<longrightarrow> set (boxes w i) \<inter> set (boxes w j) = {}) \<and>
     (\<forall>tid t i. Get (w_reg w) tid = Some t \<and> t_session t = Some i \<longrightarrow> pointer_ok w tid i)"

lemma world_okD:
  assumes "world_ok w"
  shows world_ok_reg: "registry_ok (w_reg w)" and world_ok_sess: "sess_ok w i"
    and world_ok_disj: "i \<noteq> j \<Longrightarrow> a \<in> set (boxes w i) \<Longrightarrow> a \<notin> set (boxes w j)"
    and world_ok_ptr: "Get (w_reg w) tid = Some t \<Longrightarrow> t_session t = Some i \<Longrightarrow> pointer_ok w tid i"
  using assms unfolding world_ok_def by blast+

text \<open>A change that leaves the mailbox tables, the bindings and the flags alone keeps it.\<close>

lemma world_ok_cong:
  assumes "world_ok w"
    and "\<And>i. s_pending (w_sess w' i) = s_pending (w_sess w i)"
    and "\<And>i. s_closed (w_sess w' i) = s_closed (w_sess w i)"
    and "\<And>i. s_done (w_sess w' i) = s_done (w_sess w i)"
    and "\<And>i. s_tun (w_sess w' i) = s_tun (w_sess w i)"
    and "\<And>a. pr_done (w_box w' a) = pr_done (w_box w a)"
    and "w_nbox w' = w_nbox w" and "w_nsess w' = w_nsess w" and "w_reg w' = w_reg w"
  shows "world_ok w'"
  using assms(1) unfolding world_ok_def sess_ok_def boxes_def pointer_ok_def assms(2-9) .

lemma world_ok_newSession:
  assumes "world_ok w"
  shows "world_ok (snd (newSession now remote w))"
proof -
  have "pointer_ok w tid i \<Longrightarrow> pointer_ok (snd (newSession now remote w)) tid i" for tid i
    by (auto simp: pointer_ok_def newSession_def)
  then show ?thesis
    using assms unfolding world_ok_def sess_ok_def boxes_def
    by (auto simp: newSession_def fresh_session_def)
qed

lemma world_ok_register:
  assumes "world_ok w"
  shows "world_ok (snd (RegisterPending i k w))"
  unfolding world_ok_def
proof (intro conjI allI impI)
  let ?w = "snd (RegisterPending i k w)"
  have own: "s_pending (w_sess ?w i) = AList.update k (w_nbox w) (s_pending (w_sess w i))"
    and oth: "j \<noteq> i \<Longrightarrow> w_sess ?w j = w_sess w j" for j
    by (simp_all add: RegisterPending_def Let_def sess_simps)
  have low: "a \<in> set (boxes w j) \<Longrightarrow> a < w_nbox w" for a j
    using world_ok_sess [OF assms, of j] by (auto simp: sess_ok_def list_all_iff)
  have sub: "a \<in> set (boxes ?w j) \<Longrightarrow> a \<in> set (boxes w j) \<or> (j = i \<and> a = w_nbox w)" for a j
    using snd_update_subset [of k "w_nbox w" "s_pending (w_sess w i)"] own oth
    by (cases "j = i") (auto simp: boxes_def)
  have fresh: "a \<in> set (boxes w j) \<Longrightarrow> a \<noteq> w_nbox w" for a j using low by blast
  show "registry_ok (w_reg ?w)"
    using world_ok_reg [OF assms] by (simp add: RegisterPending_def Let_def sess_simps)
  show "set (boxes ?w j) \<inter> set (boxes ?w l) = {}" if "j \<noteq> l" for j l
    unfolding disjoint_iff using sub world_ok_disj [OF assms that] fresh that by metis
  show "pointer_ok ?w tid j" if "Get (w_reg ?w) tid = Some t \<and> t_session t = Some j" for tid t j
    using world_ok_ptr [OF assms, of tid t j] that
    by (auto simp: RegisterPending_def Let_def sess_simps pointer_ok_def)
  show "sess_ok ?w j" for j
  proof -
    have s: "sess_ok w j" by (rule world_ok_sess [OF assms])
    have "distinct (boxes ?w j)"
      using s oth own distinct_snd_update [of "s_pending (w_sess w i)" "w_nbox w" k] fresh [of _ i]
      by (cases "j = i") (auto simp: sess_ok_def boxes_def)
    moreover have "wf_dict (s_pending (w_sess ?w j))"
      using s oth own by (cases "j = i") (auto simp: sess_ok_def)
    moreover have "a < w_nbox ?w \<and> \<not> pr_done (w_box ?w a)" if "a \<in> set (boxes ?w j)" for a
      using sub [OF that] s by (auto simp: sess_ok_def list_all_iff RegisterPending_def Let_def sess_simps)
    moreover have "s_done (w_sess ?w j) = s_closed (w_sess ?w j)"
      using s by (auto simp: sess_ok_def RegisterPending_def Let_def sess_simps)
    ultimately show ?thesis by (simp add: sess_ok_def list_all_iff)
  qed
qed

text \<open>Dropping mailboxes keeps it, as long as those that stay are open.\<close>

lemma world_ok_shrink:
  assumes "world_ok w" and "registry_ok (w_reg w')"
    and "\<And>i. wf_dict (s_pending (w_sess w' i)) \<and> distinct (boxes w' i) \<and>
           set (boxes w' i) \<subseteq> set (boxes w i)"
    and "\<And>i a. a \<in> set (boxes w' i) \<Longrightarrow> pr_done (w_box w' a) = pr_done (w_box w a)"
    and "w_nbox w' = w_nbox w"
    and "\<And>i. s_done (w_sess w' i) = s_closed (w_sess w' i)"
    and "\<And>tid t i. Get (w_reg w') tid = Some t \<Longrightarrow> t_session t = Some i \<Longrightarrow> pointer_ok w' tid i"
  shows "world_ok w'"
  unfolding world_ok_def
proof (intro conjI allI impI)
  show "set (boxes w' i) \<inter> set (boxes w' j) = {}" if "i \<noteq> j" for i j
    unfolding disjoint_iff using assms(3) world_ok_disj [OF assms(1) that] by blast
  show "sess_ok w' i" for i
    using world_ok_sess [OF assms(1), of i] assms(3) [of i] assms(4,5,6)
    by (auto simp: sess_ok_def list_all_iff)
qed (use assms in auto)

lemma UnregisterPending_ok:
  assumes "world_ok w"
  obtains w' where "UnregisterPending i k w = Inr w'" and "world_ok w'"
    and "\<not> in_flight (w_sess w' i) k"
proof (cases "map_of (s_pending (w_sess w i)) k")
  case None
  then show ?thesis using that [of w] assms by (simp add: UnregisterPending_def in_flight_def)
next
  case (Some a)
  define w' where "w' = modify_sess i (\<lambda>s. s\<lparr>s_pending := AList.delete k (s_pending s)\<rparr>)
    (modify_box a (\<lambda>p. p\<lparr>pr_done := True\<rparr>) w)"
  have a: "a \<in> set (boxes w i)" using map_of_SomeD [OF Some] by (force simp: boxes_def)
  have s: "sess_ok w j" for j by (rule world_ok_sess [OF assms])
  have "\<not> pr_done (w_box w a)" using s [of i] a by (auto simp: sess_ok_def list_all_iff)
  then have u: "UnregisterPending i k w = Inr w'"
    using Some by (simp add: UnregisterPending_def close_done_def w'_def)
  have p: "s_pending (w_sess w' j) =
      (if j = i then AList.delete k (s_pending (w_sess w i)) else s_pending (w_sess w j))" for j
    by (simp add: w'_def sess_simps)
  have gone: "a \<notin> set (boxes w' j)" for j
    using snd_delete_notin [OF Some] s [of i] world_ok_disj [OF assms _ a, of j] p
    by (auto simp: boxes_def sess_ok_def)
  have "world_ok w'"
  proof (rule world_ok_shrink [OF assms])
    fix j
    show "wf_dict (s_pending (w_sess w' j)) \<and> distinct (boxes w' j) \<and>
        set (boxes w' j) \<subseteq> set (boxes w j)"
      using s [of i] s [of j] p snd_delete_subset [of k "s_pending (w_sess w i)"]
        distinct_snd_delete [of "s_pending (w_sess w i)" k] distinct_delete
      by (auto simp: boxes_def sess_ok_def)
  next
    fix j b
    assume "b \<in> set (boxes w' j)"
    then have "b \<noteq> a" using gone by blast
    then show "pr_done (w_box w' b) = pr_done (w_box w b)" by (simp add: w'_def sess_simps)
  next
    fix tid t j
    assume "Get (w_reg w') tid = Some t" "t_session t = Some j"
    then show "pointer_ok w' tid j"
      using world_ok_ptr [OF assms, of tid t j] by (auto simp: w'_def sess_simps pointer_ok_def)
  qed (use assms s in \<open>simp_all add: w'_def sess_simps world_ok_reg sess_ok_def\<close>)
  with u show ?thesis using that p by (simp add: in_flight_def delete_conv')
qed

subsection \<open>Closing\<close>

lemma close_boxes_open:
  assumes "distinct as" and "list_all (\<lambda>a. \<not> pr_done (w_box w a)) as"
  shows "close_boxes as w = Inr (w\<lparr>w_box :=
    \<lambda>a. if a \<in> set as then (w_box w a)\<lparr>pr_done := True\<rparr> else w_box w a\<rparr>)"
  using assms
proof (induction as arbitrary: w)
  case (Cons a as)
  let ?w = "modify_box a (\<lambda>p. p\<lparr>pr_done := True\<rparr>) w"
  have "list_all (\<lambda>a. \<not> pr_done (w_box ?w a)) as"
    using Cons.prems by (auto simp: list_all_iff sess_simps)
  with Cons have "close_boxes as ?w = Inr (?w\<lparr>w_box :=
    \<lambda>b. if b \<in> set as then (w_box ?w b)\<lparr>pr_done := True\<rparr> else w_box ?w b\<rparr>)" by simp
  then show ?case
    using Cons.prems by (auto simp: close_done_def modify_box_def fun_eq_iff)
qed simp

text \<open>What \<open>close\<close> leaves of an open session before the tunnel goes offline.\<close>

definition torn_down :: "sid \<Rightarrow> World \<Rightarrow> World" where
  "torn_down i w =
     modify_sess i (\<lambda>s. s\<lparr>s_closed := True, s_connClosed := True, s_done := True, s_pending := []\<rparr>)
       (w\<lparr>w_box := \<lambda>a. if a \<in> set (boxes w i) then (w_box w a)\<lparr>pr_done := True\<rparr> else w_box w a\<rparr>)"

lemma close_open:
  assumes "world_ok w" and "\<not> s_closed (w_sess w i)"
  shows "close i w = Inr (close_offline i (torn_down i w))"
proof -
  let ?w = "modify_sess i (\<lambda>s. s\<lparr>s_connClosed := True, s_done := True\<rparr>)
    (modify_sess i (\<lambda>s. s\<lparr>s_closed := True\<rparr>) w)"
  have s: "sess_ok w i" by (rule world_ok_sess [OF assms(1)])
  have "close_signal i (modify_sess i (\<lambda>s. s\<lparr>s_closed := True\<rparr>) w) = Inr ?w"
    using s assms(2) by (simp add: close_signal_def sess_ok_def sess_simps)
  moreover have "close_boxes (boxes w i) ?w = Inr (?w\<lparr>w_box :=
      \<lambda>a. if a \<in> set (boxes w i) then (w_box w a)\<lparr>pr_done := True\<rparr> else w_box w a\<rparr>)"
    using close_boxes_open [of "boxes w i" ?w] s
    by (simp add: sess_ok_def list_all_iff sess_simps cong: if_cong)
  ultimately show ?thesis
    using assms(2)
    by (simp add: close_def close_pending_def torn_down_def boxes_def modify_sess_def)
qed

lemma torn_down_sel:
  "w_reg (torn_down i w) = w_reg w" "w_online (torn_down i w) = w_online w"
  "w_nbox (torn_down i w) = w_nbox w" "w_nsess (torn_down i w) = w_nsess w"
  "w_disk (torn_down i w) = w_disk w"
  "j \<noteq> i \<Longrightarrow> w_sess (torn_down i w) j = w_sess w j"
  "s_closed (w_sess (torn_down i w) i)" "s_done (w_sess (torn_down i w) i)"
  "s_pending (w_sess (torn_down i w) i) = []"
  "s_tun (w_sess (torn_down i w) j) = s_tun (w_sess w j)"
  "s_sendQ (w_sess (torn_down i w) j) = s_sendQ (w_sess w j)"
  "s_wire (w_sess (torn_down i w) j) = s_wire (w_sess w j)"
  by (simp_all add: torn_down_def sess_simps)

text \<open>Whether the tunnel that session \<open>i\<close> is bound to still points at it.\<close>

definition online_at :: "World \<Rightarrow> sid \<Rightarrow> bool" where
  "online_at w i = (case s_tun (w_sess w i) of
     None \<Rightarrow> False
   | Some tid \<Rightarrow> (case Get (w_reg w) tid of None \<Rightarrow> False | Some t \<Rightarrow> t_session t = Some i))"

lemma close_offline_sel:
  "w_sess (close_offline i w) = w_sess w" "w_box (close_offline i w) = w_box w"
  "w_nbox (close_offline i w) = w_nbox w" "w_nsess (close_offline i w) = w_nsess w"
  "w_disk (close_offline i w) = w_disk w"
  "w_online (close_offline i w) = w_online w - (if online_at w i then 1 else 0)"
  by (simp_all add: close_offline_def online_at_def sess_simps split: option.split)

lemma close_offline_reg:
  "w_reg (close_offline i w) =
     (if online_at w i then modify_tunnel (tunID i w) (\<lambda>t. t\<lparr>t_session := None\<rparr>) (w_reg w)
      else w_reg w)"
  by (simp add: close_offline_def online_at_def sess_simps tunID_def split: option.split)

text \<open>A pointer to a session is the one its binding names.\<close>

lemma pointer_bound:
  "world_ok w \<Longrightarrow> Get (w_reg w) tid = Some t \<Longrightarrow> t_session t = Some i \<Longrightarrow>
   online_at w i \<and> tunID i w = tid"
  by (drule (2) world_ok_ptr) (simp add: pointer_ok_def online_at_def tunID_def)

lemma close_offline_unlinks:
  assumes "world_ok w" and "w_reg v = w_reg w" and "s_tun (w_sess v i) = s_tun (w_sess w i)"
    and "Get (w_reg (close_offline i v)) tid = Some t"
  shows "t_session t \<noteq> Some i"
    and "t_session t = Some j \<Longrightarrow> \<exists>t0. Get (w_reg w) tid = Some t0 \<and> t_session t0 = Some j"
proof -
  have v: "online_at v i = online_at w i" "tunID i v = tunID i w"
    using assms(2,3) by (simp_all add: online_at_def tunID_def split: option.split)
  show "t_session t \<noteq> Some i"
    using assms(2,4) pointer_bound [OF assms(1)] v
    by (auto simp: close_offline_reg reg_simps split: if_splits)
  show "t_session t = Some j \<Longrightarrow> \<exists>t0. Get (w_reg w) tid = Some t0 \<and> t_session t0 = Some j"
    using assms(2,4) v by (auto simp: close_offline_reg reg_simps split: if_splits)
qed

lemma close_ok:
  assumes "world_ok w"
  obtains w' where "close i w = Inr w'" and "world_ok w'"
proof (cases "s_closed (w_sess w i)")
  case True
  then show ?thesis using that [of w] assms by (simp add: close_def)
next
  case False
  let ?v = "torn_down i w"
  let ?w = "close_offline i ?v"
  have s: "sess_ok w j" for j by (rule world_ok_sess [OF assms])
  have p: "s_pending (w_sess ?w j) = (if j = i then [] else s_pending (w_sess w j))" for j
    by (simp add: close_offline_sel torn_down_sel)
  have "world_ok ?w"
  proof (rule world_ok_shrink [OF assms])
    show "registry_ok (w_reg ?w)"
      using world_ok_reg [OF assms]
      by (simp add: close_offline_reg torn_down_sel registry_ok_modify)
    show "wf_dict (s_pending (w_sess ?w j)) \<and> distinct (boxes ?w j) \<and>
        set (boxes ?w j) \<subseteq> set (boxes w j)" for j
      using s [of j] p by (simp add: boxes_def sess_ok_def)
    show "s_done (w_sess ?w j) = s_closed (w_sess ?w j)" for j
      using s [of j] by (cases "j = i") (simp_all add: close_offline_sel torn_down_sel sess_ok_def)
  next
    fix j a
    assume a: "a \<in> set (boxes ?w j)"
    then have "j \<noteq> i" "a \<in> set (boxes w j)" using p [of j] by (auto simp: boxes_def split: if_splits)
    then have "a \<notin> set (boxes w i)" using world_ok_disj [OF assms] by blast
    then show "pr_done (w_box ?w a) = pr_done (w_box w a)"
      by (simp add: close_offline_sel torn_down_def sess_simps)
  next
    fix tid t j
    assume a: "Get (w_reg ?w) tid = Some t" "t_session t = Some j"
    then have "j \<noteq> i" and "\<exists>t0. Get (w_reg w) tid = Some t0 \<and> t_session t0 = Some j"
      using close_offline_unlinks [OF assms, of ?v i] torn_down_sel by metis+
    then show "pointer_ok ?w tid j"
      using world_ok_ptr [OF assms] by (auto simp: pointer_ok_def close_offline_sel torn_down_sel)
  qed (simp add: close_offline_sel torn_down_sel)
  then show ?thesis using that close_open [OF assms False] by blast
qed

text \<open>C19.  Closing an open session never panics; it sets \<open>done\<close> for the session and for each of its
  in-flight requests and for no other, empties its table, and leaves no tunnel pointing at it.
  A second close changes nothing.\<close>

theorem close_tears_down:
  assumes "world_ok w" and "\<not> s_closed (w_sess w i)"
  shows "\<exists>w'. close i w = Inr w' \<and> s_done (w_sess w' i) \<and> s_connClosed (w_sess w' i) \<and>
    s_pending (w_sess w' i) = [] \<and>
    (\<lambda>a. pr_done (w_box w' a)) = (\<lambda>a. pr_done (w_box w a) \<or> a \<in> set (boxes w i)) \<and>
    (\<lambda>a. pr_ch (w_box w' a)) = (\<lambda>a. pr_ch (w_box w a)) \<and>
    \<not> (\<exists>tid t. Get (w_reg w') tid = Some t \<and> t_session t = Some i) \<and>
    w_online w' = w_online w - (if online_at w i then 1 else 0) \<and> close i w' = Inr w'"
proof -
  let ?w = "close_offline i (torn_down i w)"
  have "online_at (torn_down i w) i = online_at w i"
    by (simp add: online_at_def torn_down_sel split: option.split)
  moreover have "w_online ?w = w_online w - (if online_at (torn_down i w) i then 1 else 0)"
    by (simp add: close_offline_sel torn_down_sel)
  moreover have "\<not> (\<exists>tid t. Get (w_reg ?w) tid = Some t \<and> t_session t = Some i)"
    using close_offline_unlinks(1) [OF assms(1), of "torn_down i w" i] torn_down_sel by metis
  moreover have "close i ?w = Inr ?w"
    by (simp add: close_def close_offline_sel torn_down_sel)
  moreover have "pr_done (w_box ?w a) \<longleftrightarrow> pr_done (w_box w a) \<or> a \<in> set (boxes w i)"
    "pr_ch (w_box ?w a) = pr_ch (w_box w a)" "s_connClosed (w_sess ?w i)" for a
    by (simp_all add: close_offline_sel torn_down_def sess_simps)
  ultimately show ?thesis
    using close_open [OF assms] by (simp add: close_offline_sel torn_down_sel fun_eq_iff)
qed

subsection \<open>The other operations\<close>

lemma world_ok_modify_sess:
  assumes "world_ok w" and "\<And>s. s_pending (g s) = s_pending s" and "\<And>s. s_closed (g s) = s_closed s"
    and "\<And>s. s_done (g s) = s_done s" and "\<And>s. s_tun (g s) = s_tun s"
  shows "world_ok (modify_sess i g w)"
  by (rule world_ok_cong [OF assms(1)]) (simp_all add: sess_simps assms(2-5))

lemma world_ok_modify_box:
  assumes "world_ok w" and "\<And>p. pr_done (h p) = pr_done p"
  shows "world_ok (modify_box a h w)"
  by (rule world_ok_cong [OF assms(1)]) (simp_all add: sess_simps assms(2))

lemma sendWithContext_cases:
  assumes "sendWithContext pick i f w = Some (e, w')"
  obtains (failed) x where "e = Some x" "w' = w"
  | (queued) "e = None" "\<not> s_closed (w_sess w i)" "length (s_sendQ (w_sess w i)) < sendQueueCap"
      "w' = modify_sess i (\<lambda>s. s\<lparr>s_sendQ := s_sendQ s @ [Marshal f]\<rparr>) w"
  using assms by (auto simp: sendWithContext_def Let_def split: if_splits send_pick.splits)

lemma send_cases:
  assumes "send pick i f w = Some (e, w')"
  obtains (failed) x where "e = Some x" "w' = w"
  | (queued) "e = None" "\<not> s_closed (w_sess w i)" "length (s_sendQ (w_sess w i)) < sendQueueCap"
      "w' = modify_sess i (\<lambda>s. s\<lparr>s_sendQ := s_sendQ s @ [Marshal f]\<rparr>) w"
  using assms unfolding send_def by (rule sendWithContext_cases)

lemma world_ok_send:
  "world_ok w \<Longrightarrow> sendWithContext pick i f w = Some (e, w') \<Longrightarrow> world_ok w'"
  by (erule sendWithContext_cases) (auto intro!: world_ok_modify_sess)

lemma world_ok_send5: "world_ok w \<Longrightarrow> send pick i f w = Some (e, w') \<Longrightarrow> world_ok w'"
  unfolding send_def by (rule world_ok_send)

lemma world_ok_NextReqID: "world_ok w \<Longrightarrow> NextReqID i w = Some (k, w') \<Longrightarrow> world_ok w'"
  by (auto simp: NextReqID_def intro!: world_ok_modify_sess split: option.splits)

lemma world_ok_route: "world_ok w \<Longrightarrow> routeResponse pick i f w = Some w' \<Longrightarrow> world_ok w'"
  by (auto simp: routeResponse_def intro!: world_ok_modify_box
      split: option.splits route_pick.splits if_splits)

lemma world_ok_touch: "world_ok w \<Longrightarrow> world_ok (touch now i w)"
  unfolding touch_def by (rule world_ok_modify_sess) simp_all

lemma world_ok_writer_exit: "world_ok w \<Longrightarrow> world_ok (writer_exit i w)"
  unfolding writer_exit_def by (rule world_ok_modify_sess) simp_all

lemma world_ok_writeTurn:
  assumes "world_ok w" and "writeTurn turn i w = Some (b, w')"
  shows "world_ok w'"
proof (cases turn)
  case (Dequeue ok)
  then show ?thesis
    using assms by (auto simp: writeTurn_def Let_def split: list.splits if_splits
        intro!: world_ok_writer_exit world_ok_modify_sess)
next
  case SeeDone
  then show ?thesis
    using assms by (auto simp: writeTurn_def Let_def split: if_splits intro: world_ok_writer_exit)
next
  case (Tick pick now)
  then show ?thesis
    using assms by (auto simp: writeTurn_def Let_def split: if_splits option.splits elim!: send_cases
        intro!: world_ok_writer_exit world_ok_modify_sess)
qed

section \<open>Mailboxes\<close>

text \<open>The relay handler's receive from \<open>pr.ch\<close>; it blocks on an empty channel.\<close>

definition receive :: "addr \<Rightarrow> World \<Rightarrow> (frame \<times> World) option" where
  "receive a w =
     (case pr_ch (w_box w a) of
        [] \<Rightarrow> None
      | f # q \<Rightarrow> Some (f, modify_box a (\<lambda>p. p\<lparr>pr_ch := q\<rparr>) w))"

lemma world_ok_receive: "world_ok w \<Longrightarrow> receive a w = Some (f, w') \<Longrightarrow> world_ok w'"
  by (auto simp: receive_def intro!: world_ok_modify_box split: list.splits)

datatype ('m, 'a) traffic = Deliver 'm | Take 'a

fun delivered :: "('m, 'a) traffic list \<Rightarrow> 'm list" where
  "delivered [] = []"
| "delivered (Deliver m # qs) = m # delivered qs"
| "delivered (Take a # qs) = delivered qs"

text \<open>One step of a run that also keeps what has been taken from each box so far.\<close>

fun traffic_step ::
    "('m \<Rightarrow> 'w \<Rightarrow> 'w option) \<Rightarrow> ('a \<Rightarrow> 'w \<Rightarrow> ('m \<times> 'w) option) \<Rightarrow> ('m, 'a) traffic
       \<Rightarrow> ('a \<Rightarrow> 'm list) \<times> 'w \<Rightarrow> (('a \<Rightarrow> 'm list) \<times> 'w) option" where
  "traffic_step deliver take_one (Deliver m) (got, w) = map_option (Pair got) (deliver m w)"
| "traffic_step deliver take_one (Take a) (got, w) =
     map_option (\<lambda>(m, w'). (got(a := got a @ [m]), w')) (take_one a w)"

text \<open>
  The contract of keyed mailboxes: a delivery goes to the end of the box that the message's key
  leads to, a receive takes the front of its box, and no other box is touched.  The client sees
  what went into a box come out of it in the same order, whatever else happens in between.
\<close>

locale mailbox =
  fixes inbox :: "'w \<Rightarrow> 'a \<Rightarrow> 'm list"
    and addr_of :: "'w \<Rightarrow> 'm \<Rightarrow> 'a option"
    and deliver :: "'m \<Rightarrow> 'w \<Rightarrow> 'w option"
    and take_one :: "'a \<Rightarrow> 'w \<Rightarrow> ('m \<times> 'w) option"
  assumes deliver_inbox: "deliver m w = Some w' \<Longrightarrow>
      inbox w' a = inbox w a @ (if addr_of w m = Some a then [m] else [])"
    and deliver_addr: "deliver m w = Some w' \<Longrightarrow> addr_of w' = addr_of w"
    and take_inbox: "take_one a w = Some (m, w') \<Longrightarrow>
      inbox w a = m # inbox w' a \<and> (\<forall>b. b \<noteq> a \<longrightarrow> inbox w' b = inbox w b)"
    and take_addr: "take_one a w = Some (m, w') \<Longrightarrow> addr_of w' = addr_of w"
begin

lemma traffic_conserved:
  "run_opt (traffic_step deliver take_one) qs (got, w) = Some (got', w') \<Longrightarrow>
     got' a @ inbox w' a =
       got a @ inbox w a @ filter (\<lambda>m. addr_of w m = Some a) (delivered qs)"
proof (induction qs arbitrary: got w)
  case (Cons q qs)
  show ?case
  proof (cases q)
    case (Deliver m)
    then obtain u where u: "deliver m w = Some u" "run_opt (traffic_step deliver take_one) qs (got, u) = Some (got', w')"
      using Cons.prems by (auto simp: bind_eq_Some_conv)
    show ?thesis
      using Cons.IH [OF u(2)] deliver_inbox [OF u(1), of a] deliver_addr [OF u(1)] Deliver by simp
  next
    case (Take b)
    then obtain m u where u: "take_one b w = Some (m, u)"
      "run_opt (traffic_step deliver take_one) qs (got(b := got b @ [m]), u) = Some (got', w')"
      using Cons.prems by (auto simp: bind_eq_Some_conv)
    show ?thesis
      using Cons.IH [OF u(2)] take_inbox [OF u(1)] take_addr [OF u(1)] Take by (cases "a = b") auto
  qed
qed simp

end

definition pending_addr :: "sid \<Rightarrow> World \<Rightarrow> frame \<Rightarrow> addr option" where
  "pending_addr i w f = map_of (s_pending (w_sess w i)) (f_ReqID f)"

interpretation mbox: mailbox "\<lambda>w a. pr_ch (w_box w a)" "pending_addr i"
  "routeResponse PickDeliver i" receive for i
proof unfold_locales
  fix f w w' a
  assume d: "routeResponse PickDeliver i f w = Some w'"
  show "pr_ch (w_box w' a) = pr_ch (w_box w a) @ (if pending_addr i w f = Some a then [f] else [])"
    using d by (auto simp: routeResponse_def pending_addr_def sess_simps split: option.splits if_splits)
  show "pending_addr i w' = pending_addr i w"
    using d by (auto simp: routeResponse_def pending_addr_def sess_simps fun_eq_iff
        split: option.splits if_splits)
next
  fix a w f w'
  assume "receive a w = Some (f, w')"
  then show "pr_ch (w_box w a) = f # pr_ch (w_box w' a) \<and>
      (\<forall>b. b \<noteq> a \<longrightarrow> pr_ch (w_box w' b) = pr_ch (w_box w b))"
    and "pending_addr i w' = pending_addr i w"
    by (auto simp: receive_def pending_addr_def sess_simps fun_eq_iff split: list.splits)
qed

lemma pending_addr_inj:
  assumes "world_ok w" and "map_of (s_pending (w_sess w i)) k = Some a"
  shows "pending_addr i w f = Some a \<longleftrightarrow> f_ReqID f = k"
proof
  assume f: "pending_addr i w f = Some a"
  have "distinct (map snd (s_pending (w_sess w i)))"
    using world_ok_sess [OF assms(1)] by (simp add: sess_ok_def boxes_def)
  then show "f_ReqID f = k"
    using map_of_SomeD [OF assms(2)] map_of_SomeD [OF f [unfolded pending_addr_def]]
    by (metis distinct_map inj_onD prod.inject snd_conv)
qed (use assms in \<open>simp add: pending_addr_def\<close>)

text \<open>C12.  No crossed wires.  However the session's reader and the relay handlers interleave, a handler
  has received, with what still waits for it, exactly the response frames that carry its request
  ID, in the order in which they came: none lost, none doubled, none of another request.\<close>

theorem responses_in_order:
  assumes "world_ok w" and "map_of (s_pending (w_sess w i)) k = Some a"
    and "run_opt (traffic_step (routeResponse PickDeliver i) receive) qs (\<lambda>_. [], w) = Some (got, w')"
  shows "got a @ pr_ch (w_box w' a) =
    pr_ch (w_box w a) @ filter (\<lambda>f. f_ReqID f = k) (delivered qs)"
  using mbox.traffic_conserved [OF assms(3), of a] pending_addr_inj [OF assms(1,2)]
  by (simp cong: filter_cong)

section \<open>The single writer\<close>

datatype io_op = Enqueue send_pick frame | Writer write_turn

text \<open>Producers and the writer of session \<open>i\<close>, with the list of frames accepted so far; the writer
  takes no turn once it has exited.\<close>

definition accepted_by :: "write_turn \<Rightarrow> bool \<Rightarrow> json list" where
  "accepted_by turn b = (case turn of Tick _ now \<Rightarrow> if b then [Marshal (frame_ping now)] else [] | _ \<Rightarrow> [])"

fun io_step :: "sid \<Rightarrow> io_op \<Rightarrow> json list \<times> World \<Rightarrow> (json list \<times> World) option" where
  "io_step i (Enqueue pick f) (log, w) =
     (case sendWithContext pick i f w of
        None \<Rightarrow> None
      | Some (e, w') \<Rightarrow> Some (if e = None then log @ [Marshal f] else log, w'))"
| "io_step i (Writer turn) (log, w) =
     (if s_writeDone (w_sess w i) then None
      else case writeTurn turn i w of
             None \<Rightarrow> None
           | Some (b, w') \<Rightarrow> Some (log @ accepted_by turn b, w'))"

definition in_order :: "sid \<Rightarrow> json list \<times> World \<Rightarrow> bool" where
  "in_order i st \<longleftrightarrow> (case st of (log, w) \<Rightarrow>
     (\<exists>lost. log = s_wire (w_sess w i) @ lost @ s_sendQ (w_sess w i) \<and>
       (lost = [] \<or> s_writeDone (w_sess w i))))"

interpretation writer: stable "io_step i" "in_order i" for i
proof unfold_locales
  fix st q st'
  assume inv: "in_order i st" and step: "io_step i q st = Some st'"
  obtain log w log' w' where st: "st = (log, w)" and st': "st' = (log', w')" by fastforce
  show "in_order i st'"
  proof (cases q)
    case (Enqueue pick f)
    then show ?thesis
      using inv step st st'
      by (auto simp: in_order_def sess_simps elim!: sendWithContext_cases split: option.splits)
  next
    case (Writer turn)
    then show ?thesis
      using inv step st st'
      by (cases turn) (auto simp: in_order_def sess_simps writeTurn_def accepted_by_def Let_def
          writer_exit_def elim!: send_cases split: option.splits list.splits if_splits)
  qed
qed

text \<open>C13.  The wire carries the accepted frames in the order in which they were accepted.  Nothing is
  lost while the writer runs; a frame whose write fails ends it.\<close>

theorem wire_in_order:
  assumes "s_wire (w_sess w i) = []" and "s_sendQ (w_sess w i) = []"
    and "run_opt (io_step i) qs ([], w) = Some (log, w')"
  shows "\<exists>lost. log = s_wire (w_sess w' i) @ lost @ s_sendQ (w_sess w' i) \<and>
    (lost = [] \<or> s_writeDone (w_sess w' i))"
  using writer.run_keeps [OF _ assms(3)] assms(1,2) by (simp add: in_order_def)

text \<open>A keepalive tick with a full queue: the writer waits for room in the queue that only it
  empties, so it can only time out, and then it exits with the session still open: nothing will
  be written any more, while the tunnel stays listed as online.\<close>

theorem full_queue_kills_writer:
  assumes "\<not> s_closed (w_sess w i)" and "\<not> s_done (w_sess w i)"
    and "length (s_sendQ (w_sess w i)) = sendQueueCap"
    and "writeTurn (Tick pick now) i w = Some (goes_on, w')"
  shows "\<not> goes_on \<and> w' = writer_exit i w \<and> s_writeDone (w_sess w' i) \<and>
    \<not> s_closed (w_sess w' i) \<and> online_at w' i = online_at w i"
  using assms
  by (auto simp: writeTurn_def Let_def send_def sendWithContext_def with_deadline_def writer_exit_def
      online_at_def sess_simps split: if_splits send_pick.splits option.splits)

section \<open>Witnesses\<close>

definition empty_world :: "Registry \<Rightarrow> World" where
  "empty_world r = \<lparr>w_sess = \<lambda>_. fresh_session 0 [], w_nsess = 0, w_box = \<lambda>_. \<lparr>pr_ch = [], pr_done = False\<rparr>,
     w_nbox = 0, w_reg = r, w_disk = Map.empty, w_online = 0\<rparr>"

lemma world_ok_empty:
  assumes "registry_ok r" and "\<And>tid t. Get r tid = Some t \<Longrightarrow> t_session t = None"
  shows "world_ok (empty_world r)"
  using assms
  by (auto simp: world_ok_def empty_world_def sess_ok_def boxes_def fresh_session_def dest: assms(2))

definition demo_world :: World where
  "demo_world = snd (RegisterPending 0 1 (snd (newSession 5 ''10.0.0.1:99''
     (empty_world (NewRegistry ''tunnels.json'')))))"

lemma demo_world_ok: "world_ok demo_world"
  unfolding demo_world_def
  by (intro world_ok_register world_ok_newSession world_ok_empty NewRegistry_ok)
    (simp add: Get_def NewRegistry_def)

lemma demo_world_sel [simp]:
  "s_pending (w_sess demo_world 0) = [(1, 0)]" "s_closed (w_sess demo_world 0) = False"
  "s_done (w_sess demo_world 0) = False" "s_sendQ (w_sess demo_world 0) = []"
  "s_wire (w_sess demo_world 0) = []" "s_writeDone (w_sess demo_world 0) = False"
  "s_tun (w_sess demo_world 0) = None" "s_nextID (w_sess demo_world 0) = 0"
  "w_box demo_world a = \<lparr>pr_ch = [], pr_done = False\<rparr>"
  by (simp_all add: demo_world_def RegisterPending_def newSession_def fresh_session_def Let_def
      sess_simps empty_world_def)

theorem NextReqID_fresh_witness:
  "\<exists>k w'. NextReqID 0 demo_world = Some (k, w') \<and> \<not> in_flight (w_sess demo_world 0) k"
  using NextReqID_fresh [of demo_world 0] by auto

theorem close_tears_down_witness:
  "\<exists>w'. close 0 demo_world = Inr w' \<and> s_done (w_sess w' 0) \<and> pr_done (w_box w' 0) \<and>
     close 0 w' = Inr w'"
  using close_tears_down [OF demo_world_ok, of 0] by (auto simp: boxes_def fun_eq_iff)

definition demo_frame :: "reqid \<Rightarrow> string \<Rightarrow> frame" where
  "demo_frame k d = zero_frame\<lparr>f_Type := ''response_chunk'', f_ReqID := k, f_Data := d\<rparr>"

theorem responses_in_order_witness:
  "\<exists>got w'. run_opt (traffic_step (routeResponse PickDeliver 0) receive)
      [Deliver (demo_frame 1 ''YQ==''), Deliver (demo_frame 2 ''Yg==''), Take 0,
       Deliver (demo_frame 1 ''Yw=='')] (\<lambda>_. [], demo_world) = Some (got, w') \<and>
     got 0 @ pr_ch (w_box w' 0) = [demo_frame 1 ''YQ=='', demo_frame 1 ''Yw=='']"
proof -
  let ?qs = "[Deliver (demo_frame 1 ''YQ==''), Deliver (demo_frame 2 ''Yg==''), Take 0,
    Deliver (demo_frame 1 ''Yw=='')] :: (frame, addr) traffic list"
  have "\<exists>got w'. run_opt (traffic_step (routeResponse PickDeliver 0) receive) ?qs
      (\<lambda>_. [], demo_world) = Some (got, w')"
    by (simp add: routeResponse_def receive_def demo_frame_def zero_frame_def mailboxCap_def sess_simps)
  then obtain got w' where r: "run_opt (traffic_step (routeResponse PickDeliver 0) receive) ?qs
      (\<lambda>_. [], demo_world) = Some (got, w')" by blast
  have "map_of (s_pending (w_sess demo_world 0)) 1 = Some 0" by simp
  from responses_in_order [OF demo_world_ok this r]
  have "got 0 @ pr_ch (w_box w' 0) = [demo_frame 1 ''YQ=='', demo_frame 1 ''Yw=='']"
    by (simp add: demo_frame_def zero_frame_def)
  with r show ?thesis by blast
qed

theorem wire_in_order_witness:
  "\<exists>log w'. run_opt (io_step 0) [Enqueue PickSend (demo_frame 1 []), Writer (Tick PickSend 9),
      Writer (Dequeue True)] ([], demo_world) = Some (log, w') \<and>
     (\<exists>lost. log = s_wire (w_sess w' 0) @ lost @ s_sendQ (w_sess w' 0) \<and>
       (lost = [] \<or> s_writeDone (w_sess w' 0)))"
proof -
  have "\<exists>log w'. run_opt (io_step 0) [Enqueue PickSend (demo_frame 1 []), Writer (Tick PickSend 9),
      Writer (Dequeue True)] ([], demo_world) = Some (log, w')"
    by (simp add: sendWithContext_def writeTurn_def send_def with_deadline_def Let_def
        sendQueueCap_def sess_simps)
  then show ?thesis using wire_in_order [of demo_world 0] demo_world_sel by blast
qed

theorem full_queue_kills_writer_witness:
  "let w = modify_sess 0 (\<lambda>s. s\<lparr>s_sendQ := replicate 256 (Marshal (demo_frame 1 []))\<rparr>) demo_world
   in writeTurn (Tick (PickCtx ''timeout'') 9) 0 w = Some (False, writer_exit 0 w) \<and>
      \<not> s_closed (w_sess (writer_exit 0 w) 0)"
proof -
  let ?w = "modify_sess 0 (\<lambda>s. s\<lparr>s_sendQ := replicate 256 (Marshal (demo_frame 1 []))\<rparr>) demo_world"
  have q: "length (s_sendQ (w_sess ?w 0)) = sendQueueCap" and o: "\<not> s_closed (w_sess ?w 0)"
    and d: "\<not> s_done (w_sess ?w 0)"
    by (simp_all add: sendQueueCap_def sess_simps)
  have "writeTurn (Tick (PickCtx ''timeout'') 9) 0 ?w = Some (False, writer_exit 0 ?w)"
    using o by (simp add: writeTurn_def send_def sendWithContext_def with_deadline_def)
  with full_queue_kills_writer [OF o d q this] show ?thesis by (simp add: Let_def)
qed

end
