(* ===== verification/Server.thy ===== *)
theory Server
  imports Session
begin

text \<open>
  The server around the sessions (\<open>internal/server/server.go\<close>, the read loop of
  \<open>internal/server/tunnel.go\<close>, \<open>internal/server/lifecycle.go\<close>): origin check, routing, the hello
  handshake with kick of the previous session, dispatch of received frames, the stats poll, the
  health report, start and stop of the listener.

  What a handler takes from outside during one frame is an \<open>env\<close>: the map order and the file
  outcomes of a save, the clock, the random draws, and the branch its sends take.  A result is
  \<open>None\<close> while the goroutine is blocked, and \<open>Some (Inl p)\<close> when it panics.
\<close>

section \<open>Origin and routes\<close>

text \<open>\<open>r.Header.Get\<close> gives the empty string for a missing header.\<close>

definition checkOrigin :: "string list \<Rightarrow> string \<Rightarrow> bool" where
  "checkOrigin allowed origin \<longleftrightarrow>
     origin \<noteq> [] \<and> list_ex (\<lambda>p. p = ''*'' \<or> HasPrefix origin p) allowed"

datatype route = RouteTunnel | RouteHealthz | RouteRelay

definition Mux :: "(string \<times> route) list" where
  "Mux = [(''/ws/tunnel'', RouteTunnel), (''/healthz'', RouteHealthz), (''/t/'', RouteRelay)]"

text \<open>\<open>http.ServeMux\<close> on a clean path: the exact pattern, else the longest pattern that ends in a
  slash and is a prefix of the path.\<close>

definition serve_mux :: "(string \<times> route) list \<Rightarrow> string \<Rightarrow> route option" where
  "serve_mux pats path =
     (case map_of pats path of
        Some h \<Rightarrow> Some h
      | None \<Rightarrow>
          (case sort_key (\<lambda>(p, h). - int (length p))
                  (filter (\<lambda>(p, h). HasSuffix p ''/'' \<and> HasPrefix path p) pats) of
             [] \<Rightarrow> None
           | (p, h) # _ \<Rightarrow> Some h))"

section \<open>The hello handshake\<close>

record env =
  e_iter :: "tunnels \<Rightarrow> tunnels"
  e_io :: save_io
  e_now :: int
  e_draws :: "draw list"
  e_ack :: send_pick
  e_reject :: send_pick

definition hello_ack :: "string \<Rightarrow> bool \<Rightarrow> bool \<Rightarrow> string \<Rightarrow> frame" where
  "hello_ack tid reused denied secret =
     zero_frame\<lparr>f_Type := ''hello_ack'', f_Ok := True, f_TunnelID := tid, f_IDReused := reused,
       f_DesiredDenied := denied, f_Secret := (if \<not> reused \<and> secret \<noteq> [] then secret else [])\<rparr>"

definition hello_nack :: "string \<Rightarrow> frame" where
  "hello_nack reason = zero_frame\<lparr>f_Type := ''hello_ack'', f_Ok := False, f_Error := reason\<rparr>"

text \<open>\<open>sess.tun = tun\<close> and \<open>tun.session.Swap(sess)\<close>: the previous session, and the new state.\<close>

definition swap_session :: "sid \<Rightarrow> string \<Rightarrow> World \<Rightarrow> sid option \<times> World" where
  "swap_session i tid w =
     (Option.bind (Get (w_reg w) tid) t_session,
      modify_reg (modify_tunnel tid (\<lambda>t. t\<lparr>t_session := Some i\<rparr>))
        (modify_sess i (\<lambda>s. s\<lparr>s_tun := Some tid\<rparr>) w))"

definition kick :: "sid option \<Rightarrow> sid \<Rightarrow> World \<Rightarrow> panic + World" where
  "kick old i w = (case old of Some j \<Rightarrow> if j \<noteq> i then close j w else Inr w | None \<Rightarrow> Inr w)"

definition handleHello ::
    "env \<Rightarrow> sid \<Rightarrow> frame \<Rightarrow> World \<Rightarrow> (panic + go_error option \<times> World) option" where
  "handleHello en i f w =
     (case Register (e_iter en) (e_io en) (e_now en) (e_draws en) (f_DesiredId f) (f_Secret f)
             (w_reg w) (w_disk w) of
        None \<Rightarrow> None
      | Some (Inl e, r', dk') \<Rightarrow> Some (Inr (Some e, w\<lparr>w_reg := r', w_disk := dk'\<rparr>))
      | Some (Inr (tid, reused, denied, secret), r', dk') \<Rightarrow>
          (case swap_session i tid (w\<lparr>w_reg := r', w_disk := dk'\<rparr>) of
             (old, w1) \<Rightarrow>
               (case kick old i w1 of
                  Inl p \<Rightarrow> Some (Inl p)
                | Inr w2 \<Rightarrow>
                    map_option Inr
                      (send (e_ack en) i (hello_ack tid reused denied secret)
                         (w2\<lparr>w_online := w_online w2 + 1\<rparr>)))))"

section \<open>The read loop\<close>

text \<open>What the loop does after a frame.\<close>

datatype loop_out = Continue | Return

definition reject :: "env \<Rightarrow> sid \<Rightarrow> string \<Rightarrow> World \<Rightarrow> (panic + loop_out \<times> World) option" where
  "reject en i reason w =
     map_option (\<lambda>(e, w'). Inr (Return, w')) (send (e_reject en) i (hello_nack reason) w)"

definition onHello :: "env \<Rightarrow> sid \<Rightarrow> frame \<Rightarrow> World \<Rightarrow> (panic + loop_out \<times> World) option" where
  "onHello en i f w =
     (if s_helloDone (w_sess w i) then Some (Inr (Continue, w))
      else if f_Version f \<noteq> HelloVersion then reject en i ''version mismatch'' w
      else case handleHello en i f w of
             None \<Rightarrow> None
           | Some (Inl p) \<Rightarrow> Some (Inl p)
           | Some (Inr (Some e, w')) \<Rightarrow> reject en i e w'
           | Some (Inr (None, w')) \<Rightarrow>
               Some (Inr (Continue, modify_sess i (\<lambda>s. s\<lparr>s_helloDone := True\<rparr>) w')))"

definition onStats :: "env \<Rightarrow> sid \<Rightarrow> frame \<Rightarrow> World \<Rightarrow> World" where
  "onStats en i f w =
     (if f_Target f = [] then w
      else case s_tun (w_sess w i) of
             None \<Rightarrow> w
           | Some tid \<Rightarrow>
               (let w1 = modify_reg (modify_tunnel tid (tunnel_SetTarget (f_Target f))) w
                in w1\<lparr>w_disk := snd (saveLocked (e_iter en) (e_io en) (w_reg w1) (w_disk w1))\<rparr>))"

definition is_response :: "frame \<Rightarrow> bool" where
  "is_response f \<longleftrightarrow> f_Type f \<in> set [''response_start'', ''response_chunk'', ''response_end'']"

text \<open>One received message, \<open>None\<close> where it is not JSON.\<close>

definition readTurn ::
    "env \<Rightarrow> route_pick \<Rightarrow> json option \<Rightarrow> sid \<Rightarrow> World \<Rightarrow> (panic + loop_out \<times> World) option" where
  "readTurn en rp data i w =
     (let w1 = touch (e_now en) i w in
      case Unmarshal data zero_frame of
        None \<Rightarrow> Some (Inr (Continue, w1))
      | Some f \<Rightarrow>
          if f_Type f = ''hello'' then onHello en i f w1
          else if f_Type f = ''stats'' then Some (Inr (Continue, onStats en i f w1))
          else if is_response f then map_option (\<lambda>w2. Inr (Continue, w2)) (routeResponse rp i f w1)
          else Some (Inr (Continue, w1)))"

text \<open>The loop returns; \<open>Run\<close> closes the session, and so does the deferred call.\<close>

definition readEnd :: "sid \<Rightarrow> World \<Rightarrow> panic + World" where
  "readEnd i w =
     (case close i w of
        Inl p \<Rightarrow> Inl p
      | Inr w1 \<Rightarrow> close i (modify_sess i (\<lambda>s. s\<lparr>s_reading := False\<rparr>) w1))"

definition readStep :: "env \<Rightarrow> route_pick \<Rightarrow> json option \<Rightarrow> sid \<Rightarrow> World \<Rightarrow> (panic + World) option" where
  "readStep en rp data i w =
     (case readTurn en rp data i w of
        None \<Rightarrow> None
      | Some (Inl p) \<Rightarrow> Some (Inl p)
      | Some (Inr (Continue, w')) \<Rightarrow> Some (Inr w')
      | Some (Inr (Return, w')) \<Rightarrow> Some (readEnd i w'))"

section \<open>Polling and health\<close>

text \<open>\<open>t.Session()\<close> reads the pointer at the moment of the call.\<close>

definition live_session :: "Tunnel \<Rightarrow> World \<Rightarrow> sid option" where
  "live_session t w = Option.bind (Get (w_reg w) (t_ID t)) t_session"

fun poll :: "(sid \<Rightarrow> send_pick) \<Rightarrow> Tunnel list \<Rightarrow> World \<Rightarrow> World option" where
  "poll picks [] w = Some w"
| "poll picks (t # ts) w =
     (case live_session t w of
        None \<Rightarrow> poll picks ts w
      | Some i \<Rightarrow>
          (case send (picks i) i (zero_frame\<lparr>f_Type := ''get_stats''\<rparr>) w of
             None \<Rightarrow> None
           | Some (_, w') \<Rightarrow> poll picks ts w'))"

definition PollStats :: "(tunnels \<Rightarrow> tunnels) \<Rightarrow> (sid \<Rightarrow> send_pick) \<Rightarrow> World \<Rightarrow> World option" where
  "PollStats iter picks w = poll picks (List_tunnels iter (w_reg w)) w"

definition handleHealthz :: "World \<Rightarrow> json" where
  "handleHealthz w =
     JObj [(''ok'', JBool True), (''online'', JNum (w_online w)),
           (''tunnels'', JNum (int (Count (w_reg w))))]"

section \<open>The application\<close>

text \<open>The listener and \<open>http.Server\<close> of an \<open>App\<close>, by the address that was resolved.\<close>

record App =
  a_addr :: string
  a_tls :: bool
  a_ln :: "string option"

definition NewApp :: "string \<Rightarrow> string \<Rightarrow> string \<Rightarrow> App" where
  "NewApp addr certFile keyFile =
     \<lparr>a_addr = addr, a_tls = (certFile \<noteq> [] \<and> keyFile \<noteq> []), a_ln = None\<rparr>"

text \<open>\<open>listen\<close> is what \<open>net.Listen\<close> gives: an error or the resolved address.\<close>

definition Start :: "(string \<Rightarrow> go_error + string) \<Rightarrow> App \<Rightarrow> go_error option \<times> App" where
  "Start listen a =
     (if a_ln a \<noteq> None then (Some ''server already running'', a)
      else case listen (a_addr a) of
             Inl e \<Rightarrow> (Some e, a)
           | Inr resolved \<Rightarrow> (None, a\<lparr>a_ln := Some resolved\<rparr>))"

definition Addr :: "App \<Rightarrow> string" where
  "Addr a = (case a_ln a of None \<Rightarrow> [] | Some ad \<Rightarrow> ad)"

definition Running :: "App \<Rightarrow> bool" where
  "Running a \<longleftrightarrow> a_ln a \<noteq> None"

fun close_online :: "Tunnel list \<Rightarrow> World \<Rightarrow> panic + World" where
  "close_online [] w = Inr w"
| "close_online (t # ts) w =
     (case live_session t w of
        None \<Rightarrow> close_online ts w
      | Some i \<Rightarrow> (case close i w of Inl p \<Rightarrow> Inl p | Inr w' \<Rightarrow> close_online ts w'))"

text \<open>\<open>shutdown\<close> is the result of \<open>http.Server.Shutdown\<close> under the caller's deadline.\<close>

definition Stop ::
    "(tunnels \<Rightarrow> tunnels) \<Rightarrow> go_error option \<Rightarrow> App \<Rightarrow> World \<Rightarrow> panic + go_error option \<times> App \<times> World" where
  "Stop iter shutdown a w =
     (if a_ln a = None then Inr (None, a, w)
      else case close_online (List_tunnels iter (w_reg w)) w of
             Inl p \<Rightarrow> Inl p
           | Inr w' \<Rightarrow> Inr (shutdown, a\<lparr>a_ln := None\<rparr>, w'))"

section \<open>Steps of the server\<close>

datatype server_op =
    Connect int string
  | Read env route_pick "json option" sid
  | ReadFail sid
  | Pong int sid
  | Write write_turn sid
  | RelayID sid
  | RelayRegister sid reqid
  | RelayUnregister sid reqid
  | RelaySend send_pick sid frame
  | RelayCount string
  | RelayReceive addr
  | Poll "tunnels \<Rightarrow> tunnels" "sid \<Rightarrow> send_pick"
  | Disconnect sid

definition running :: "sid \<Rightarrow> World \<Rightarrow> bool" where
  "running i w \<longleftrightarrow> i < w_nsess w \<and> s_reading (w_sess w i)"

text \<open>A session can be disconnected from outside once a tunnel has pointed at it.\<close>

fun server_exec :: "server_op \<Rightarrow> World \<Rightarrow> (panic + World) option" where
  "server_exec (Connect now remote) w = Some (Inr (snd (newSession now remote w)))"
| "server_exec (Read en rp data i) w = (if running i w then readStep en rp data i w else None)"
| "server_exec (ReadFail i) w = (if running i w then Some (readEnd i w) else None)"
| "server_exec (Pong now i) w = (if running i w then Some (Inr (touch now i w)) else None)"
| "server_exec (Write turn i) w =
     (if s_writeDone (w_sess w i) then None
      else map_option (\<lambda>(b, w'). Inr w') (writeTurn turn i w))"
| "server_exec (RelayID i) w = map_option (\<lambda>(k, w'). Inr w') (NextReqID i w)"
| "server_exec (RelayRegister i k) w = Some (Inr (snd (RegisterPending i k w)))"
| "server_exec (RelayUnregister i k) w = Some (UnregisterPending i k w)"
| "server_exec (RelaySend pick i f) w = map_option (\<lambda>(e, w'). Inr w') (sendWithContext pick i f w)"
| "server_exec (RelayCount tid) w =
     Some (Inr (modify_reg (modify_tunnel tid (\<lambda>t. t\<lparr>t_reqCount := t_reqCount t + 1\<rparr>)) w))"
| "server_exec (RelayReceive a) w = map_option (\<lambda>(f, w'). Inr w') (receive a w)"
| "server_exec (Poll iter picks) w = map_option Inr (PollStats iter picks w)"
| "server_exec (Disconnect i) w = (if s_tun (w_sess w i) = None then None else Some (close i w))"

text \<open>The states of a server started on a registry none of whose tunnels is online, and on any disk.\<close>

inductive reachable :: "World \<Rightarrow> bool" where
  start: "registry_ok r \<Longrightarrow> \<forall>tid t. Get r tid = Some t \<longrightarrow> t_session t = None \<Longrightarrow>
     reachable ((empty_world r)\<lparr>w_disk := dk\<rparr>)"
| step: "reachable w \<Longrightarrow> server_exec q w = Some (Inr w') \<Longrightarrow> reachable w'"

section \<open>The server's invariant\<close>

text \<open>A session whose reader still waits for the hello is open and bound to no tunnel.\<close>

definition greet_ok :: "World \<Rightarrow> sid \<Rightarrow> bool" where
  "greet_ok w i \<longleftrightarrow> (s_reading (w_sess w i) \<and> \<not> s_helloDone (w_sess w i) \<longrightarrow>
     \<not> s_closed (w_sess w i) \<and> s_tun (w_sess w i) = None)"

definition server_ok :: "World \<Rightarrow> bool" where
  "server_ok w \<longleftrightarrow> world_ok w \<and> (\<forall>i. greet_ok w i)"

text \<open>\<open>w'\<close> differs from \<open>w\<close> in nothing that the greeting or the counting of sessions looks at.\<close>

definition same_sessions :: "World \<Rightarrow> World \<Rightarrow> bool" where
  "same_sessions w w' \<longleftrightarrow> w_nsess w' = w_nsess w \<and> w_online w' = w_online w \<and> w_reg w' = w_reg w \<and>
     (\<forall>i. s_reading (w_sess w' i) = s_reading (w_sess w i) \<and>
        s_helloDone (w_sess w' i) = s_helloDone (w_sess w i) \<and>
        s_closed (w_sess w' i) = s_closed (w_sess w i) \<and> s_tun (w_sess w' i) = s_tun (w_sess w i))"

lemma same_sessions_refl [simp]: "same_sessions w w"
  by (simp add: same_sessions_def)

lemma same_sessions_trans: "same_sessions u v \<Longrightarrow> same_sessions v w \<Longrightarrow> same_sessions u w"
  by (simp add: same_sessions_def)

lemma same_sessions_greet: "same_sessions w w' \<Longrightarrow> greet_ok w' i = greet_ok w i"
  by (simp add: same_sessions_def greet_ok_def)

lemma same_sessions_modify:
  assumes "\<And>s. s_reading (g s) = s_reading s" and "\<And>s. s_helloDone (g s) = s_helloDone s"
    and "\<And>s. s_closed (g s) = s_closed s" and "\<And>s. s_tun (g s) = s_tun s"
  shows "same_sessions w (modify_sess i g w)"
  by (simp add: same_sessions_def sess_simps assms)

lemma same_sessions_box: "same_sessions w (modify_box a h w)"
  by (simp add: same_sessions_def sess_simps)

lemma same_sessions_send: "sendWithContext pick i f w = Some (e, w') \<Longrightarrow> same_sessions w w'"
  by (erule sendWithContext_cases) (auto intro: same_sessions_modify)

lemma same_sessions_send5: "send pick i f w = Some (e, w') \<Longrightarrow> same_sessions w w'"
  unfolding send_def by (rule same_sessions_send)

lemma same_sessions_touch: "same_sessions w (touch now i w)"
  unfolding touch_def by (rule same_sessions_modify) simp_all

lemma same_sessions_exit: "same_sessions w (writer_exit i w)"
  unfolding writer_exit_def by (rule same_sessions_modify) simp_all

lemma same_sessions_route: "routeResponse rp i f w = Some w' \<Longrightarrow> same_sessions w w'"
  by (auto simp: routeResponse_def intro: same_sessions_box
      split: option.splits route_pick.splits if_splits)

lemma same_sessions_writeTurn:
  assumes "writeTurn turn i w = Some (b, w')"
  shows "same_sessions w w'"
proof (cases turn)
  case (Dequeue ok)
  then show ?thesis
    using assms by (auto simp: writeTurn_def Let_def same_sessions_def writer_exit_def sess_simps
        split: list.splits if_splits)
next
  case SeeDone
  with assms show ?thesis by (auto simp: writeTurn_def Let_def split: if_splits intro: same_sessions_exit)
next
  case (Tick pick now)
  with assms show ?thesis
    by (auto simp: writeTurn_def Let_def same_sessions_def writer_exit_def sess_simps
        split: if_splits option.splits elim!: send_cases)
qed

lemma same_sessions_poll: "poll picks ts w = Some w' \<Longrightarrow> same_sessions w w'"
  by (induction ts arbitrary: w)
    (auto split: option.splits dest!: same_sessions_send5 intro: same_sessions_trans)

lemma world_ok_poll: "world_ok w \<Longrightarrow> poll picks ts w = Some w' \<Longrightarrow> world_ok w'"
  by (induction ts arbitrary: w) (auto split: option.splits dest: world_ok_send5)

section \<open>Closing and counting\<close>

text \<open>How many tunnels have a session, and by how much the counter is off.\<close>

definition online_tunnels :: "Registry \<Rightarrow> nat" where
  "online_tunnels r = length (filter (\<lambda>(i, t). t_session t \<noteq> None) (rg_tunnels r))"

definition drift :: "World \<Rightarrow> int" where
  "drift w = w_online w - int (online_tunnels (w_reg w))"

lemma online_put:
  assumes "wf_dict (rg_tunnels r)"
  shows "int (online_tunnels (put_tunnel i t r)) = int (online_tunnels r)
    + (if t_session t = None then 0 else 1)
    - (if Option.bind (Get r i) t_session = None then 0 else 1)"
proof -
  have "int (length (filter (\<lambda>(i, t). t_session t \<noteq> None) (AList.update i t d))) =
      int (length (filter (\<lambda>(i, t). t_session t \<noteq> None) d)) + (if t_session t = None then 0 else 1)
      - (if Option.bind (map_of d i) t_session = None then 0 else 1)" if "wf_dict d" for d
    using that
  proof (induction d)
    case (Cons p d)
    obtain j u where p: "p = (j, u)" by fastforce
    have "i \<notin> fst ` set d \<Longrightarrow> map_of d i = None" by (simp add: map_of_eq_None_iff)
    with Cons show ?case by (auto simp: p)
  qed simp
  with assms show ?thesis by (simp add: online_tunnels_def put_tunnel_def Get_def)
qed

lemma online_modify:
  assumes "wf_dict (rg_tunnels r)" and "Get r i = Some t"
  shows "int (online_tunnels (modify_tunnel i g r)) = int (online_tunnels r)
    + (if t_session (g t) = None then 0 else 1) - (if t_session t = None then 0 else 1)"
  using online_put [OF assms(1), of i "g t"] assms(2) by (simp add: modify_tunnel_def)

lemma online_modify_same:
  assumes "registry_ok r" and "\<And>t. t_session (g t) = t_session t"
  shows "online_tunnels (modify_tunnel i g r) = online_tunnels r"
proof (cases "Get r i")
  case (Some t)
  with online_modify [OF _ Some, of g] assms show ?thesis by (simp add: registry_ok_def)
qed (simp add: modify_tunnel_def)

lemma close_eq:
  "world_ok w \<Longrightarrow>
   close i w = Inr (if s_closed (w_sess w i) then w else close_offline i (torn_down i w))"
  by (simp add: close_open) (simp add: close_def)

lemma world_ok_close: "world_ok w \<Longrightarrow> close i w = Inr w' \<Longrightarrow> world_ok w'"
  using close_ok [of w i] by (metis sum.inject(2))

lemma torn_down_flags:
  "s_reading (w_sess (torn_down i w) j) = s_reading (w_sess w j)"
  "s_helloDone (w_sess (torn_down i w) j) = s_helloDone (w_sess w j)"
  by (simp_all add: torn_down_def sess_simps)

lemma close_frame:
  assumes "world_ok w" and "close i w = Inr w'"
  shows "w_nsess w' = w_nsess w" and "s_reading (w_sess w' j) = s_reading (w_sess w j)"
    and "s_helloDone (w_sess w' j) = s_helloDone (w_sess w j)"
    and "s_tun (w_sess w' j) = s_tun (w_sess w j)" and "s_closed (w_sess w' i)"
    and "j \<noteq> i \<Longrightarrow> w_sess w' j = w_sess w j" and "w_disk w' = w_disk w"
    and "s_sendQ (w_sess w' j) = s_sendQ (w_sess w j)"
  using assms by (auto simp: close_eq close_offline_sel torn_down_sel torn_down_flags split: if_splits)

lemma greet_close:
  assumes "world_ok w" and "close i w = Inr w'" and "greet_ok w j"
    and "j = i \<Longrightarrow> s_tun (w_sess w i) \<noteq> None \<or> s_helloDone (w_sess w i) \<or> \<not> s_reading (w_sess w i)"
  shows "greet_ok w' j"
  using close_frame [OF assms(1,2)] assms(3,4) by (cases "j = i") (auto simp: greet_ok_def)

lemma close_drift:
  assumes "world_ok w" and "close i w = Inr w'"
  shows "drift w' = drift w"
proof (cases "s_closed (w_sess w i)")
  case False
  let ?r = "w_reg w"
  have reg: "wf_dict (rg_tunnels ?r)" using world_ok_reg [OF assms(1)] by (simp add: registry_ok_def)
  have w': "w' = close_offline i (torn_down i w)" using assms False by (simp add: close_eq)
  have o: "online_at (torn_down i w) i = online_at w i" "tunID i (torn_down i w) = tunID i w"
    by (simp_all add: online_at_def tunID_def torn_down_sel split: option.split)
  show ?thesis
  proof (cases "online_at w i")
    case True
    then obtain t where t: "Get ?r (tunID i w) = Some t" "t_session t = Some i"
      by (auto simp: online_at_def tunID_def split: option.splits)
    from online_modify [OF reg t(1), of "\<lambda>t. t\<lparr>t_session := None\<rparr>"] t(2) True show ?thesis
      by (simp add: w' drift_def close_offline_sel close_offline_reg torn_down_sel o)
  qed (simp add: w' drift_def close_offline_sel close_offline_reg torn_down_sel o)
qed (use assms in \<open>simp add: close_eq\<close>)

lemma readEnd_ok:
  assumes "world_ok w" and "\<And>j. j \<noteq> i \<Longrightarrow> greet_ok w j"
  obtains w' where "readEnd i w = Inr w'" and "server_ok w'" and "drift w' = drift w"
proof -
  obtain w1 where w1: "close i w = Inr w1" "world_ok w1" using close_ok [OF assms(1)] by metis
  let ?w = "modify_sess i (\<lambda>s. s\<lparr>s_reading := False\<rparr>) w1"
  have "close i ?w = Inr ?w"
    using close_frame(5) [OF assms(1) w1(1)] by (simp add: close_def sess_simps)
  then have "readEnd i w = Inr ?w" using w1 by (simp add: readEnd_def)
  moreover have "world_ok ?w" by (rule world_ok_modify_sess [OF w1(2)]) simp_all
  moreover have "greet_ok ?w j" for j
    using greet_close [OF assms(1) w1(1) assms(2)]
    by (cases "j = i") (auto simp: greet_ok_def sess_simps)
  moreover have "drift ?w = drift w"
    using close_drift [OF assms(1) w1(1)] by (simp add: drift_def sess_simps)
  ultimately show ?thesis using that [of ?w] by (simp add: server_ok_def)
qed

section \<open>The handshake\<close>

lemma issueSecret_session:
  assumes "issueSecret iter io i dn ds r dk = Some (res, r', dk')"
  shows "Option.bind (Get r' j) t_session = Option.bind (Get r j) t_session"
    and "registry_ok r \<Longrightarrow> online_tunnels r' = online_tunnels r"
    and "Get r i \<noteq> None \<Longrightarrow> Get r' i \<noteq> None"
  using assms by (cases rule: issueSecret_cases;
      auto simp: reg_simps online_modify_same split: if_splits option.splits; cases "Get r i"; simp)+

lemma new_session:
  assumes "Get r i = None"
  shows "Option.bind (Get (put_tunnel i (newTunnel now i) r) j) t_session = Option.bind (Get r j) t_session"
    and "registry_ok r \<Longrightarrow> online_tunnels (put_tunnel i (newTunnel now i) r) = online_tunnels r"
  using assms online_put [of r i "newTunnel now i"] by (auto simp: reg_simps registry_ok_def)

text \<open>Registering changes no session pointer, and the tunnel it answers with exists.\<close>

lemma Register_session:
  assumes "Register iter io now draws d s r dk = Some (res, r', dk')"
  shows "Option.bind (Get r' j) t_session = Option.bind (Get r j) t_session"
    and "registry_ok r \<Longrightarrow> online_tunnels r' = online_tunnels r"
    and "res = Inr (i, reused, denied, sec) \<Longrightarrow> Get r' i \<noteq> None"
proof -
  have "Option.bind (Get r' j) t_session = Option.bind (Get r j) t_session \<and>
      (registry_ok r \<longrightarrow> online_tunnels r' = online_tunnels r) \<and>
      (res = Inr (i, reused, denied, sec) \<longrightarrow> Get r' i \<noteq> None)"
    using assms
  proof (cases rule: Register_cases)
    case (custom ds)
    have "registry_ok r \<Longrightarrow> registry_ok (put_tunnel (normalizeDesired d) (newTunnel now (normalizeDesired d)) r)"
      using custom(1) by (simp add: reg.inv_put)
    moreover from custom(3) have "res = Inr (i, reused, denied, sec) \<Longrightarrow> i = normalizeDesired d"
      by (cases rule: issueSecret_cases) auto
    ultimately show ?thesis
      using issueSecret_session [OF custom(3)] new_session [OF custom(2)]
      by (auto simp: reg_simps)
  next
    case (random k dn ds)
    have "registry_ok r \<Longrightarrow> registry_ok (put_tunnel k (newTunnel now k) r)"
      using random(2) by (simp add: reg.inv_put)
    moreover from random(5) have "res = Inr (i, reused, denied, sec) \<Longrightarrow> i = k"
      by (cases rule: issueSecret_cases) auto
    ultimately show ?thesis
      using issueSecret_session [OF random(5)] new_session [OF random(1)]
      by (auto simp: reg_simps)
  qed auto
  then show "Option.bind (Get r' j) t_session = Option.bind (Get r j) t_session"
    and "registry_ok r \<Longrightarrow> online_tunnels r' = online_tunnels r"
    and "res = Inr (i, reused, denied, sec) \<Longrightarrow> Get r' i \<noteq> None" by blast+
qed

text \<open>A registry with the same session pointers keeps the heap invariant.\<close>

lemma world_ok_reg_change:
  assumes "world_ok w" and "registry_ok r'"
    and "\<And>j. Option.bind (Get r' j) t_session = Option.bind (Get (w_reg w) j) t_session"
  shows "world_ok (w\<lparr>w_reg := r', w_disk := dk\<rparr>)"
  unfolding world_ok_def
proof (intro conjI allI impI)
  show "sess_ok (w\<lparr>w_reg := r', w_disk := dk\<rparr>) i" for i
    using world_ok_sess [OF assms(1), of i] by (simp add: sess_ok_def boxes_def)
  show "set (boxes (w\<lparr>w_reg := r', w_disk := dk\<rparr>) i) \<inter> set (boxes (w\<lparr>w_reg := r', w_disk := dk\<rparr>) j) = {}"
    if "i \<noteq> j" for i j
    using world_ok_disj [OF assms(1) that] by (auto simp: boxes_def)
next
  fix tid t i
  assume a: "Get (w_reg (w\<lparr>w_reg := r', w_disk := dk\<rparr>)) tid = Some t \<and> t_session t = Some i"
  then have "Option.bind (Get (w_reg w) tid) t_session = Some i"
    using assms(3) [of tid] by simp
  then obtain t0 where "Get (w_reg w) tid = Some t0" "t_session t0 = Some i"
    by (auto simp: bind_eq_Some_conv)
  from world_ok_ptr [OF assms(1) this] show "pointer_ok (w\<lparr>w_reg := r', w_disk := dk\<rparr>) tid i"
    by (simp add: pointer_ok_def)
qed (use assms(2) in simp)

lemma swap_session_ok:
  assumes "world_ok w" and "i < w_nsess w" and "\<not> s_closed (w_sess w i)" and "s_tun (w_sess w i) = None"
    and "Get (w_reg w) tid = Some t" and "swap_session i tid w = (old, w')"
  shows "world_ok w'" and "old = t_session t"
    and "int (online_tunnels (w_reg w')) = int (online_tunnels (w_reg w)) + (if old = None then 1 else 0)"
proof -
  let ?r = "modify_tunnel tid (\<lambda>t. t\<lparr>t_session := Some i\<rparr>) (w_reg w)"
  have w': "w' = modify_reg (modify_tunnel tid (\<lambda>t. t\<lparr>t_session := Some i\<rparr>))
      (modify_sess i (\<lambda>s. s\<lparr>s_tun := Some tid\<rparr>) w)" and old: "old = t_session t"
    using assms(5,6) by (simp_all add: swap_session_def)
  show "old = t_session t" by (rule old)
  have reg: "registry_ok (w_reg w)" by (rule world_ok_reg [OF assms(1)])
  show "int (online_tunnels (w_reg w')) = int (online_tunnels (w_reg w)) + (if old = None then 1 else 0)"
    using online_modify [OF _ assms(5), of "\<lambda>t. t\<lparr>t_session := Some i\<rparr>"] reg
    by (simp add: w' sess_simps old registry_ok_def)
  show "world_ok w'"
    unfolding world_ok_def
  proof (intro conjI allI impI)
    show "registry_ok (w_reg w')" using reg by (simp add: w' sess_simps registry_ok_modify)
    show "sess_ok w' j" for j
      using world_ok_sess [OF assms(1), of j] by (auto simp: w' sess_ok_def boxes_def sess_simps)
    show "set (boxes w' j) \<inter> set (boxes w' l) = {}" if "j \<noteq> l" for j l
    proof -
      have "boxes w' m = boxes w m" for m by (simp add: w' boxes_def sess_simps)
      then show ?thesis using world_ok_disj [OF assms(1) that] by auto
    qed
    show "pointer_ok w' id j" if "Get (w_reg w') id = Some u \<and> t_session u = Some j" for id u j
    proof (cases "id = tid")
      case True
      with that assms show ?thesis by (auto simp: w' sess_simps reg_simps pointer_ok_def)
    next
      case False
      with that have "pointer_ok w id j"
        using world_ok_ptr [OF assms(1)] by (auto simp: w' sess_simps reg_simps)
      with assms(4) show ?thesis by (auto simp: w' sess_simps pointer_ok_def)
    qed
  qed
qed

lemma kick_total:
  assumes "world_ok w"
  obtains w2 where "kick old i w = Inr w2"
proof (cases "\<exists>j. old = Some j \<and> j \<noteq> i")
  case True
  then obtain j where "old = Some j" "j \<noteq> i" by blast
  moreover obtain w2 where "close j w = Inr w2" using close_ok [OF assms] by metis
  ultimately show ?thesis using that by (simp add: kick_def)
next
  case False
  then show ?thesis using that [of w] by (auto simp: kick_def split: option.splits)
qed

lemma kick_frame:
  assumes "world_ok w" and "kick old i w = Inr w2"
  shows "world_ok w2" and "drift w2 = drift w" and "w_sess w2 i = w_sess w i"
    and "w_nsess w2 = w_nsess w" and "old = Some j \<Longrightarrow> j \<noteq> i \<Longrightarrow> s_closed (w_sess w2 j)"
    and "greet_ok w j \<Longrightarrow> (old = Some j \<Longrightarrow> s_tun (w_sess w j) \<noteq> None) \<Longrightarrow> greet_ok w2 j"
proof -
  have "world_ok w2 \<and> drift w2 = drift w \<and> w_sess w2 i = w_sess w i \<and> w_nsess w2 = w_nsess w \<and>
      (old = Some j \<longrightarrow> j \<noteq> i \<longrightarrow> s_closed (w_sess w2 j)) \<and>
      (greet_ok w j \<longrightarrow> (old = Some j \<longrightarrow> s_tun (w_sess w j) \<noteq> None) \<longrightarrow> greet_ok w2 j)"
  proof (cases "\<exists>l. old = Some l \<and> l \<noteq> i")
    case True
    then obtain l where l: "old = Some l" "l \<noteq> i" by blast
    then have c: "close l w = Inr w2" using assms(2) by (simp add: kick_def)
    show ?thesis
      using l world_ok_close [OF assms(1) c] close_frame [OF assms(1) c]
        close_drift [OF assms(1) c] greet_close [OF assms(1) c, of j]
      by (cases "j = l") auto
  next
    case False
    then have "w2 = w" using assms(2) by (auto simp: kick_def split: option.splits)
    with False assms(1) show ?thesis by auto
  qed
  then show "world_ok w2" and "drift w2 = drift w" and "w_sess w2 i = w_sess w i"
    and "w_nsess w2 = w_nsess w" and "old = Some j \<Longrightarrow> j \<noteq> i \<Longrightarrow> s_closed (w_sess w2 j)"
    and "greet_ok w j \<Longrightarrow> (old = Some j \<Longrightarrow> s_tun (w_sess w j) \<noteq> None) \<Longrightarrow> greet_ok w2 j"
    by blast+
qed

definition awaits_hello :: "sid \<Rightarrow> World \<Rightarrow> bool" where
  "awaits_hello i w \<longleftrightarrow> running i w \<and> \<not> s_helloDone (w_sess w i)"

lemma handleHello_cases:
  assumes "server_ok w" and "awaits_hello i w" and "handleHello en i f w = Some res"
  obtains
    (failed) e r' dk' where "res = Inr (Some e, w\<lparr>w_reg := r', w_disk := dk'\<rparr>)"
      "Register (e_iter en) (e_io en) (e_now en) (e_draws en) (f_DesiredId f) (f_Secret f)
         (w_reg w) (w_disk w) = Some (Inl e, r', dk')"
  | (answered) e w' tid reused denied secret r' dk' t w1 w2 where
      "Register (e_iter en) (e_io en) (e_now en) (e_draws en) (f_DesiredId f) (f_Secret f)
         (w_reg w) (w_disk w) = Some (Inr (tid, reused, denied, secret), r', dk')"
      "Get r' tid = Some t" 
      "swap_session i tid (w\<lparr>w_reg := r', w_disk := dk'\<rparr>) = (t_session t, w1)" "world_ok w1"
      "kick (t_session t) i w1 = Inr w2"
      "send (e_ack en) i (hello_ack tid reused denied secret) (w2\<lparr>w_online := w_online w2 + 1\<rparr>)
         = Some (e, w')" "res = Inr (e, w')"
proof -
  obtain rs r' dk' where r: "Register (e_iter en) (e_io en) (e_now en) (e_draws en) (f_DesiredId f)
      (f_Secret f) (w_reg w) (w_disk w) = Some (rs, r', dk')"
    using assms(3) by (auto simp: handleHello_def split: option.splits)
  show thesis
  proof (cases rs)
    case (Inl e)
    show thesis by (rule failed) (use r assms(3) Inl in \<open>auto simp: handleHello_def\<close>)
  next
    case (Inr q)
    obtain tid reused denied secret where q: "rs = Inr (tid, reused, denied, secret)"
      using Inr by (cases q) auto
    let ?w = "w\<lparr>w_reg := r', w_disk := dk'\<rparr>"
    note rr = r [unfolded q]
    have w: "world_ok w" and g: "greet_ok w i" using assms(1) by (auto simp: server_ok_def)
    have w': "world_ok ?w"
      by (rule world_ok_reg_change [OF w Register_wf [OF world_ok_reg [OF w] rr] Register_session(1) [OF rr]])
    obtain t where t: "Get r' tid = Some t" using Register_session(3) [OF rr] by blast
    obtain w1 where s: "swap_session i tid ?w = (t_session t, w1)"
      using t by (simp add: swap_session_def)
    have "world_ok w1"
      by (rule swap_session_ok(1) [OF w', of i tid t "t_session t"])
        (use assms(2) g t s in \<open>auto simp: awaits_hello_def running_def greet_ok_def\<close>)
    moreover obtain w2 where "kick (t_session t) i w1 = Inr w2"
      using kick_total [OF \<open>world_ok w1\<close>] by metis
    ultimately show thesis
      using answered [OF rr t s] assms(3) rr s by (auto simp: handleHello_def)
  qed
qed

lemma swap_session_sel:
  assumes "swap_session i tid w = (old, w1)"
  shows "w_sess w1 = (w_sess w)(i := (w_sess w i)\<lparr>s_tun := Some tid\<rparr>)" and "w_online w1 = w_online w"
    and "w_nsess w1 = w_nsess w" and "w_reg w1 = modify_tunnel tid (\<lambda>t. t\<lparr>t_session := Some i\<rparr>) (w_reg w)"
  using assms by (auto simp: swap_session_def sess_simps)

text \<open>After the handshake, whatever its result: the heap is sound, other sessions are greeted as
  before, and the counter has drifted by one exactly when an open session was kicked.\<close>

lemma handleHello_ok:
  assumes "server_ok w" and "awaits_hello i w" and "handleHello en i f w = Some res"
  obtains e w' where "res = Inr (e, w')" and "world_ok w'" and "\<And>j. j \<noteq> i \<Longrightarrow> greet_ok w' j"
    and "drift w' = drift w \<or> drift w' = drift w + 1" and "s_reading (w_sess w' i)" and "w_nsess w' = w_nsess w"
  using assms
proof (cases rule: handleHello_cases)
  case (failed e r' dk')
  have w: "world_ok w" using assms(1) by (simp add: server_ok_def)
  note reg = Register_session [OF failed(2)]
  have "world_ok (w\<lparr>w_reg := r', w_disk := dk'\<rparr>)"
    by (rule world_ok_reg_change [OF w Register_wf [OF world_ok_reg [OF w] failed(2)] reg(1)])
  moreover have "drift (w\<lparr>w_reg := r', w_disk := dk'\<rparr>) = drift w"
    using reg(2) [OF world_ok_reg [OF w]] by (simp add: drift_def)
  ultimately show thesis
    using that [OF failed(1)] assms(1,2)
    by (simp add: server_ok_def greet_ok_def awaits_hello_def running_def)
next
  case (answered e w' tid reused denied secret r' dk' t w1 w2)
  have w: "world_ok w" and g: "\<And>j. greet_ok w j" using assms(1) by (auto simp: server_ok_def)
  note reg = Register_session [OF answered(1)]
  note sel = swap_session_sel [OF answered(3)]
  let ?w = "w\<lparr>w_reg := r', w_disk := dk'\<rparr>"
  have rok: "registry_ok r'" by (rule Register_wf [OF world_ok_reg [OF w] answered(1)])
  note k = kick_frame [OF answered(4,5)]
  have old_tun: "s_tun (w_sess w1 j) \<noteq> None" if "t_session t = Some j" for j
  proof -
    have "Option.bind (Get (w_reg w) tid) t_session = Some j"
      using reg(1) [of tid] answered(2) that by simp
    then have "s_tun (w_sess w j) \<noteq> None"
      using world_ok_ptr [OF w] by (auto simp: bind_eq_Some_conv pointer_ok_def)
    then show ?thesis using sel(1) by auto
  qed
  have same: "same_sessions (w2\<lparr>w_online := w_online w2 + 1\<rparr>) w'"
    by (rule same_sessions_send5 [OF answered(6)])
  have "world_ok (w2\<lparr>w_online := w_online w2 + 1\<rparr>)"
    by (rule world_ok_cong [OF k(1)]) simp_all
  then have 1: "world_ok w'" using answered(6) by (rule world_ok_send5)
  have 2: "greet_ok w' j" if "j \<noteq> i" for j
  proof -
    have "greet_ok w1 j" using g [of j] that sel(1) by (simp add: greet_ok_def)
    then have "greet_ok w2 j" using k(6) old_tun by blast
    then show ?thesis using same by (simp add: same_sessions_def greet_ok_def)
  qed
  have o: "int (online_tunnels (w_reg w1)) = int (online_tunnels r') + (if t_session t = None then 1 else 0)"
    using online_modify [OF _ answered(2), of "\<lambda>t. t\<lparr>t_session := Some i\<rparr>"] rok sel(4)
    by (simp add: registry_ok_def)
  have 3: "drift w' = drift w + (if t_session t = None then 0 else 1)"
    using same k(2) o sel(2) reg(2) [OF world_ok_reg [OF w]]
    by (simp add: drift_def same_sessions_def split: if_splits)
  have 4: "s_reading (w_sess w' i)" "w_nsess w' = w_nsess w"
    using same k(3,4) sel assms(2) by (simp_all add: same_sessions_def awaits_hello_def running_def)
  show thesis using that [OF answered(7) 1 2 _ 4] 3 by (auto split: if_splits)
qed

section \<open>Every step is safe\<close>

text \<open>The result of a step: no panic, the invariant, and a counter that never falls short.\<close>

definition good_step :: "World \<Rightarrow> panic + World \<Rightarrow> bool" where
  "good_step w res \<longleftrightarrow> (\<exists>w'. res = Inr w' \<and> server_ok w' \<and> drift w \<le> drift w')"

lemma server_okI: "world_ok w \<Longrightarrow> (\<And>j. greet_ok w j) \<Longrightarrow> server_ok w"
  by (simp add: server_ok_def)

lemma good_stepI: "server_ok w' \<Longrightarrow> drift w \<le> drift w' \<Longrightarrow> good_step w (Inr w')"
  by (simp add: good_step_def)

lemma same_sessions_good:
  "server_ok w \<Longrightarrow> world_ok w' \<Longrightarrow> same_sessions w w' \<Longrightarrow> good_step w (Inr w')"
  by (rule good_stepI) (auto simp: server_ok_def greet_ok_def drift_def same_sessions_def)

lemma readEnd_good:
  assumes "world_ok w" and "\<And>j. j \<noteq> i \<Longrightarrow> greet_ok w j" and "drift v \<le> drift w"
  shows "good_step v (readEnd i w)"
  using readEnd_ok [OF assms(1,2)] assms(3) by (metis good_stepI)

lemma good_step_trans: "same_sessions v w \<Longrightarrow> good_step w res \<Longrightarrow> good_step v res"
  by (auto simp: good_step_def same_sessions_def drift_def)

text \<open>What \<open>readStep\<close> makes of the loop's answer.\<close>

definition finish :: "sid \<Rightarrow> panic + loop_out \<times> World \<Rightarrow> panic + World" where
  "finish i res = (case res of Inl p \<Rightarrow> Inl p | Inr (Continue, w') \<Rightarrow> Inr w' | Inr (Return, w') \<Rightarrow> readEnd i w')"

lemma readStep_finish: "readStep en rp data i w = map_option (finish i) (readTurn en rp data i w)"
  by (simp add: readStep_def finish_def split: option.split sum.split prod.split loop_out.split)

lemma reject_good:
  assumes "world_ok w" and "\<And>j. j \<noteq> i \<Longrightarrow> greet_ok w j" and "drift v \<le> drift w"
    and "reject en i reason w = Some res"
  shows "good_step v (finish i res)"
proof -
  obtain e w' where s: "send (e_reject en) i (hello_nack reason) w = Some (e, w')"
    and res: "res = Inr (Return, w')" using assms(4) by (auto simp: reject_def)
  note same = same_sessions_send5 [OF s]
  have "good_step v (readEnd i w')"
  proof (rule readEnd_good)
    show "world_ok w'" by (rule world_ok_send5 [OF assms(1) s])
    show "greet_ok w' j" if "j \<noteq> i" for j using assms(2) that same_sessions_greet [OF same] by blast
    show "drift v \<le> drift w'" using assms(3) same by (simp add: drift_def same_sessions_def)
  qed
  then show ?thesis by (simp add: finish_def res)
qed

lemma onHello_good:
  assumes "server_ok w" and "running i w" and "onHello en i f w = Some res"
  shows "good_step w (finish i res)"
proof -
  have w: "world_ok w" and g: "\<And>j. greet_ok w j" using assms(1) by (auto simp: server_ok_def)
  show ?thesis
  proof (cases "s_helloDone (w_sess w i)")
    case True
    with assms show ?thesis by (auto simp: onHello_def finish_def intro: good_stepI)
  next
    case waits: False
    show ?thesis
    proof (cases "f_Version f = HelloVersion")
      case False
      then have "reject en i ''version mismatch'' w = Some res"
        using assms(3) waits by (simp add: onHello_def)
      then show ?thesis by (rule reject_good [OF w g order_refl])
    next
      case True
      then obtain hr where h: "handleHello en i f w = Some hr"
        using assms(3) waits by (auto simp: onHello_def split: option.splits)
      have "awaits_hello i w" using assms(2) waits by (simp add: awaits_hello_def)
      then obtain e w' where hr: "hr = Inr (e, w')" "world_ok w'" "\<And>j. j \<noteq> i \<Longrightarrow> greet_ok w' j"
          "drift w \<le> drift w'"
        using handleHello_ok [OF assms(1) _ h] by (metis add_increasing2 order_refl zero_le_one)
      show ?thesis
      proof (cases e)
        case (Some msg)
        then have "reject en i msg w' = Some res"
          using assms(3) waits True h hr(1) by (simp add: onHello_def)
        from reject_good [OF hr(2,3,4) this] show ?thesis by blast
      next
        case None
        let ?w = "modify_sess i (\<lambda>s. s\<lparr>s_helloDone := True\<rparr>) w'"
        have "world_ok ?w" by (rule world_ok_modify_sess [OF hr(2)]) simp_all
        moreover have "greet_ok ?w j" for j
          using hr(3) [of j] by (cases "j = i") (auto simp: greet_ok_def sess_simps)
        moreover have "drift ?w = drift w'" by (simp add: drift_def sess_simps)
        ultimately have "good_step w (Inr ?w)" using hr(4) by (intro good_stepI server_okI) simp_all
        then show ?thesis using assms(3) waits True h hr(1) None by (auto simp: onHello_def finish_def)
      qed
    qed
  qed
qed

lemma registry_step_good:
  assumes "server_ok w" and "\<And>t. t_session (g t) = t_session t" and "\<And>t. t_ID (g t) = t_ID t"
  shows "good_step w (Inr (w\<lparr>w_reg := modify_tunnel tid g (w_reg w), w_disk := dk\<rparr>))"
proof (rule good_stepI)
  have w: "world_ok w" using assms(1) by (simp add: server_ok_def)
  have "Option.bind (Get (modify_tunnel tid g (w_reg w)) j) t_session = Option.bind (Get (w_reg w) j) t_session" for j
    using assms(2) by (cases "Get (w_reg w) tid") (auto simp: reg_simps)
  then have "world_ok (w\<lparr>w_reg := modify_tunnel tid g (w_reg w), w_disk := dk\<rparr>)"
    by (intro world_ok_reg_change [OF w] registry_ok_modify [OF world_ok_reg [OF w]] assms(3))
  then show "server_ok (w\<lparr>w_reg := modify_tunnel tid g (w_reg w), w_disk := dk\<rparr>)"
    using assms(1) by (simp add: server_ok_def greet_ok_def)
  show "drift w \<le> drift (w\<lparr>w_reg := modify_tunnel tid g (w_reg w), w_disk := dk\<rparr>)"
    using online_modify_same [OF world_ok_reg [OF w] assms(2)] by (simp add: drift_def)
qed

lemma modify_reg_same: "modify_reg g w = w\<lparr>w_reg := g (w_reg w), w_disk := w_disk w\<rparr>"
  by (simp add: modify_reg_def)

lemma onStats_good: "server_ok w \<Longrightarrow> good_step w (Inr (onStats en i f w))"
  using registry_step_good [of w "tunnel_SetTarget (f_Target f)"]
  by (auto simp: onStats_def Let_def modify_reg_def intro: good_stepI split: option.split)

lemma readStep_good:
  assumes "server_ok w" and "running i w" and "readStep en rp data i w = Some res"
  shows "good_step w res"
proof -
  let ?w = "touch (e_now en) i w"
  have w: "world_ok ?w" using assms(1) by (simp add: server_ok_def world_ok_touch)
  have same: "same_sessions w ?w" by (rule same_sessions_touch)
  have ok: "server_ok ?w" using w assms(1) same_sessions_greet [OF same] by (simp add: server_ok_def)
  have run: "running i ?w" using assms(2) same by (simp add: running_def same_sessions_def)
  obtain r where r: "readTurn en rp data i w = Some r" and res: "res = finish i r"
    using assms(3) by (auto simp: readStep_finish)
  have stay: "good_step ?w (Inr ?w)" by (rule good_stepI [OF ok order_refl])
  have "good_step ?w (finish i r)"
  proof (cases "Unmarshal data zero_frame")
    case None
    with r stay show ?thesis by (auto simp: readTurn_def finish_def)
  next
    case (Some f)
    consider "f_Type f = ''hello''" | "f_Type f = ''stats''"
      | "f_Type f \<noteq> ''hello''" "f_Type f \<noteq> ''stats''" "is_response f"
      | "f_Type f \<noteq> ''hello''" "f_Type f \<noteq> ''stats''" "\<not> is_response f" by blast
    then show ?thesis
    proof cases
      case 1
      with r Some show ?thesis by (auto simp: readTurn_def intro: onHello_good [OF ok run])
    next
      case 2
      with r Some onStats_good [OF ok] show ?thesis by (auto simp: readTurn_def finish_def)
    next
      case 3
      with r Some obtain v where v: "routeResponse rp i f ?w = Some v" "r = Inr (Continue, v)"
        by (auto simp: readTurn_def)
      with same_sessions_good [OF ok world_ok_route [OF w v(1)] same_sessions_route [OF v(1)]]
      show ?thesis by (simp add: finish_def)
    next
      case 4
      with r Some stay show ?thesis by (auto simp: readTurn_def finish_def)
    qed
  qed
  with good_step_trans [OF same] res show ?thesis by simp
qed

lemma same_sessions_receive: "receive a w = Some (f, w') \<Longrightarrow> same_sessions w w'"
  by (auto simp: receive_def intro: same_sessions_box split: list.splits)

lemma same_sessions_NextReqID: "NextReqID i w = Some (k, w') \<Longrightarrow> same_sessions w w'"
  by (auto simp: NextReqID_def intro: same_sessions_modify split: option.splits)

lemma same_sessions_register: "same_sessions w (snd (RegisterPending i k w))"
  by (simp add: RegisterPending_def Let_def same_sessions_def sess_simps)

lemma same_sessions_unregister: "UnregisterPending i k w = Inr w' \<Longrightarrow> same_sessions w w'"
  by (auto simp: UnregisterPending_def close_done_def same_sessions_def sess_simps
      split: option.splits if_splits)

lemma disconnect_good:
  assumes "server_ok w" and "s_tun (w_sess w i) \<noteq> None"
  shows "good_step w (close i w)"
proof -
  have w: "world_ok w" using assms(1) by (simp add: server_ok_def)
  obtain w' where c: "close i w = Inr w'" "world_ok w'" using close_ok [OF w] by metis
  have "greet_ok w' j" for j
    using greet_close [OF w c(1)] assms by (auto simp: server_ok_def)
  with c close_drift [OF w c(1)] show ?thesis by (simp add: good_stepI server_okI)
qed

lemma connect_good:
  assumes "server_ok w"
  shows "good_step w (Inr (snd (newSession now remote w)))"
proof (intro good_stepI server_okI)
  show "world_ok (snd (newSession now remote w))"
    using assms by (simp add: server_ok_def world_ok_newSession)
  show "greet_ok (snd (newSession now remote w)) j" for j
    using assms by (auto simp: server_ok_def greet_ok_def newSession_def fresh_session_def)
  show "drift w \<le> drift (snd (newSession now remote w))" by (simp add: drift_def newSession_def)
qed

lemma server_exec_good:
  assumes "server_ok w" and "server_exec q w = Some res"
  shows "good_step w res"
proof -
  have w: "world_ok w" using assms(1) by (simp add: server_ok_def)
  note keep = same_sessions_good [OF assms(1)]
  show ?thesis
  proof (cases q)
    case (Connect now remote)
    with assms connect_good show ?thesis by auto
  next
    case (Read en rp data i)
    with assms readStep_good show ?thesis by (auto split: if_splits)
  next
    case (ReadFail i)
    with assms readEnd_good [OF w, of i w] show ?thesis by (auto simp: server_ok_def split: if_splits)
  next
    case (Pong now i)
    with assms keep [OF world_ok_touch [OF w] same_sessions_touch] show ?thesis
      by (auto split: if_splits)
  next
    case (Write turn i)
    with assms keep [OF world_ok_writeTurn [OF w] same_sessions_writeTurn] show ?thesis
      by (auto split: if_splits)
  next
    case (RelayID i)
    with assms keep [OF world_ok_NextReqID [OF w] same_sessions_NextReqID] show ?thesis by auto
  next
    case (RelayRegister i k)
    with assms keep [OF world_ok_register [OF w] same_sessions_register] show ?thesis by auto
  next
    case (RelayUnregister i k)
    obtain w' where u: "UnregisterPending i k w = Inr w'" "world_ok w'"
      using UnregisterPending_ok [OF w] by metis
    with RelayUnregister assms keep [OF u(2) same_sessions_unregister [OF u(1)]] show ?thesis by auto
  next
    case (RelaySend pick i f)
    with assms keep [OF world_ok_send [OF w] same_sessions_send] show ?thesis by auto
  next
    case (RelayCount tid)
    with assms registry_step_good [OF assms(1), of "\<lambda>t. t\<lparr>t_reqCount := t_reqCount t + 1\<rparr>" "w_disk w" tid]
    show ?thesis by (auto simp: modify_reg_same)
  next
    case (RelayReceive a)
    with assms keep [OF world_ok_receive [OF w] same_sessions_receive] show ?thesis by auto
  next
    case (Poll iter picks)
    with assms keep [OF world_ok_poll [OF w] same_sessions_poll] show ?thesis
      by (auto simp: PollStats_def)
  next
    case (Disconnect i)
    with assms disconnect_good show ?thesis by (auto split: if_splits)
  qed
qed

lemma reachable_ok: "reachable w \<Longrightarrow> server_ok w \<and> 0 \<le> drift w"
proof (induction rule: reachable.induct)
  case (start r dk)
  have "world_ok (w\<lparr>w_disk := dk\<rparr>) = world_ok w" for w
    by (simp add: world_ok_def sess_ok_def boxes_def pointer_ok_def)
  moreover have "online_tunnels r = 0"
    using start map_of_is_SomeI by (fastforce simp: online_tunnels_def registry_ok_def Get_def filter_empty_conv)
  ultimately show ?case
    using start world_ok_empty [of r]
    by (simp add: server_ok_def) (auto simp: drift_def empty_world_def greet_ok_def fresh_session_def)
next
  case (step w q w')
  with server_exec_good [of w q "Inr w'"] show ?case by (auto simp: good_step_def)
qed

lemma close_keeps_other:
  assumes "world_ok w" and "close j w = Inr w'" and "Get (w_reg w) tid = Some t"
    and "t_session t = Some i" and "i \<noteq> j"
  shows "Get (w_reg w') tid = Some t"
proof (cases "s_closed (w_sess w j)")
  case False
  have "tunID j (torn_down j w) = tunID j w" by (simp add: tunID_def torn_down_sel)
  moreover have "online_at (torn_down j w) j \<Longrightarrow> tunID j w \<noteq> tid"
    using assms(3-5) by (auto simp: online_at_def tunID_def torn_down_sel split: option.splits)
  ultimately show ?thesis
    using assms False by (auto simp: close_eq close_offline_reg torn_down_sel reg_simps)
qed (use assms in \<open>auto simp: close_eq\<close>)

lemma kick_keeps:
  "world_ok w \<Longrightarrow> kick old i w = Inr w2 \<Longrightarrow> Get (w_reg w) tid = Some t \<Longrightarrow> t_session t = Some i \<Longrightarrow>
   Get (w_reg w2) tid = Some t"
  by (auto simp: kick_def split: option.splits if_splits dest: close_keeps_other)

text \<open>C5.  No reachable state of the server makes a step panic: not a close that meets a kick, not a
  handler that gives up while its session is torn down, not a frame of whatever content.\<close>

theorem server_never_panics:
  assumes "reachable w" and "server_exec q w = Some res"
  shows "\<exists>w'. res = Inr w'"
  using server_exec_good [OF _ assms(2)] reachable_ok [OF assms(1)] by (auto simp: good_step_def)

text \<open>C7.  An online tunnel points at an open session that is bound to it, and at one that no other
  tunnel points at.\<close>

theorem online_tunnel_is_live:
  assumes "reachable w" and "Get (w_reg w) tid = Some t" and "t_session t = Some i"
  shows "i < w_nsess w \<and> \<not> s_closed (w_sess w i) \<and> \<not> s_done (w_sess w i) \<and>
    s_tun (w_sess w i) = Some tid \<and>
    \<not> (\<exists>tid' t'. Get (w_reg w) tid' = Some t' \<and> t_session t' = Some i \<and> tid' \<noteq> tid)"
proof -
  have w: "world_ok w" using reachable_ok [OF assms(1)] by (simp add: server_ok_def)
  have "s_done (w_sess w i) = s_closed (w_sess w i)"
    using world_ok_sess [OF w, of i] by (simp add: sess_ok_def)
  with world_ok_ptr [OF w assms(2,3)] world_ok_ptr [OF w] show ?thesis
    by (fastforce simp: pointer_ok_def)
qed

text \<open>C6.  Last connect wins.  An accepted hello makes the tunnel point at the new session, queues the
  acknowledgement that names the tunnel, and closes the session that held it before.\<close>

theorem last_connect_wins:
  assumes "reachable w" and "awaits_hello i w" and "handleHello en i f w = Some (Inr (None, w'))"
  shows "\<exists>tid t reused denied secret. Get (w_reg w') tid = Some t \<and> t_session t = Some i \<and>
    s_tun (w_sess w' i) = Some tid \<and>
    s_sendQ (w_sess w' i) = s_sendQ (w_sess w i) @ [Marshal (hello_ack tid reused denied secret)] \<and>
    (\<forall>j. Option.bind (Get (w_reg w) tid) t_session = Some j \<longrightarrow> s_closed (w_sess w' j))"
proof -
  have ok: "server_ok w" using reachable_ok [OF assms(1)] by simp
  show ?thesis
    using ok assms(2,3)
  proof (cases rule: handleHello_cases)
    case (answered e v tid reused denied secret r' dk' t w1 w2)
    let ?t = "t\<lparr>t_session := Some i\<rparr>"
    note sel = swap_session_sel [OF answered(3)]
    note k = kick_frame [OF answered(4,5)]
    have e: "e = None" "v = w'" using answered(7) by simp_all
    have "Get (w_reg w1) tid = Some ?t" using answered(2) sel(4) by (simp add: reg_simps)
    then have t: "Get (w_reg w2) tid = Some ?t" using kick_keeps [OF answered(4,5)] by simp
    have w': "w' = modify_sess i (\<lambda>s. s\<lparr>s_sendQ := s_sendQ s @ [Marshal (hello_ack tid reused denied secret)]\<rparr>)
        (w2\<lparr>w_online := w_online w2 + 1\<rparr>)"
      using answered(6) e by (auto elim!: send_cases)
    have "\<not> (Option.bind (Get (w_reg w) tid) t_session = Some j \<and> \<not> s_closed (w_sess w' j))" for j
    proof
      assume a: "Option.bind (Get (w_reg w) tid) t_session = Some j \<and> \<not> s_closed (w_sess w' j)"
      then have j: "t_session t = Some j"
        using Register_session(1) [OF answered(1), of tid] answered(2) by simp
      have "j \<noteq> i"
        using a assms(2) ok world_ok_ptr [of w tid] 
        by (auto simp: server_ok_def greet_ok_def awaits_hello_def running_def pointer_ok_def bind_eq_Some_conv)
      with k(5) [OF j] a show False by (simp add: w' sess_simps)
    qed
    then have kicked: "\<forall>j. Option.bind (Get (w_reg w) tid) t_session = Some j \<longrightarrow> s_closed (w_sess w' j)"
      by blast
    have "Get (w_reg w') tid = Some ?t" "t_session ?t = Some i" "s_tun (w_sess w' i) = Some tid"
      "s_sendQ (w_sess w' i) = s_sendQ (w_sess w i) @ [Marshal (hello_ack tid reused denied secret)]"
      using t k(3) sel(1) by (simp_all add: w' sess_simps)
    with kicked show ?thesis by blast
  qed simp
qed

text \<open>The online counter never counts too few tunnels.\<close>

theorem online_never_under:
  assumes "reachable w"
  shows "int (online_tunnels (w_reg w)) \<le> w_online w"
  using reachable_ok [OF assms] by (simp add: drift_def)

text \<open>It counts one too many for each kick: the kicked session's close finds that the pointer has
  already moved on and does not decrement, while the new session is added.  The excess stays,
  and the health report shows it.\<close>

theorem kick_leaks_online:
  assumes "reachable w" and "awaits_hello i w" and "handleHello en i f w = Some (Inr (None, w'))"
    and "s_tun (w_sess w' i) = Some tid" and "Option.bind (Get (w_reg w) tid) t_session = Some j"
  shows "online_tunnels (w_reg w') = online_tunnels (w_reg w) \<and> w_online w' = w_online w + 1"
proof -
  have ok: "server_ok w" and w: "world_ok w" using reachable_ok [OF assms(1)] by (simp_all add: server_ok_def)
  show ?thesis
    using ok assms(2,3)
  proof (cases rule: handleHello_cases)
    case (answered e v tid' reused denied secret r' dk' t w1 w2)
    let ?v = "w\<lparr>w_reg := r', w_disk := dk'\<rparr>"
    have e: "e = None" "v = w'" using answered(7) by simp_all
    note sel = swap_session_sel [OF answered(3)]
    note k = kick_frame [OF answered(4,5)]
    have w': "w' = modify_sess i (\<lambda>s. s\<lparr>s_sendQ := s_sendQ s @ [Marshal (hello_ack tid' reused denied secret)]\<rparr>)
        (w2\<lparr>w_online := w_online w2 + 1\<rparr>)"
      using answered(6) e by (auto elim!: send_cases)
    have "tid' = tid" using assms(4) k(3) sel(1) by (simp add: w' sess_simps)
    then have j: "t_session t = Some j"
      using assms(5) Register_session(1) [OF answered(1), of tid] answered(2) by simp
    have ptr: "Get (w_reg w1) tid' = Some (t\<lparr>t_session := Some i\<rparr>)"
      using answered(2) sel(4) by (simp add: reg_simps)
    have same: "w_online w2 = w_online w1"
    proof (cases "j = i")
      case False
      have "s_tun (w_sess w j) = Some tid'"
        using world_ok_ptr [OF w, of tid' _ j] assms(5) \<open>tid' = tid\<close>
        by (auto simp: bind_eq_Some_conv pointer_ok_def)
      then have "\<not> online_at (torn_down j w1) j"
        using ptr sel(1) False by (auto simp: online_at_def torn_down_sel)
      then show ?thesis
        using answered(5) j False by (auto simp: kick_def close_eq [OF answered(4)] close_offline_sel
            torn_down_sel split: if_splits)
    qed (use answered(5) j in \<open>simp add: kick_def\<close>)
    have "int (online_tunnels (w_reg w1)) = int (online_tunnels r')"
      using online_modify [OF _ answered(2), of "\<lambda>t. t\<lparr>t_session := Some i\<rparr>"] sel(4) j
        Register_wf [OF world_ok_reg [OF w] answered(1)] by (simp add: registry_ok_def)
    then have "online_tunnels (w_reg w2) = online_tunnels (w_reg w)"
      using k(2) same Register_session(2) [OF answered(1) world_ok_reg [OF w]] by (simp add: drift_def)
    with same sel(2) show ?thesis by (simp add: w' sess_simps)
  qed simp
qed

section \<open>Witnesses\<close>

definition open_registry :: Registry where
  "open_registry = put_tunnel ''zzzz0000'' (newTunnel 0 ''zzzz0000'') (NewRegistry ''tunnels.json'')"

lemma open_registry_sel [simp]:
  "Get open_registry tid = (if tid = ''zzzz0000'' then Some (newTunnel 0 ''zzzz0000'') else None)"
  "registry_ok open_registry"
  by (simp add: open_registry_def reg_simps) (simp add: Get_def NewRegistry_def,
      simp add: open_registry_def reg.inv_put)

definition demo_env :: env where
  "demo_env = \<lparr>e_iter = id, e_io = demo_io, e_now = 5, e_draws = [], e_ack = PickSend,
     e_reject = PickSend\<rparr>"

definition demo_hello :: frame where
  "demo_hello = zero_frame\<lparr>f_Type := ''hello'', f_Version := 1, f_DesiredId := ''zzzz0000''\<rparr>"

lemma Register_unowned:
  assumes "Get r ''zzzz0000'' = Some t" and "t_secretHash t = []"
  shows "Register iter io now ds ''zzzz0000'' [] r dk = Some (Inr (''zzzz0000'', True, False, []), r, dk)"
  using assms by (simp add: Register_def claimDesired_def verifySecret_def)

lemma hello_unowned:
  assumes "server_ok w" and "awaits_hello i w" and "s_sendQ (w_sess w i) = []"
    and "Get (w_reg w) ''zzzz0000'' = Some t" and "t_secretHash t = []"
  shows "\<exists>w'. handleHello demo_env i demo_hello w = Some (Inr (None, w')) \<and>
    s_tun (w_sess w' i) = Some ''zzzz0000''"
proof -
  have r: "Register id demo_io 5 [] ''zzzz0000'' [] (w_reg w) (w_disk w)
      = Some (Inr (''zzzz0000'', True, False, []), w_reg w, w_disk w)"
    by (rule Register_unowned [OF assms(4,5)])
  obtain w1 where s: "swap_session i ''zzzz0000'' w = (t_session t, w1)"
    using assms(4) by (simp add: swap_session_def)
  note sel = swap_session_sel [OF s]
  have "world_ok w1"
    by (rule swap_session_ok(1) [OF _ _ _ _ assms(4) s])
      (use assms(1,2) in \<open>auto simp: server_ok_def greet_ok_def awaits_hello_def running_def\<close>)
  then obtain w2 where k: "kick (t_session t) i w1 = Inr w2" using kick_total by metis
  have i: "w_sess w2 i = (w_sess w i)\<lparr>s_tun := Some ''zzzz0000''\<rparr>"
    using kick_frame(3) [OF \<open>world_ok w1\<close> k] sel(1) by simp
  have "\<not> s_closed (w_sess w i)"
    using assms(1,2) by (auto simp: server_ok_def greet_ok_def awaits_hello_def running_def)
  then show ?thesis
    using r s k i assms(3)
    by (auto simp: handleHello_def demo_env_def demo_hello_def zero_frame_def send_def
        sendWithContext_def with_deadline_def sendQueueCap_def Let_def sess_simps)
qed

definition demo_w1 :: World where
  "demo_w1 = snd (newSession 1 ''10.0.0.1:7'' (empty_world open_registry))"

definition demo_w2 :: World where
  "demo_w2 = snd (newSession 2 ''10.0.0.2:7''
     (case readStep demo_env PickDeliver (Some (Marshal demo_hello)) 0 demo_w1 of
        Some (Inr w) \<Rightarrow> w | _ \<Rightarrow> demo_w1))"

lemma demo_w1_reachable: "reachable demo_w1"
proof -
  have "reachable ((empty_world open_registry)\<lparr>w_disk := Map.empty\<rparr>)"
    by (rule reachable.start) (auto split: if_splits)
  moreover have "(empty_world open_registry)\<lparr>w_disk := Map.empty\<rparr> = empty_world open_registry"
    by (simp add: empty_world_def)
  ultimately have "reachable (empty_world open_registry)" by simp
  then show ?thesis
    unfolding demo_w1_def by (rule reachable.step [where q = "Connect 1 ''10.0.0.1:7''"]) simp
qed

lemma demo_w1_sel [simp]:
  "awaits_hello 0 demo_w1" "s_sendQ (w_sess demo_w1 0) = []" "w_reg demo_w1 = open_registry"
  "s_pending (w_sess demo_w1 0) = []"
  by (simp_all add: demo_w1_def newSession_def fresh_session_def empty_world_def awaits_hello_def
      running_def)

lemma demo_hello_wire: "Unmarshal (Some (Marshal demo_hello)) zero_frame = Some demo_hello"
  by code_simp

lemma demo_hello_sel [simp]:
  "f_Type demo_hello = ''hello''" "f_Version demo_hello = HelloVersion"
  "f_DesiredId demo_hello = ''zzzz0000''" "f_Secret demo_hello = []"
  by (simp_all add: demo_hello_def zero_frame_def HelloVersion_def)

lemma demo_env_sel [simp]:
  "e_iter demo_env = id" "e_io demo_env = demo_io" "e_now demo_env = 5" "e_draws demo_env = []"
  "e_ack demo_env = PickSend"
  by (simp_all add: demo_env_def)

lemma demo_read:
  "\<exists>w. readStep demo_env PickDeliver (Some (Marshal demo_hello)) 0 demo_w1 = Some (Inr w) \<and>
     w_nsess w = 1 \<and> w_reg w = modify_tunnel ''zzzz0000'' (\<lambda>t. t\<lparr>t_session := Some 0\<rparr>) open_registry"
proof -
  let ?w = "touch 5 0 demo_w1"
  have w: "w_reg ?w = open_registry" "w_nsess ?w = 1" "s_helloDone (w_sess ?w 0) = False"
      "s_closed (w_sess ?w 0) = False" "s_sendQ (w_sess ?w 0) = []"
    by (simp_all add: touch_def sess_simps demo_w1_def newSession_def fresh_session_def empty_world_def)
  have "readStep demo_env PickDeliver (Some (Marshal demo_hello)) 0 demo_w1
      = map_option (finish 0) (onHello demo_env 0 demo_hello ?w)"
    by (simp add: readStep_finish readTurn_def demo_hello_wire)
  then show ?thesis
    using w by (simp add: onHello_def handleHello_def Register_unowned [of _ "newTunnel 0 ''zzzz0000''"]
        swap_session_def kick_def send_def sendWithContext_def with_deadline_def sendQueueCap_def
        finish_def sess_simps reg_simps)
qed

lemma demo_w2_reachable: "reachable demo_w2"
proof -
  obtain w where w: "readStep demo_env PickDeliver (Some (Marshal demo_hello)) 0 demo_w1 = Some (Inr w)"
    using demo_read by blast
  have "running 0 demo_w1"
    using demo_w1_sel(1) by (simp add: awaits_hello_def)
  then have "reachable w"
    by (intro reachable.step [OF demo_w1_reachable, of "Read demo_env PickDeliver (Some (Marshal demo_hello)) 0"])
      (simp add: w)
  then show ?thesis
    by (rule reachable.step [where q = "Connect 2 ''10.0.0.2:7''"]) (simp add: demo_w2_def w)
qed

lemma demo_w2_reg: "w_reg demo_w2 = modify_tunnel ''zzzz0000'' (\<lambda>t. t\<lparr>t_session := Some 0\<rparr>) open_registry"
  using demo_read by (auto simp: demo_w2_def newSession_def)

lemma demo_w2_sel [simp]:
  "awaits_hello 1 demo_w2" "s_sendQ (w_sess demo_w2 1) = []"
  "Get (w_reg demo_w2) ''zzzz0000'' = Some ((newTunnel 0 ''zzzz0000'')\<lparr>t_session := Some 0\<rparr>)"
proof -
  obtain w where w: "readStep demo_env PickDeliver (Some (Marshal demo_hello)) 0 demo_w1 = Some (Inr w)"
    "w_nsess w = 1" "Get (w_reg w) ''zzzz0000'' = Some ((newTunnel 0 ''zzzz0000'')\<lparr>t_session := Some 0\<rparr>)"
    using demo_read by (auto simp: reg_simps)
  then show "awaits_hello 1 demo_w2" "s_sendQ (w_sess demo_w2 1) = []"
    "Get (w_reg demo_w2) ''zzzz0000'' = Some ((newTunnel 0 ''zzzz0000'')\<lparr>t_session := Some 0\<rparr>)"
    by (simp_all add: demo_w2_def newSession_def fresh_session_def awaits_hello_def running_def)
qed

lemma demo_second_hello:
  "\<exists>w'. handleHello demo_env 1 demo_hello demo_w2 = Some (Inr (None, w')) \<and>
     s_tun (w_sess w' 1) = Some ''zzzz0000''"
  by (rule hello_unowned [OF _ demo_w2_sel])
    (use reachable_ok [OF demo_w2_reachable] in \<open>simp_all add: newTunnel_def\<close>)

theorem server_never_panics_witness:
  "\<exists>w'. server_exec (ReadFail 1) demo_w2 = Some (Inr w')"
proof -
  have "running 1 demo_w2" using demo_w2_sel(1) by (simp add: awaits_hello_def)
  then have "server_exec (ReadFail 1) demo_w2 = Some (readEnd 1 demo_w2)" by simp
  with server_never_panics [OF demo_w2_reachable this] show ?thesis by auto
qed

theorem online_tunnel_is_live_witness:
  "Get (w_reg demo_w2) ''zzzz0000'' = Some ((newTunnel 0 ''zzzz0000'')\<lparr>t_session := Some 0\<rparr>) \<and>
   \<not> s_closed (w_sess demo_w2 0) \<and> s_tun (w_sess demo_w2 0) = Some ''zzzz0000''"
  using online_tunnel_is_live [OF demo_w2_reachable demo_w2_sel(3)] by simp

theorem last_connect_wins_witness:
  "\<exists>w'. handleHello demo_env 1 demo_hello demo_w2 = Some (Inr (None, w')) \<and>
     s_closed (w_sess w' 0) \<and> s_tun (w_sess w' 1) = Some ''zzzz0000''"
proof -
  obtain w' where h: "handleHello demo_env 1 demo_hello demo_w2 = Some (Inr (None, w'))"
    "s_tun (w_sess w' 1) = Some ''zzzz0000''" using demo_second_hello by blast
  with last_connect_wins [OF demo_w2_reachable demo_w2_sel(1) h(1)] show ?thesis by auto
qed

theorem online_never_under_witness:
  "reachable demo_w2 \<and> int (online_tunnels (w_reg demo_w2)) \<le> w_online demo_w2"
  using online_never_under [OF demo_w2_reachable] demo_w2_reachable by simp

theorem kick_leaks_online_witness:
  "\<exists>w'. handleHello demo_env 1 demo_hello demo_w2 = Some (Inr (None, w')) \<and>
     online_tunnels (w_reg w') = online_tunnels (w_reg demo_w2) \<and> w_online w' = w_online demo_w2 + 1"
proof -
  obtain w' where h: "handleHello demo_env 1 demo_hello demo_w2 = Some (Inr (None, w'))"
    "s_tun (w_sess w' 1) = Some ''zzzz0000''" using demo_second_hello by blast
  with kick_leaks_online [OF demo_w2_reachable demo_w2_sel(1) h, of 0] show ?thesis by simp
qed

section \<open>Stopping the application\<close>

lemma close_unlinks:
  assumes "world_ok w" and "close i w = Inr w'"
  shows "Option.bind (Get (w_reg w) tid) t_session = Some i \<Longrightarrow>
      Option.bind (Get (w_reg w') tid) t_session = None"
    and "Option.bind (Get (w_reg w) tid) t_session = None \<Longrightarrow>
      Option.bind (Get (w_reg w') tid) t_session = None"
proof -
  have "t_session t \<noteq> Some i \<and>
      (\<forall>j. t_session t = Some j \<longrightarrow> (\<exists>t0. Get (w_reg w) tid = Some t0 \<and> t_session t0 = Some j))"
    if "Get (w_reg w') tid = Some t" for t
  proof (cases "s_closed (w_sess w i)")
    case True
    with that assms world_ok_ptr [OF assms(1), of tid t i] show ?thesis
      by (auto simp: close_eq pointer_ok_def)
  next
    case False
    with that assms close_offline_unlinks [OF assms(1), of "torn_down i w" i tid t] show ?thesis
      by (auto simp: close_eq torn_down_sel)
  qed
  then have *: "Option.bind (Get (w_reg w') tid) t_session = Some j \<Longrightarrow>
      j \<noteq> i \<and> Option.bind (Get (w_reg w) tid) t_session = Some j" for j
    by (fastforce simp: bind_eq_Some_conv)
  show "Option.bind (Get (w_reg w) tid) t_session = Some i \<Longrightarrow>
      Option.bind (Get (w_reg w') tid) t_session = None"
    using * by (metis option.exhaust option.inject)
  show "Option.bind (Get (w_reg w) tid) t_session = None \<Longrightarrow>
      Option.bind (Get (w_reg w') tid) t_session = None"
    using * by (metis option.exhaust option.distinct(1))
qed

lemma close_online_all:
  assumes "world_ok w"
  obtains w' where "close_online ts w = Inr w'" and "world_ok w'"
    and "\<And>t. t \<in> set ts \<Longrightarrow> live_session t w' = None"
    and "\<And>tid. Option.bind (Get (w_reg w) tid) t_session = None \<Longrightarrow>
           Option.bind (Get (w_reg w') tid) t_session = None"
  using assms
proof (induction ts arbitrary: w thesis)
  case Nil
  then show ?case by simp
next
  case (Cons t ts)
  obtain w1 where w1: "world_ok w1" "Option.bind (Get (w_reg w1) (t_ID t)) t_session = None"
    "close_online (t # ts) w = close_online ts w1"
    "\<And>tid. Option.bind (Get (w_reg w) tid) t_session = None \<Longrightarrow>
       Option.bind (Get (w_reg w1) tid) t_session = None"
  proof (cases "live_session t w")
    case None
    then show ?thesis using that [of w] Cons.prems by (simp add: live_session_def)
  next
    case (Some i)
    obtain v where v: "close i w = Inr v" "world_ok v" using close_ok [OF Cons.prems(2)] by metis
    with Some that [of v] close_unlinks [OF Cons.prems(2) v(1)] show ?thesis
      by (simp add: live_session_def)
  qed
  obtain w2 where w2: "close_online ts w1 = Inr w2" "world_ok w2"
    "\<And>u. u \<in> set ts \<Longrightarrow> live_session u w2 = None"
    "\<And>tid. Option.bind (Get (w_reg w1) tid) t_session = None \<Longrightarrow>
       Option.bind (Get (w_reg w2) tid) t_session = None"
    using Cons.IH [OF _ w1(1)] by metis
  show ?case
    by (rule Cons.prems(1) [of w2]) (use w1 w2 in \<open>auto simp: live_session_def\<close>)
qed

text \<open>C32.  Stopping a running application closes the listener and, without a panic, takes every tunnel
  offline, in whatever order the registry's map is walked; the application can start again.\<close>

theorem Stop_takes_all_offline:
  assumes "reachable w" and "Running a" and "ranges iter (w_reg w)"
  shows "\<exists>w'. Stop iter shutdown a w = Inr (shutdown, a\<lparr>a_ln := None\<rparr>, w') \<and>
    \<not> Running (a\<lparr>a_ln := None\<rparr>) \<and> \<not> (\<exists>tid t. Get (w_reg w') tid = Some t \<and> t_session t \<noteq> None)"
proof -
  have w: "world_ok w" using reachable_ok [OF assms(1)] by (simp add: server_ok_def)
  obtain w' where w': "close_online (List_tunnels iter (w_reg w)) w = Inr w'" "world_ok w'"
    "\<And>t. t \<in> set (List_tunnels iter (w_reg w)) \<Longrightarrow> live_session t w' = None"
    "\<And>tid. Option.bind (Get (w_reg w) tid) t_session = None \<Longrightarrow>
       Option.bind (Get (w_reg w') tid) t_session = None"
    by (rule close_online_all [OF w]) blast
  have "Option.bind (Get (w_reg w') tid) t_session = None" for tid
  proof (cases "Get (w_reg w) tid")
    case None
    then show ?thesis using w'(4) by simp
  next
    case (Some t)
    then have "(tid, t) \<in> set (iter (rg_tunnels (w_reg w)))"
      using mset_eq_setD [OF assms(3) [unfolded ranges_def]] by (simp add: Get_def map_of_SomeD)
    moreover have "t_ID t = tid"
      using reg.inv_get [OF world_ok_reg [OF w] Some] by (simp add: tunnel_ok_def)
    moreover from calculation have "t \<in> set (List_tunnels iter (w_reg w))"
      by (force simp: List_tunnels_def)
    ultimately show ?thesis
      using w'(3) [of t] by (simp add: live_session_def)
  qed
  then have "\<not> (\<exists>tid t. Get (w_reg w') tid = Some t \<and> t_session t \<noteq> None)"
    by (metis bind.bind_lunit)
  then show ?thesis using w'(1) assms(2) by (auto simp: Stop_def Running_def)
qed

theorem Stop_takes_all_offline_witness:
  "\<exists>w'. Stop rev None (snd (Start (\<lambda>_. Inr ''127.0.0.1:8080'') (NewApp '':8080'' [] []))) demo_w2
      = Inr (None, NewApp '':8080'' [] [], w') \<and>
    \<not> (\<exists>tid t. Get (w_reg w') tid = Some t \<and> t_session t \<noteq> None)"
proof -
  let ?a = "snd (Start (\<lambda>_. Inr ''127.0.0.1:8080'') (NewApp '':8080'' [] []))"
  have a: "Running ?a" "?a\<lparr>a_ln := None\<rparr> = NewApp '':8080'' [] []"
    by (simp_all add: Start_def NewApp_def Running_def)
  have "ranges rev (w_reg demo_w2)" by (simp add: ranges_def)
  from Stop_takes_all_offline [OF demo_w2_reachable a(1) this, of None] a(2) show ?thesis by auto
qed

section \<open>Sessions that a stop does not reach\<close>

lemma close_online_keeps:
  assumes "world_ok w" and "s_tun (w_sess w i) = None" and "close_online ts w = Inr w'"
  shows "w_sess w' i = w_sess w i \<and> w_nsess w' = w_nsess w"
  using assms
proof (induction ts arbitrary: w)
  case (Cons t ts)
  show ?case
  proof (cases "live_session t w")
    case None
    with Cons show ?thesis by simp
  next
    case (Some j)
    then obtain u where "Get (w_reg w) (t_ID t) = Some u" "t_session u = Some j"
      by (auto simp: live_session_def bind_eq_Some_conv)
    with Cons.prems(1,2) have j: "j \<noteq> i" using world_ok_ptr [of w "t_ID t" u j] by (auto simp: pointer_ok_def)
    obtain v where v: "close j w = Inr v" "world_ok v" using close_ok [OF Cons.prems(1)] by metis
    have "w_sess v i = w_sess w i" "w_nsess v = w_nsess w"
      using close_frame(6) [OF Cons.prems(1) v(1), of i] close_frame(1) [OF Cons.prems(1) v(1)] j by auto
    with Cons Some v show ?thesis by simp
  qed
qed simp

text \<open>A connection that has not said hello when the application stops is left as it is: it still waits
  for the hello, which can bring a tunnel online on the stopped server.\<close>

lemma Stop_leaves_greeting:
  assumes "reachable w" and "awaits_hello i w" and "Stop iter shutdown a w = Inr (e, a', w')"
  shows "awaits_hello i w' \<and> w_sess w' i = w_sess w i"
proof (cases "a_ln a = None")
  case False
  have ok: "server_ok w" using reachable_ok [OF assms(1)] by simp
  then have "s_tun (w_sess w i) = None"
    using assms(2) by (auto simp: server_ok_def greet_ok_def awaits_hello_def running_def)
  moreover have "close_online (List_tunnels iter (w_reg w)) w = Inr w'"
    using assms(3) False by (auto simp: Stop_def split: sum.splits)
  ultimately have "w_sess w' i = w_sess w i \<and> w_nsess w' = w_nsess w"
    using ok by (intro close_online_keeps) (simp_all add: server_ok_def)
  with assms(2) show ?thesis by (simp add: awaits_hello_def running_def)
qed (use assms in \<open>auto simp: Stop_def\<close>)

end
