(* ===== verification/Relay.thy ===== *)
theory Relay
  imports Server GoHttp
begin

text \<open>
  The relay endpoint (\<open>internal/server/relay.go\<close>): path and header rules, the upload of the
  request body, the two stages of the response, and the error mapping.

  \<open>handleRelay\<close> is a state machine: \<open>relay_open\<close> is everything up to the registered mailbox, and
  \<open>relay_step\<close> one further move of the handler, under the event that its \<open>select\<close>, its body read
  or its send meets.  Other goroutines act on the \<open>World\<close> between any two moves.  The response
  writer is a record of what the handler made of it; a handler that returns ends the response
  properly (\<open>Returned\<close>), one that hijacks the connection cuts it (\<open>Truncated\<close>).
\<close>

section \<open>Paths and headers\<close>

definition splitTunnelPath :: "string \<Rightarrow> string \<times> string" where
  "splitTunnelPath path =
     (let parts = SplitN2 CHR ''/'' (TrimPrefix path ''/t/'')
      in (hd parts, if length parts = 2 then ''/'' @ parts ! 1 else ''/''))"

definition validTunnelID :: "string \<Rightarrow> bool" where
  "validTunnelID i = idRe i"

definition hopByHopHeaders :: "string list" where
  "hopByHopHeaders =
     [''connection'', ''keep-alive'', ''proxy-authenticate'', ''proxy-authorization'', ''te'',
      ''trailer'', ''transfer-encoding'', ''upgrade'']"

definition hop_by_hop :: "string \<Rightarrow> bool" where
  "hop_by_hop k \<longleftrightarrow> ToLower k \<in> set hopByHopHeaders"

definition filterHeaders :: "headers \<Rightarrow> headers" where
  "filterHeaders h = filter (\<lambda>(k, vv). \<not> hop_by_hop k) h"

section \<open>The response writer\<close>

datatype body_part = Raw "byte list" | Doc json

text \<open>\<open>rw_flusher\<close> and \<open>rw_hijacker\<close> say what the server's writer supports; \<open>rw_flushed\<close> counts
  the parts of the body that have been flushed to the caller.\<close>

record response =
  rw_header :: headers
  rw_status :: "int option"
  rw_body :: "body_part list"
  rw_flushed :: nat
  rw_flusher :: bool
  rw_hijacker :: bool

definition Header_Add :: "string \<Rightarrow> string \<Rightarrow> response \<Rightarrow> response" where
  "Header_Add k v rw =
     rw\<lparr>rw_header := header_add k v (rw_header rw)\<rparr>"

definition Header_Set :: "string \<Rightarrow> string \<Rightarrow> response \<Rightarrow> response" where
  "Header_Set k v rw = rw\<lparr>rw_header := AList.update (CanonicalHeaderKey k) [v] (rw_header rw)\<rparr>"

text \<open>The first final status counts; an informational one (101 apart) is not final.\<close>

definition put_status :: "int \<Rightarrow> response \<Rightarrow> response" where
  "put_status code rw =
     (if rw_status rw \<noteq> None \<or> (100 \<le> code \<and> code \<le> 199 \<and> code \<noteq> 101) then rw
      else rw\<lparr>rw_status := Some code\<rparr>)"

text \<open>\<open>net/http\<close> panics on a code that has not three digits.\<close>

definition WriteHeader :: "int \<Rightarrow> response \<Rightarrow> response option" where
  "WriteHeader code rw = (if code < 100 \<or> code > 999 then None else Some (put_status code rw))"

definition Write_part :: "body_part \<Rightarrow> response \<Rightarrow> response" where
  "Write_part b rw = (put_status 200 rw)\<lparr>rw_body := rw_body rw @ [b]\<rparr>"

definition Flush_part :: "response \<Rightarrow> response" where
  "Flush_part rw = (if rw_flusher rw then rw\<lparr>rw_flushed := length (rw_body rw)\<rparr> else rw)"

definition writeJSON :: "int \<Rightarrow> string \<Rightarrow> response \<Rightarrow> response" where
  "writeJSON status msg rw =
     Write_part (Doc (JObj [(''error'', JStr msg)]))
       (put_status status (Header_Set ''Content-Type'' ''application/json'' rw))"

definition http_NotFound :: "response \<Rightarrow> response" where
  "http_NotFound rw =
     Write_part (Raw (bytes_of (''404 page not found'' @ [CHR 0x0A])))
       (put_status 404 (Header_Set ''X-Content-Type-Options'' ''nosniff''
          (Header_Set ''Content-Type'' ''text/plain; charset=utf-8'' rw)))"

text \<open>The keys of a response that are passed on, and the additions they make.\<close>

definition passes_back :: "string \<Rightarrow> bool" where
  "passes_back k \<longleftrightarrow> \<not> (hop_by_hop k \<or> EqualFold k ''Content-Length'')"

fun add_headers :: "headers \<Rightarrow> response \<Rightarrow> response" where
  "add_headers [] rw = rw"
| "add_headers ((k, vv) # hs) rw =
     add_headers hs (if passes_back k then fold (Header_Add k) vv rw else rw)"

definition writeResponseHeaders :: "int \<Rightarrow> headers \<Rightarrow> response \<Rightarrow> response option" where
  "writeResponseHeaders status hs rw =
     WriteHeader (if status = 0 then 502 else status) (add_headers hs rw)"

section \<open>The handler's state\<close>

record request =
  q_method :: string
  q_path :: string
  q_query :: string
  q_headers :: headers
  q_hasBody :: bool

datatype ending = Returned | Truncated | Panicked

datatype phase = Starting | Uploading int | Awaiting | Streaming | Finished ending

text \<open>\<open>rl_sent\<close> and \<open>rl_got\<close> record the frames the handler has queued and received.\<close>

record relay =
  rl_tunnel :: string
  rl_sess :: sid
  rl_req :: reqid
  rl_box :: addr
  rl_start :: frame
  rl_phase :: phase
  rl_rw :: response
  rl_sent :: "frame list"
  rl_got :: "frame list"

definition request_start :: "reqid \<Rightarrow> string \<Rightarrow> request \<Rightarrow> frame" where
  "request_start k path q =
     zero_frame\<lparr>f_Type := ''request_start'', f_ReqID := k, f_Method := q_method q, f_Path := path,
       f_Query := q_query q, f_Headers := filterHeaders (q_headers q), f_HasBody := q_hasBody q\<rparr>"

text \<open>Up to the registered mailbox; \<open>Inl\<close> is an immediate answer.\<close>

definition relay_open :: "request \<Rightarrow> response \<Rightarrow> World \<Rightarrow> ((response + relay) \<times> World) option" where
  "relay_open q rw w =
     (case splitTunnelPath (q_path q) of (tid, path) \<Rightarrow>
        if \<not> validTunnelID tid then Some (Inl (http_NotFound rw), w)
        else case Get (w_reg w) tid of
               None \<Rightarrow> Some (Inl (writeJSON 404 ''tunnel not found'' rw), w)
             | Some t \<Rightarrow>
                 (case t_session t of
                    None \<Rightarrow> Some (Inl (writeJSON 502 ''tunnel offline'' rw), w)
                  | Some i \<Rightarrow>
                      (case NextReqID i w of
                         None \<Rightarrow> None
                       | Some (k, w1) \<Rightarrow>
                           (case RegisterPending i k w1 of (a, w2) \<Rightarrow>
                              Some (Inr \<lparr>rl_tunnel = tid, rl_sess = i, rl_req = k, rl_box = a,
                                rl_start = request_start k path q, rl_phase = Starting, rl_rw = rw,
                                rl_sent = [], rl_got = []\<rparr>, w2)))))"

section \<open>The handler's moves\<close>

definition frame_cancel :: "reqid \<Rightarrow> frame" where
  "frame_cancel k = zero_frame\<lparr>f_Type := ''cancel'', f_ReqID := k\<rparr>"

definition maybeSendCancel :: "send_pick \<Rightarrow> sid \<Rightarrow> reqid \<Rightarrow> World \<Rightarrow> World option" where
  "maybeSendCancel pick i k w = map_option snd (send pick i (frame_cancel k) w)"

text \<open>The end of the handler, with its deferred \<open>UnregisterPending\<close>.\<close>

definition leave :: "ending \<Rightarrow> response \<Rightarrow> relay \<Rightarrow> World \<Rightarrow> panic + relay \<times> World" where
  "leave e rw r w =
     (case UnregisterPending (rl_sess r) (rl_req r) w of
        Inl p \<Rightarrow> Inl p
      | Inr w' \<Rightarrow> Inr (r\<lparr>rl_phase := Finished e, rl_rw := rw\<rparr>, w'))"

definition cancel_and_leave ::
    "send_pick \<Rightarrow> ending \<Rightarrow> response \<Rightarrow> relay \<Rightarrow> World \<Rightarrow> (panic + relay \<times> World) option" where
  "cancel_and_leave cpick e rw r w =
     map_option (leave e rw r) (maybeSendCancel cpick (rl_sess r) (rl_req r) w)"

datatype relay_event =
    SendStart send_pick send_pick
  | ReadBody "byte list" read_end send_pick send_pick send_pick
  | RecvFrame
  | RecvDone
  | TimedOut send_pick
  | CallerGone send_pick

definition request_chunk :: "reqid \<Rightarrow> int \<Rightarrow> byte list \<Rightarrow> frame" where
  "request_chunk k s bs =
     zero_frame\<lparr>f_Type := ''request_chunk'', f_ReqID := k, f_Seq := s, f_Data := EncodeToString bs\<rparr>"

definition request_end :: "reqid \<Rightarrow> frame" where
  "request_end k = zero_frame\<lparr>f_Type := ''request_end'', f_ReqID := k\<rparr>"

text \<open>One turn of the loop of \<open>streamBody\<close>: the error or the next state, and the frames queued.\<close>

datatype upload_out = UploadFailed | UploadMore int | UploadDone

definition upload_read ::
    "byte list \<Rightarrow> read_end \<Rightarrow> send_pick \<Rightarrow> send_pick \<Rightarrow> sid \<Rightarrow> reqid \<Rightarrow> int \<Rightarrow> World
       \<Rightarrow> (upload_out \<times> frame list \<times> World) option" where
  "upload_read bs rd pick epick i k s w =
     (let c = request_chunk k s bs in
      case (if bs = [] then Some (None, w) else sendWithContext pick i c w) of
        None \<Rightarrow> None
      | Some (Some e, w1) \<Rightarrow> Some (UploadFailed, [], w1)
      | Some (None, w1) \<Rightarrow>
          (let s1 = (if bs = [] then s else s + 1); cs = (if bs = [] then [] else [c]) in
           case rd of
             More \<Rightarrow> Some (UploadMore s1, cs, w1)
           | ReadErr e \<Rightarrow> Some (UploadFailed, cs, w1)
           | EOF \<Rightarrow>
               (case sendWithContext epick i (request_end k) w1 of
                  None \<Rightarrow> None
                | Some (Some e, w2) \<Rightarrow> Some (UploadFailed, cs, w2)
                | Some (None, w2) \<Rightarrow> Some (UploadDone, cs @ [request_end k], w2))))"

text \<open>The two stages of the response, frame by frame.\<close>

datatype frame_out = GoOn response | Leave ending response

definition on_first :: "frame \<Rightarrow> response \<Rightarrow> frame_out" where
  "on_first f rw =
     (if f_Type f = ''response_end'' then
        Leave Returned (writeJSON 502 (if f_Error f = [] then ''request failed'' else f_Error f) rw)
      else if f_Type f \<noteq> ''response_start'' then Leave Returned (writeJSON 502 ''unexpected frame'' rw)
      else case writeResponseHeaders (f_Status f) (f_Headers f) rw of
             None \<Rightarrow> Leave Panicked rw
           | Some rw' \<Rightarrow> GoOn (Flush_part rw'))"

definition on_frame :: "frame \<Rightarrow> response \<Rightarrow> frame_out" where
  "on_frame f rw =
     (if f_Type f = ''response_chunk'' then
        (case DecodeString (f_Data f) of
           None \<Rightarrow> Leave Returned rw
         | Some bs \<Rightarrow> GoOn (Flush_part (Write_part (Raw bs) rw)))
      else Leave Returned rw)"

text \<open>Whether the connection can be hijacked and closed decides how a cut response ends.\<close>

definition truncateResponse :: "response \<Rightarrow> ending" where
  "truncateResponse rw = (if rw_hijacker rw then Truncated else Returned)"

definition on_got :: "frame_out \<Rightarrow> frame \<Rightarrow> relay \<Rightarrow> World \<Rightarrow> panic + relay \<times> World" where
  "on_got res f r w =
     (let r1 = r\<lparr>rl_got := rl_got r @ [f]\<rparr> in
      case res of
        GoOn rw \<Rightarrow> Inr (r1\<lparr>rl_phase := Streaming, rl_rw := rw\<rparr>, w)
      | Leave e rw \<Rightarrow> leave e rw r1 w)"

definition count_request :: "string \<Rightarrow> World \<Rightarrow> World" where
  "count_request tid = modify_reg (modify_tunnel tid (\<lambda>t. t\<lparr>t_reqCount := t_reqCount t + 1\<rparr>))"

fun relay_step :: "relay_event \<Rightarrow> relay \<times> World \<Rightarrow> (panic + relay \<times> World) option" where
  "relay_step (SendStart pick cpick) (r, w) =
     (if rl_phase r \<noteq> Starting then None
      else case sendWithContext pick (rl_sess r) (rl_start r) w of
             None \<Rightarrow> None
           | Some (Some e, w1) \<Rightarrow>
               cancel_and_leave cpick Returned (writeJSON 502 ''tunnel unreachable'' (rl_rw r)) r w1
           | Some (None, w1) \<Rightarrow>
               Some (Inr (r\<lparr>rl_sent := [rl_start r],
                 rl_phase := (if f_HasBody (rl_start r) then Uploading 0 else Awaiting)\<rparr>,
                 count_request (rl_tunnel r) w1)))"
| "relay_step (ReadBody bs rd pick epick cpick) (r, w) =
     (case rl_phase r of
        Uploading s \<Rightarrow>
          (case upload_read bs rd pick epick (rl_sess r) (rl_req r) s w of
             None \<Rightarrow> None
           | Some (out, fs, w1) \<Rightarrow>
               (let r1 = r\<lparr>rl_sent := rl_sent r @ fs\<rparr> in
                case out of
                  UploadMore s1 \<Rightarrow> Some (Inr (r1\<lparr>rl_phase := Uploading s1\<rparr>, w1))
                | UploadDone \<Rightarrow> Some (Inr (r1\<lparr>rl_phase := Awaiting\<rparr>, w1))
                | UploadFailed \<Rightarrow>
                    cancel_and_leave cpick Returned
                      (writeJSON 502 ''failed to stream request body'' (rl_rw r)) r1 w1))
      | _ \<Rightarrow> None)"
| "relay_step RecvFrame (r, w) =
     (case receive (rl_box r) w of
        None \<Rightarrow> None
      | Some (f, w1) \<Rightarrow>
          (case rl_phase r of
             Awaiting \<Rightarrow> Some (on_got (on_first f (rl_rw r)) f r w1)
           | Streaming \<Rightarrow> Some (on_got (on_frame f (rl_rw r)) f r w1)
           | _ \<Rightarrow> None))"
| "relay_step RecvDone (r, w) =
     (if \<not> pr_done (w_box w (rl_box r)) then None
      else case rl_phase r of
             Awaiting \<Rightarrow> Some (leave Returned (writeJSON 502 ''tunnel offline'' (rl_rw r)) r w)
           | Streaming \<Rightarrow> Some (leave Returned (rl_rw r) r w)
           | _ \<Rightarrow> None)"
| "relay_step (TimedOut cpick) (r, w) =
     (case rl_phase r of
        Awaiting \<Rightarrow> cancel_and_leave cpick Returned (writeJSON 504 ''request timeout'' (rl_rw r)) r w
      | Streaming \<Rightarrow> cancel_and_leave cpick (truncateResponse (rl_rw r)) (rl_rw r) r w
      | _ \<Rightarrow> None)"
| "relay_step (CallerGone cpick) (r, w) =
     (case rl_phase r of
        Awaiting \<Rightarrow> cancel_and_leave cpick Returned (writeJSON 504 ''request timeout'' (rl_rw r)) r w
      | Streaming \<Rightarrow> cancel_and_leave cpick Returned (rl_rw r) r w
      | _ \<Rightarrow> None)"

section \<open>Properties of the path and header rules\<close>

text \<open>The public path of a tunnel splits into the tunnel's ID and the target path, with \<open>/\<close> where
  the target path is missing.\<close>

theorem splitTunnelPath_public:
  assumes "validTunnelID tid"
  shows "splitTunnelPath (''/t/'' @ tid @ ''/'' @ rest) = (tid, ''/'' @ rest) \<and>
    splitTunnelPath (''/t/'' @ tid) = (tid, ''/'')"
proof -
  have n: "CHR ''/'' \<notin> set tid" using assms by (simp add: validTunnelID_def idRe_no_slash)
  show ?thesis
    using SplitN2_sep [OF n, of rest] SplitN2_none [OF n]
      TrimPrefix_append [of "''/t/''" "tid @ ''/'' @ rest"] TrimPrefix_append [of "''/t/''" tid]
    by (simp add: splitTunnelPath_def del: TrimPrefix_append)
qed

lemma header_values_Add:
  "header_values c (rw_header (Header_Add k v rw)) =
     header_values c (rw_header rw) @ (if CanonicalHeaderKey k = c then [v] else [])"
  by (simp add: Header_Add_def header_values_add)

lemma header_values_fold:
  "header_values c (rw_header (fold (Header_Add k) vv rw)) =
     header_values c (rw_header rw) @ (if CanonicalHeaderKey k = c then vv else [])"
  by (induction vv arbitrary: rw) (simp_all add: header_values_Add)

lemma header_values_add_headers:
  "header_values c (rw_header (add_headers hs rw)) = header_values c (rw_header rw) @
     concat (map snd (filter (\<lambda>(k, vv). passes_back k \<and> CanonicalHeaderKey k = c) hs))"
  by (induction hs rw rule: add_headers.induct) (auto simp: header_values_fold)

lemma Header_Add_rest [simp]:
  "rw_status (Header_Add k v rw) = rw_status rw" "rw_body (Header_Add k v rw) = rw_body rw"
  "rw_flushed (Header_Add k v rw) = rw_flushed rw" "rw_flusher (Header_Add k v rw) = rw_flusher rw"
  "rw_hijacker (Header_Add k v rw) = rw_hijacker rw"
  by (simp_all add: Header_Add_def)

lemma fold_Header_Add_rest [simp]:
  "rw_status (fold (Header_Add k) vv rw) = rw_status rw"
  "rw_body (fold (Header_Add k) vv rw) = rw_body rw"
  "rw_flushed (fold (Header_Add k) vv rw) = rw_flushed rw"
  "rw_flusher (fold (Header_Add k) vv rw) = rw_flusher rw"
  "rw_hijacker (fold (Header_Add k) vv rw) = rw_hijacker rw"
  by (induction vv arbitrary: rw) simp_all

lemma add_headers_rest [simp]:
  "rw_status (add_headers hs rw) = rw_status rw" "rw_body (add_headers hs rw) = rw_body rw"
  "rw_flushed (add_headers hs rw) = rw_flushed rw" "rw_flusher (add_headers hs rw) = rw_flusher rw"
  "rw_hijacker (add_headers hs rw) = rw_hijacker rw"
  by (induction hs rw rule: add_headers.induct) simp_all

lemma map_of_filter_key:
  "map_of (filter (\<lambda>(k, v). P k) d) k = (if P k then map_of d k else None)"
  by (induction d) auto

lemma EqualFold_CanonicalHeaderKey: "EqualFold (CanonicalHeaderKey k) s = EqualFold k s"
proof (cases "list_all token_char k")
  case True
  then have "is_ascii k" by (auto simp: is_ascii_def list_all_iff dest: token_ascii)
  with True show ?thesis
    by (simp add: EqualFold_def CanonicalHeaderKey_def fold_case_ascii canonical_ascii lower_canonical)
qed (simp add: CanonicalHeaderKey_def)

text \<open>The hop-by-hop headers by name.\<close>

lemma hop_by_hop_names:
  "hop_by_hop k \<longleftrightarrow> ToLower k \<in> {''connection'', ''keep-alive'', ''proxy-authenticate'', ''proxy-authorization'',
     ''te'', ''trailer'', ''transfer-encoding'', ''upgrade''}"
  by (simp add: hop_by_hop_def hopByHopHeaders_def)

text \<open>C27.  Towards the target, the headers of the request are those of the caller without the eight
  hop-by-hop ones in any spelling, values untouched.  Towards the caller, the values under each canonical key
  are those the client sent under some spelling of it, in order; the eight hop-by-hop headers and
  \<open>Content-Length\<close>, in any spelling, have none.  (Where the client's map has two spellings of
  one key, Go's order of them is not defined; here it is the order of the list.)\<close>

theorem headers_pass_through:
  "map_of (filterHeaders h) k =
     (if ToLower k \<in> {''connection'', ''keep-alive'', ''proxy-authenticate'', ''proxy-authorization'',
          ''te'', ''trailer'', ''transfer-encoding'', ''upgrade''}
      then None else map_of h k) \<and>
   header_values c (rw_header (add_headers hs (rw\<lparr>rw_header := []\<rparr>))) =
     (if ToLower c \<in> {''connection'', ''keep-alive'', ''proxy-authenticate'', ''proxy-authorization'',
          ''te'', ''trailer'', ''transfer-encoding'', ''upgrade''} \<or> EqualFold c ''Content-Length''
      then [] else concat (map snd (filter (\<lambda>(k, vv). CanonicalHeaderKey k = c) hs)))"
proof -
  have same: "CanonicalHeaderKey k = c \<Longrightarrow> passes_back k = passes_back c" for k
    using ToLower_CanonicalHeaderKey [of k] EqualFold_CanonicalHeaderKey [of k "''Content-Length''"]
    by (auto simp: passes_back_def hop_by_hop_def)
  have "filter (\<lambda>(k, vv). passes_back k \<and> CanonicalHeaderKey k = c) hs =
      (if passes_back c then filter (\<lambda>(k, vv). CanonicalHeaderKey k = c) hs else [])"
    using same by (induction hs) auto
  moreover have "header_values c (rw_header (rw\<lparr>rw_header := []\<rparr>)) = []"
    by (simp add: header_values_def)
  ultimately show ?thesis
    unfolding hop_by_hop_names [symmetric]
    by (simp add: filterHeaders_def map_of_filter_key header_values_add_headers passes_back_def)
qed

interpretation up: chunking "request_chunk k" "''request_chunk''" k for k
  by unfold_locales (simp_all add: request_chunk_def zero_frame_def)

section \<open>Runs of the handler\<close>

definition new_response :: "bool \<Rightarrow> bool \<Rightarrow> response" where
  "new_response flusher hijacker = \<lparr>rw_header = [], rw_status = None, rw_body = [], rw_flushed = 0,
     rw_flusher = flusher, rw_hijacker = hijacker\<rparr>"

definition opened :: "relay \<Rightarrow> bool" where
  "opened r \<longleftrightarrow> rl_phase r = Starting \<and> rl_sent r = [] \<and> rl_got r = [] \<and>
     rl_rw r = new_response (rw_flusher (rl_rw r)) (rw_hijacker (rl_rw r))"

lemma relay_open_opened: "relay_open q (new_response fl hj) w = Some (Inr r, w') \<Longrightarrow> opened r"
  by (auto simp: relay_open_def opened_def new_response_def split: prod.splits if_splits option.splits)

text \<open>The moves of one handler; before each of them the \<open>World\<close> may have changed in any way.\<close>

inductive relay_run :: "relay \<Rightarrow> relay_event list \<Rightarrow> relay \<Rightarrow> bool" for r0 where
  nil: "relay_run r0 [] r0"
| snoc: "relay_run r0 evs r \<Longrightarrow> relay_step ev (r, w) = Some (Inr (r', w')) \<Longrightarrow>
     relay_run r0 (evs @ [ev]) r'"

lemma leave_Inr: "leave e rw r w = Inr (r', w') \<Longrightarrow> r' = r\<lparr>rl_phase := Finished e, rl_rw := rw\<rparr>"
  by (auto simp: leave_def split: sum.splits)

lemma cancel_and_leave_Inr:
  "cancel_and_leave c e rw r w = Some (Inr (r', w')) \<Longrightarrow> r' = r\<lparr>rl_phase := Finished e, rl_rw := rw\<rparr>"
  by (auto simp: cancel_and_leave_def dest: leave_Inr)

lemma on_got_Inr:
  "on_got res f r w = Inr (r', w') \<Longrightarrow> r' = r\<lparr>rl_got := rl_got r @ [f],
     rl_phase := (case res of GoOn _ \<Rightarrow> Streaming | Leave e _ \<Rightarrow> Finished e),
     rl_rw := (case res of GoOn rw \<Rightarrow> rw | Leave _ rw \<Rightarrow> rw)\<rparr>"
  by (auto simp: on_got_def Let_def dest!: leave_Inr split: frame_out.splits)

text \<open>What a turn of the upload loop queues.\<close>

lemma upload_read_frames:
  assumes "upload_read bs rd pick epick i k s w = Some (out, fs, w')"
  shows "out = UploadMore s' \<Longrightarrow> rd = More \<and>
      (if bs = [] then fs = [] \<and> s' = s else fs = [request_chunk k s bs] \<and> s' = s + 1)"
    and "out = UploadDone \<Longrightarrow> rd = EOF \<and>
      fs = (if bs = [] then [] else [request_chunk k s bs]) @ [request_end k]"
  using assms
  by (auto simp: upload_read_def Let_def split: option.splits if_splits read_end.splits)

lemma relay_step_cases:
  assumes "relay_step ev (r, w) = Some (Inr (r', w'))"
  obtains
    (started) p c where "ev = SendStart p c" "rl_phase r = Starting"
      "r' = r\<lparr>rl_sent := [rl_start r],
         rl_phase := (if f_HasBody (rl_start r) then Uploading 0 else Awaiting)\<rparr>"
  | (read) bs rd p e c s out fs w1 where "ev = ReadBody bs rd p e c" "rl_phase r = Uploading s"
      "upload_read bs rd p e (rl_sess r) (rl_req r) s w = Some (out, fs, w1)"
      "r' = (case out of
         UploadMore s1 \<Rightarrow> r\<lparr>rl_sent := rl_sent r @ fs, rl_phase := Uploading s1\<rparr>
       | UploadDone \<Rightarrow> r\<lparr>rl_sent := rl_sent r @ fs, rl_phase := Awaiting\<rparr>
       | UploadFailed \<Rightarrow> r\<lparr>rl_sent := rl_sent r @ fs, rl_phase := Finished Returned,
           rl_rw := writeJSON 502 ''failed to stream request body'' (rl_rw r)\<rparr>)"
  | (got) f res where "ev = RecvFrame"
      "rl_phase r = Awaiting \<and> res = on_first f (rl_rw r) \<or> rl_phase r = Streaming \<and> res = on_frame f (rl_rw r)"
      "r' = r\<lparr>rl_got := rl_got r @ [f],
         rl_phase := (case res of GoOn _ \<Rightarrow> Streaming | Leave e _ \<Rightarrow> Finished e),
         rl_rw := (case res of GoOn rw \<Rightarrow> rw | Leave _ rw \<Rightarrow> rw)\<rparr>"
  | (failed) code msg where "\<not> (\<exists>bs rd p e c. ev = ReadBody bs rd p e c)" "code = 502 \<or> code = 504"
      "rl_phase r = Starting \<or> rl_phase r = Awaiting"
      "r' = r\<lparr>rl_phase := Finished Returned, rl_rw := writeJSON code msg (rl_rw r)\<rparr>"
  | (cut) e where "\<not> (\<exists>bs rd p e c. ev = ReadBody bs rd p e c)" "rl_phase r = Streaming"
      "e = Returned \<or> e = Truncated \<and> rw_hijacker (rl_rw r)" "r' = r\<lparr>rl_phase := Finished e\<rparr>"
proof (cases ev)
  case (SendStart p c)
  then show thesis
    using assms started [OF SendStart] failed [of 502 "''tunnel unreachable''"]
    by (auto split: if_splits option.splits prod.splits dest!: cancel_and_leave_Inr)
next
  case (ReadBody bs rd p e c)
  then obtain s out fs w1 where s: "rl_phase r = Uploading s"
    and u: "upload_read bs rd p e (rl_sess r) (rl_req r) s w = Some (out, fs, w1)"
    using assms by (auto split: phase.splits option.splits)
  show thesis
    by (rule read [OF ReadBody s u])
      (use assms ReadBody s u in \<open>auto simp: Let_def dest!: cancel_and_leave_Inr split: upload_out.splits\<close>)
next
  case RecvFrame
  then show thesis
    using assms by (auto split: option.splits phase.splits dest!: on_got_Inr intro: got [OF RecvFrame])
next
  case RecvDone
  then show thesis
    using assms failed [of 502 "''tunnel offline''"] cut [of Returned]
    by (auto split: if_splits phase.splits dest!: leave_Inr)
next
  case (TimedOut c)
  then show thesis
    using assms failed [of 504 "''request timeout''"] cut [of "truncateResponse (rl_rw r)"]
    by (auto simp: truncateResponse_def split: if_splits phase.splits dest!: cancel_and_leave_Inr)
next
  case (CallerGone c)
  then show thesis
    using assms failed [of 504 "''request timeout''"] cut [of Returned]
    by (auto split: phase.splits dest!: cancel_and_leave_Inr)
qed

lemma relay_step_same:
  assumes "relay_step ev (r, w) = Some (Inr (r', w'))"
  shows "rl_req r' = rl_req r" and "rl_start r' = rl_start r" and "rl_sess r' = rl_sess r"
  using assms by (cases rule: relay_step_cases; auto split: upload_out.splits)+

lemma relay_run_same:
  "relay_run r0 evs r \<Longrightarrow> rl_req r = rl_req r0 \<and> rl_start r = rl_start r0 \<and> rl_sess r = rl_sess r0"
  by (induction rule: relay_run.induct) (auto dest: relay_step_same)

subsection \<open>The upload\<close>

fun read_bytes :: "relay_event \<Rightarrow> byte list" where
  "read_bytes (ReadBody bs _ _ _ _) = bs"
| "read_bytes _ = []"

definition body_read :: "relay_event list \<Rightarrow> byte list" where
  "body_read evs = concat (map read_bytes evs)"

definition sent_chunks :: "relay \<Rightarrow> byte list list \<Rightarrow> frame list" where
  "sent_chunks r bss = rl_start r # chunk_frames (request_chunk (rl_req r)) bss"

definition upload_ok :: "relay_event list \<Rightarrow> relay \<Rightarrow> bool" where
  "upload_ok evs r = (case rl_phase r of
     Starting \<Rightarrow> rl_sent r = [] \<and> body_read evs = []
   | Uploading s \<Rightarrow> f_HasBody (rl_start r) \<and> (\<exists>bss. rl_sent r = sent_chunks r bss \<and>
       s = int (length bss) \<and> concat bss = body_read evs)
   | Finished e \<Rightarrow> True
   | _ \<Rightarrow> (\<exists>bss. rl_sent r = sent_chunks r bss @ (if f_HasBody (rl_start r) then [request_end (rl_req r)] else []) \<and>
       concat bss = body_read evs))"

lemma upload_ok_step:
  assumes "upload_ok evs r" and "relay_step ev (r, w) = Some (Inr (r', w'))"
  shows "upload_ok (evs @ [ev]) r'"
  using assms(2)
proof (cases rule: relay_step_cases)
  case (started p c)
  with assms(1) show ?thesis
    by (auto simp: upload_ok_def sent_chunks_def chunk_frames_def body_read_def)
next
  case (read bs rd p e c s out fs w1)
  obtain bss where b: "rl_sent r = sent_chunks r bss" "s = int (length bss)" "concat bss = body_read evs"
    and hb: "f_HasBody (rl_start r)"
    using assms(1) read(2) by (auto simp: upload_ok_def)
  have snoc: "sent_chunks r (bss @ [bs]) = sent_chunks r bss @ [request_chunk (rl_req r) s bs]"
    by (simp add: sent_chunks_def up.chunk_frames_snoc b(2))
  have ev: "body_read (evs @ [ev]) = concat (bss @ [bs])"
    by (simp add: body_read_def b(3) read(1))
  show ?thesis
  proof (cases out)
    case UploadFailed
    then show ?thesis using read(4) by (simp add: upload_ok_def)
  next
    case (UploadMore s1)
    show ?thesis
    proof (cases "bs = []")
      case True
      with UploadMore upload_read_frames(1) [OF read(3), of s1] read(4) b hb ev show ?thesis
        by (auto simp: upload_ok_def sent_chunks_def)
    next
      case False
      with UploadMore upload_read_frames(1) [OF read(3), of s1] read(4) b hb ev snoc show ?thesis
        by (auto simp: upload_ok_def sent_chunks_def intro!: exI [of _ "bss @ [bs]"])
    qed
  next
    case UploadDone
    show ?thesis
    proof (cases "bs = []")
      case True
      with UploadDone upload_read_frames(2) [OF read(3)] read(4) b hb ev show ?thesis
        by (auto simp: upload_ok_def sent_chunks_def)
    next
      case False
      with UploadDone upload_read_frames(2) [OF read(3)] read(4) b hb ev snoc show ?thesis
        by (auto simp: upload_ok_def sent_chunks_def intro!: exI [of _ "bss @ [bs]"])
    qed
  qed
next
  case (got f res)
  with assms(1) show ?thesis
    by (auto simp: upload_ok_def body_read_def sent_chunks_def split: frame_out.splits)
qed (use assms(1) in \<open>simp_all add: upload_ok_def\<close>)

lemma upload_ok_run: "relay_run r0 evs r \<Longrightarrow> opened r0 \<Longrightarrow> upload_ok evs r"
proof (induction rule: relay_run.induct)
  case nil
  then show ?case by (simp add: opened_def upload_ok_def body_read_def)
next
  case (snoc evs r ev w r' w')
  then show ?case using upload_ok_step by blast
qed

text \<open>C9.  The request body reaches the tunnel whole.  Once the handler waits for the response, it has
  queued the start frame, then, if the caller sent a body, chunks numbered 0, 1, 2, ... of this
  request whose payloads make up exactly the bytes read, then the end frame, and nothing else.\<close>

theorem upload_complete:
  assumes "opened r0" and "relay_run r0 evs r" and "rl_phase r = Awaiting \<or> rl_phase r = Streaming"
  shows "\<exists>chunks. rl_sent r = rl_start r0 # chunks @
      (if f_HasBody (rl_start r0) then [request_end (rl_req r0)] else []) \<and>
    concat (map payload chunks) = body_read evs \<and> map f_Seq chunks = map int [0..<length chunks] \<and>
    list_all (\<lambda>f. f_Type f = ''request_chunk'' \<and> f_ReqID f = rl_req r0) chunks"
proof -
  have same: "rl_start r = rl_start r0" "rl_req r = rl_req r0"
    using relay_run_same [OF assms(2)] by simp_all
  obtain bss where b: "rl_sent r = sent_chunks r bss @
      (if f_HasBody (rl_start r0) then [request_end (rl_req r0)] else [])" "concat bss = body_read evs"
    using upload_ok_run [OF assms(2,1)] assms(3) same by (auto simp: upload_ok_def)
  let ?cs = "chunk_frames (request_chunk (rl_req r0)) bss"
  have "concat (map payload ?cs) = body_read evs" "map f_Seq ?cs = map int [0..<length ?cs]"
    using up.map_chunk_frames(1,2) [of "rl_req r0" bss] b(2) by (simp_all add: chunk_frames_def)
  moreover have "list_all (\<lambda>f. f_Type f = ''request_chunk'' \<and> f_ReqID f = rl_req r0) ?cs"
    using up.map_chunk_frames(3) by (auto simp: list_all_iff)
  ultimately show ?thesis
    using b(1) same by (intro exI [of _ ?cs]) (simp add: sent_chunks_def)
qed

subsection \<open>The response\<close>

definition good_chunk :: "frame \<Rightarrow> bool" where
  "good_chunk f \<longleftrightarrow> f_Type f = ''response_chunk'' \<and> DecodeString (f_Data f) \<noteq> None"

definition feed :: "frame list \<Rightarrow> response \<Rightarrow> response" where
  "feed cs rw = fold (\<lambda>f rw. Flush_part (Write_part (Raw (payload f)) rw)) cs rw"

definition started_by :: "frame \<Rightarrow> response \<Rightarrow> response \<Rightarrow> bool" where
  "started_by f0 rw0 rw1 \<longleftrightarrow> f_Type f0 = ''response_start'' \<and>
     writeResponseHeaders (f_Status f0) (f_Headers f0) rw0 = Some rw1"

text \<open>The answers the handler makes up itself.\<close>

definition gateway_error :: "response \<Rightarrow> response \<Rightarrow> bool" where
  "gateway_error rw0 rw \<longleftrightarrow> (\<exists>code msg. (code = 502 \<or> code = 504) \<and> rw = writeJSON code msg rw0)"

definition answer_ok :: "response \<Rightarrow> relay \<Rightarrow> bool" where
  "answer_ok rw0 r = (case rl_phase r of
     Streaming \<Rightarrow> (\<exists>f0 cs rw1. rl_got r = f0 # cs \<and> started_by f0 rw0 rw1 \<and> list_all good_chunk cs \<and>
       rl_rw r = feed cs (Flush_part rw1))
   | Finished e \<Rightarrow>
       (rl_got r = [] \<or> (\<exists>f0. rl_got r = [f0] \<and> f_Type f0 \<noteq> ''response_start'')) \<and> e = Returned \<and>
         gateway_error rw0 (rl_rw r) \<or>
       (\<exists>f0. rl_got r = [f0] \<and> f_Type f0 = ''response_start'' \<and>
          writeResponseHeaders (f_Status f0) (f_Headers f0) rw0 = None \<and> e = Panicked) \<or>
       (\<exists>f0 cs rw1. rl_got r = f0 # cs \<and> started_by f0 rw0 rw1 \<and>
          rl_rw r = feed (takeWhile good_chunk cs) (Flush_part rw1))
   | _ \<Rightarrow> rl_got r = [] \<and> rl_rw r = rw0)"

lemma takeWhile_list_all: "list_all P xs \<Longrightarrow> takeWhile P xs = xs"
  by (induction xs) simp_all

lemma answer_ok_streamed:
  assumes "rl_got r = f0 # cs" and "started_by f0 rw0 rw1"
    and "rl_rw r = feed (takeWhile good_chunk cs) (Flush_part rw1)" and "rl_phase r = Finished e"
  shows "answer_ok rw0 r"
  using assms unfolding answer_ok_def phase.case by (simp only: phase.case) blast

lemma on_frame_good:
  "on_frame f rw = (if good_chunk f then GoOn (Flush_part (Write_part (Raw (payload f)) rw)) else Leave Returned rw)"
  by (auto simp: on_frame_def good_chunk_def payload_def split: option.splits)

lemma feed_snoc: "feed (cs @ [f]) rw = Flush_part (Write_part (Raw (payload f)) (feed cs rw))"
  by (simp add: feed_def)

lemma answer_ok_step:
  assumes "answer_ok rw0 r" and "relay_step ev (r, w) = Some (Inr (r', w'))"
  shows "answer_ok rw0 r'"
  using assms(2)
proof (cases rule: relay_step_cases)
  case (started p c)
  with assms(1) show ?thesis by (simp add: answer_ok_def)
next
  case (read bs rd p e c s out fs w1)
  with assms(1) show ?thesis by (auto simp: answer_ok_def gateway_error_def split: upload_out.splits)
next
  case (failed code msg)
  have "gateway_error rw0 (writeJSON code msg rw0)"
    using failed(2) unfolding gateway_error_def by blast
  with failed assms(1) show ?thesis by (auto simp: answer_ok_def)
next
  case (cut e)
  then obtain f0 cs rw1 where "rl_got r = f0 # cs" "started_by f0 rw0 rw1" "list_all good_chunk cs"
    "rl_rw r = feed cs (Flush_part rw1)"
    using assms(1) by (auto simp: answer_ok_def)
  then show ?thesis
    using cut by (intro answer_ok_streamed [of _ f0 cs rw0 rw1]) (simp_all add: takeWhile_list_all)
next
  case (got f res)
  from got(2) show ?thesis
  proof
    assume a: "rl_phase r = Awaiting \<and> res = on_first f (rl_rw r)"
    then have "rl_got r = []" "rl_rw r = rw0" using assms(1) by (simp_all add: answer_ok_def)
    with a got(3) show ?thesis
      by (auto simp: answer_ok_def on_first_def gateway_error_def started_by_def feed_def
          split: option.splits if_splits)
  next
    assume s: "rl_phase r = Streaming \<and> res = on_frame f (rl_rw r)"
    then obtain f0 cs rw1 where g: "rl_got r = f0 # cs" "started_by f0 rw0 rw1" "list_all good_chunk cs"
      "rl_rw r = feed cs (Flush_part rw1)"
      using assms(1) by (auto simp: answer_ok_def)
    have "takeWhile good_chunk (cs @ [f]) = cs @ (if good_chunk f then [f] else [])"
      using g(3) by (simp add: list_all_iff)
    with s g got(3) show ?thesis
      by (cases "good_chunk f") (auto simp: answer_ok_def on_frame_good feed_snoc)
  qed
qed

lemma answer_ok_run: "relay_run r0 evs r \<Longrightarrow> opened r0 \<Longrightarrow> answer_ok (rl_rw r0) r"
proof (induction rule: relay_run.induct)
  case nil
  then show ?case by (simp add: opened_def answer_ok_def)
next
  case (snoc evs r ev w r' w')
  then show ?case using answer_ok_step by blast
qed

lemma put_status_sel [simp]:
  "rw_header (put_status c rw) = rw_header rw" "rw_body (put_status c rw) = rw_body rw"
  "rw_flushed (put_status c rw) = rw_flushed rw" "rw_flusher (put_status c rw) = rw_flusher rw"
  "rw_hijacker (put_status c rw) = rw_hijacker rw"
  "rw_status rw = Some d \<Longrightarrow> rw_status (put_status c rw) = Some d"
  by (simp_all add: put_status_def)

lemma Flush_part_sel [simp]:
  "rw_header (Flush_part rw) = rw_header rw" "rw_body (Flush_part rw) = rw_body rw"
  "rw_status (Flush_part rw) = rw_status rw" "rw_flusher (Flush_part rw) = rw_flusher rw"
  by (simp_all add: Flush_part_def)

lemma feed_sel:
  "rw_header (feed cs rw) = rw_header rw \<and> rw_flusher (feed cs rw) = rw_flusher rw \<and>
   rw_body (feed cs rw) = rw_body rw @ map (Raw \<circ> payload) cs"
proof (induction cs rule: rev_induct)
  case Nil
  then show ?case by (simp add: feed_def)
next
  case (snoc f cs)
  then show ?case by (simp add: feed_snoc Write_part_def)
qed

lemma feed_status: "rw_status rw = Some d \<Longrightarrow> rw_status (feed cs rw) = Some d"
  by (induction cs rule: rev_induct) (simp_all add: feed_snoc Write_part_def, simp add: feed_def)

lemma feed_flushed:
  "rw_flusher rw \<Longrightarrow> rw_flushed rw = length (rw_body rw) \<Longrightarrow>
   rw_flushed (feed cs rw) = length (rw_body (feed cs rw))"
proof (induction cs rule: rev_induct)
  case Nil
  then show ?case by (simp add: feed_def)
next
  case (snoc f cs)
  then show ?case
    using feed_sel [of cs rw] by (simp add: feed_snoc Write_part_def Flush_part_def)
qed

lemma answer_to_caller:
  assumes "opened r0" and "relay_run r0 evs r" and "rl_got r = f0 # cs"
    and "f_Type f0 = ''response_start''" and "200 \<le> f_Status f0" and "f_Status f0 \<le> 999"
  shows "rw_status (rl_rw r) = Some (f_Status f0) \<and>
    rw_header (rl_rw r) = rw_header (add_headers (f_Headers f0) (rl_rw r0)) \<and>
    rw_body (rl_rw r) = map (Raw \<circ> payload) (takeWhile good_chunk cs) \<and>
    \<not> (rw_flusher (rl_rw r) \<and> rw_flushed (rl_rw r) \<noteq> length (rw_body (rl_rw r)))"
proof -
  have ok: "answer_ok (rl_rw r0) r" by (rule answer_ok_run [OF assms(2,1)])
  have st: "rw_status (rl_rw r0) = None" "rw_body (rl_rw r0) = []"
    using assms(1) unfolding opened_def by (metis new_response_def response.select_convs(2,3))+
  have w: "writeResponseHeaders (f_Status f0) (f_Headers f0) (rl_rw r0) =
      Some (put_status (f_Status f0) (add_headers (f_Headers f0) (rl_rw r0)))"
    using assms(5,6) by (simp add: writeResponseHeaders_def WriteHeader_def)
  let ?rw1 = "put_status (f_Status f0) (add_headers (f_Headers f0) (rl_rw r0))"
  have "rl_rw r = feed (takeWhile good_chunk cs) (Flush_part ?rw1)"
  proof (cases "rl_phase r")
    case Streaming
    with ok assms(3) w show ?thesis
      by (auto simp: answer_ok_def started_by_def takeWhile_list_all)
  next
    case (Finished e)
    with ok assms(3,4) w show ?thesis by (auto simp: answer_ok_def started_by_def)
  qed (use ok assms(3) in \<open>simp_all add: answer_ok_def\<close>)
  moreover have "rw_status ?rw1 = Some (f_Status f0)"
    using st assms(5) by (simp add: put_status_def)
  moreover have "rw_flusher (Flush_part ?rw1) \<Longrightarrow>
      rw_flushed (Flush_part ?rw1) = length (rw_body (Flush_part ?rw1))"
    by (auto simp: Flush_part_def split: if_splits)
  ultimately show ?thesis
    using st feed_sel [of "takeWhile good_chunk cs" "Flush_part ?rw1"]
      feed_status [of "Flush_part ?rw1" "f_Status f0" "takeWhile good_chunk cs"]
      feed_flushed [of "Flush_part ?rw1" "takeWhile good_chunk cs"] by simp
qed

text \<open>C8.  The response reaches the caller as the client sent it: the status and the headers of the start
  frame, then the decoded payload of each chunk up to the first frame that is not a good chunk,
  each flushed at once when the connection can be flushed.\<close>

theorem response_relayed:
  assumes "opened r0" and "relay_run r0 evs r" and "rl_got r = f0 # cs"
    and "f_Type f0 = ''response_start''" and "200 \<le> f_Status f0" and "f_Status f0 \<le> 999"
  shows "rw_status (rl_rw r) = Some (f_Status f0) \<and>
    rw_header (rl_rw r) = rw_header (add_headers (f_Headers f0) (rl_rw r0)) \<and>
    rw_body (rl_rw r) = map (Raw \<circ> payload) (takeWhile good_chunk cs) \<and>
    \<not> (rw_flusher (rl_rw r) \<and> rw_flushed (rl_rw r) \<noteq> length (rw_body (rl_rw r)))"
  using assms by (rule answer_to_caller)

text \<open>C26.  Without a \<open>response_start\<close> from the client there is no success: the handler ends with 502 or
  504 and an error document of its own, whatever made it end.\<close>

theorem no_start_no_success:
  assumes "opened r0" and "relay_run r0 evs r" and "rl_phase r = Finished e"
    and "\<not> (\<exists>f0 cs. rl_got r = f0 # cs \<and> f_Type f0 = ''response_start'')"
  shows "e = Returned \<and> (\<exists>code msg. (code = 502 \<or> code = 504) \<and> rl_rw r = writeJSON code msg (rl_rw r0))"
  using answer_ok_run [OF assms(2,1)] assms(3,4)
  by (auto simp: answer_ok_def gateway_error_def started_by_def)

text \<open>A response that breaks off after its start looks complete to the caller: when the client
  reports an error in \<open>response_end\<close>, sends a chunk that does not decode, or loses the tunnel, the
  handler returns exactly as after a proper end, with the connection intact; only a stream that
  stays silent for too long is cut.\<close>

theorem broken_response_looks_complete:
  assumes "rl_phase r = Streaming" and "relay_step ev (r, w) = Some (Inr (r', w'))"
    and "ev = RecvDone \<or> ev = RecvFrame" and "rl_phase r' \<noteq> Streaming"
  shows "rl_phase r' = Finished Returned \<and> rl_rw r' = rl_rw r"
  using assms(3)
proof
  assume "ev = RecvDone"
  with assms(1,2) show ?thesis by (auto split: if_splits dest!: leave_Inr)
next
  assume "ev = RecvFrame"
  with assms(1,2) obtain f w1 where "on_got (on_frame f (rl_rw r)) f r w1 = Inr (r', w')"
    by (auto split: option.splits)
  from on_got_Inr [OF this] assms(4) show ?thesis by (auto simp: on_frame_good split: if_splits)
qed

text \<open>A stream that has been silent for \<open>streamIdleTimeout\<close> is cut: the connection is hijacked and
  closed, so that the caller sees that the body is incomplete.\<close>

theorem idle_stream_is_cut:
  assumes "rl_phase r = Streaming" and "rw_hijacker (rl_rw r)"
    and "relay_step (TimedOut c) (r, w) = Some (Inr (r', w'))"
  shows "rl_phase r' = Finished Truncated \<and> rl_rw r' = rl_rw r"
  using assms by (auto simp: truncateResponse_def dest!: cancel_and_leave_Inr)

section \<open>Witnesses\<close>

theorem splitTunnelPath_public_witness:
  "splitTunnelPath ''/t/abcd1234/api/v1'' = (''abcd1234'', ''/api/v1'') \<and>
   splitTunnelPath ''/t/abcd1234'' = (''abcd1234'', ''/'')"
  using splitTunnelPath_public [of "''abcd1234''" "''api/v1''"] by (simp add: validTunnelID_def)

definition demo_relay :: relay where
  "demo_relay = \<lparr>rl_tunnel = ''abcd1234'', rl_sess = 0, rl_req = 1, rl_box = 0,
     rl_start = request_start 1 ''/'' \<lparr>q_method = ''POST'', q_path = ''/t/abcd1234'', q_query = [],
       q_headers = [], q_hasBody = True\<rparr>,
     rl_phase = Starting, rl_rw = new_response True True, rl_sent = [], rl_got = []\<rparr>"

definition boxed :: "frame list \<Rightarrow> bool \<Rightarrow> World" where
  "boxed fs d = modify_box 0 (\<lambda>p. \<lparr>pr_ch = fs, pr_done = d\<rparr>) demo_world"

definition demo_start :: frame where
  "demo_start = zero_frame\<lparr>f_Type := ''response_start'', f_ReqID := 1, f_Status := 201,
     f_Headers := [(''x-id'', [''7'']), (''Connection'', [''close''])]\<rparr>"

lemma demo_opened: "opened demo_relay"
  by (simp add: opened_def demo_relay_def new_response_def)

lemma boxed_sel [simp]:
  "w_box (boxed fs d) 0 = \<lparr>pr_ch = fs, pr_done = d\<rparr>" "w_sess (boxed fs d) = w_sess demo_world"
  by (simp_all add: boxed_def sess_simps)

text \<open>A handler that has sent its start frame, and then a body of two bytes.\<close>

definition demo_uploading :: relay where
  "demo_uploading = demo_relay\<lparr>rl_sent := [rl_start demo_relay], rl_phase := Uploading 0\<rparr>"

definition demo_awaiting :: relay where
  "demo_awaiting = demo_relay\<lparr>rl_sent :=
     [rl_start demo_relay, request_chunk 1 0 [1, 2], request_end 1], rl_phase := Awaiting\<rparr>"

definition demo_streaming :: relay where
  "demo_streaming = demo_awaiting\<lparr>rl_got := [demo_start], rl_phase := Streaming,
     rl_rw := Flush_part (put_status 201 (add_headers (f_Headers demo_start) (new_response True True)))\<rparr>"

abbreviation demo_upload :: "relay_event list" where
  "demo_upload \<equiv> [SendStart PickSend PickSend, ReadBody [1, 2] EOF PickSend PickSend PickSend]"

lemma demo_run_up: "relay_run demo_relay [SendStart PickSend PickSend] demo_uploading"
proof -
  have "\<exists>w'. relay_step (SendStart PickSend PickSend) (demo_relay, demo_world) = Some (Inr (demo_uploading, w'))"
    by (simp add: demo_uploading_def demo_relay_def request_start_def zero_frame_def
        sendWithContext_def sendQueueCap_def)
  then show ?thesis using relay_run.snoc [OF relay_run.nil] by (metis append_Nil)
qed

lemma demo_run_await: "relay_run demo_relay demo_upload demo_awaiting"
proof -
  have "\<exists>w'. relay_step (ReadBody [1, 2] EOF PickSend PickSend PickSend) (demo_uploading, demo_world)
      = Some (Inr (demo_awaiting, w'))"
    by (simp add: demo_uploading_def demo_awaiting_def demo_relay_def upload_read_def
        sendWithContext_def sendQueueCap_def sess_simps Let_def)
  then show ?thesis using relay_run.snoc [OF demo_run_up] by (metis append_Cons append_Nil)
qed

lemma demo_headers: "writeResponseHeaders (f_Status demo_start) (f_Headers demo_start) rw =
    Some (put_status 201 (add_headers (f_Headers demo_start) rw))"
  by (simp add: writeResponseHeaders_def WriteHeader_def demo_start_def)

lemma demo_run_stream: "relay_run demo_relay (demo_upload @ [RecvFrame]) demo_streaming"
proof -
  have "on_first demo_start (rl_rw demo_awaiting) = GoOn (rl_rw demo_streaming)"
    by (simp add: on_first_def demo_headers)
      (simp add: demo_start_def demo_streaming_def demo_awaiting_def demo_relay_def)
  moreover have "rl_box demo_awaiting = 0" "rl_phase demo_awaiting = Awaiting" "rl_got demo_awaiting = []"
    by (simp_all add: demo_awaiting_def demo_relay_def)
  ultimately have "\<exists>w'. relay_step RecvFrame (demo_awaiting, boxed [demo_start] False)
      = Some (Inr (demo_streaming, w'))"
    by (simp add: receive_def on_got_def) (simp add: demo_streaming_def)
  then show ?thesis using relay_run.snoc [OF demo_run_await] by blast
qed

lemma demo_streaming_sel [simp]:
  "rl_phase demo_streaming = Streaming" "rl_box demo_streaming = 0" "rl_got demo_streaming = [demo_start]"
  "rl_sess demo_streaming = 0" "rl_req demo_streaming = 1" "rw_hijacker (rl_rw demo_streaming) = True"
  by (simp_all add: demo_streaming_def demo_awaiting_def demo_relay_def new_response_def Flush_part_def)

theorem upload_complete_witness:
  "relay_run demo_relay demo_upload demo_awaiting \<and>
   (\<exists>chunks. rl_sent demo_awaiting = rl_start demo_relay # chunks @ [request_end 1] \<and>
      concat (map payload chunks) = [1, 2])"
proof -
  have "rl_phase demo_awaiting = Awaiting \<or> rl_phase demo_awaiting = Streaming"
    by (simp add: demo_awaiting_def)
  from upload_complete [OF demo_opened demo_run_await this] show ?thesis
    using demo_run_await by (auto simp: demo_relay_def request_start_def body_read_def)
qed

theorem response_relayed_witness:
  "\<exists>r. relay_run demo_relay (demo_upload @ [RecvFrame, RecvFrame]) r \<and>
     rw_status (rl_rw r) = Some 201 \<and> rw_body (rl_rw r) = [Raw (payload (demo_frame 1 ''YQ==''))]"
proof -
  let ?f = "demo_frame 1 ''YQ==''"
  have g: "good_chunk ?f" by code_simp
  have "\<exists>r w'. relay_step RecvFrame (demo_streaming, boxed [?f] False) = Some (Inr (r, w')) \<and>
      rl_got r = [demo_start, ?f]"
    using g by (simp add: receive_def on_got_def on_frame_good)
  then obtain r w' where r: "relay_step RecvFrame (demo_streaming, boxed [?f] False) = Some (Inr (r, w'))"
    "rl_got r = [demo_start, ?f]" by blast
  have run: "relay_run demo_relay (demo_upload @ [RecvFrame, RecvFrame]) r"
    using relay_run.snoc [OF demo_run_stream r(1)] by simp
  have "rw_status (rl_rw r) = Some (f_Status demo_start) \<and>
      rw_body (rl_rw r) = map (Raw \<circ> payload) (takeWhile good_chunk [?f])"
    using response_relayed [OF demo_opened run r(2)] by (simp add: demo_start_def)
  with run g show ?thesis by (auto simp: demo_start_def)
qed

theorem no_start_no_success_witness:
  "\<exists>r. relay_run demo_relay [SendStart (PickCtx ''gone'') PickSend] r \<and>
     rl_phase r = Finished Returned \<and>
     (\<exists>code msg. (code = 502 \<or> code = 504) \<and> rl_rw r = writeJSON code msg (rl_rw demo_relay))"
proof -
  have "\<exists>r w'. relay_step (SendStart (PickCtx ''gone'') PickSend) (demo_relay, boxed [] False)
      = Some (Inr (r, w')) \<and> rl_phase r = Finished Returned \<and> rl_got r = []"
    by (simp add: demo_relay_def sendWithContext_def cancel_and_leave_def maybeSendCancel_def send_def
        with_deadline_def sendQueueCap_def leave_def UnregisterPending_def close_done_def sess_simps)
  then obtain r w' where r: "relay_step (SendStart (PickCtx ''gone'') PickSend) (demo_relay, boxed [] False)
      = Some (Inr (r, w'))" "rl_phase r = Finished Returned" "rl_got r = []" by blast
  have run: "relay_run demo_relay [SendStart (PickCtx ''gone'') PickSend] r"
    using relay_run.snoc [OF relay_run.nil r(1)] by simp
  have "\<not> (\<exists>f0 cs. rl_got r = f0 # cs \<and> f_Type f0 = ''response_start'')" using r(3) by simp
  from no_start_no_success [OF demo_opened run r(2) this] run r(2) show ?thesis by blast
qed

theorem broken_response_looks_complete_witness:
  "\<exists>r' w'. relay_step RecvFrame (demo_streaming,
       boxed [zero_frame\<lparr>f_Type := ''response_end'', f_Error := ''target reset''\<rparr>] False)
     = Some (Inr (r', w')) \<and> rl_phase r' = Finished Returned \<and> rl_rw r' = rl_rw demo_streaming"
proof -
  let ?f = "zero_frame\<lparr>f_Type := ''response_end'', f_Error := ''target reset''\<rparr>"
  have "\<exists>r' w'. relay_step RecvFrame (demo_streaming, boxed [?f] False) = Some (Inr (r', w')) \<and>
      rl_phase r' \<noteq> Streaming"
    by (simp add: receive_def on_got_def on_frame_def leave_def UnregisterPending_def close_done_def
        sess_simps)
  then obtain r' w' where r: "relay_step RecvFrame (demo_streaming, boxed [?f] False) = Some (Inr (r', w'))"
    "rl_phase r' \<noteq> Streaming" by blast
  with broken_response_looks_complete [OF demo_streaming_sel(1) r(1) _ r(2)] show ?thesis by auto
qed

theorem idle_stream_is_cut_witness:
  "\<exists>r' w'. relay_step (TimedOut PickSend) (demo_streaming, boxed [] False) = Some (Inr (r', w')) \<and>
     rl_phase r' = Finished Truncated"
proof -
  have "\<exists>r' w'. relay_step (TimedOut PickSend) (demo_streaming, boxed [] False) = Some (Inr (r', w'))"
    by (simp add: cancel_and_leave_def maybeSendCancel_def send_def sendWithContext_def with_deadline_def
        sendQueueCap_def leave_def UnregisterPending_def close_done_def sess_simps)
  then obtain r' w' where r: "relay_step (TimedOut PickSend) (demo_streaming, boxed [] False)
      = Some (Inr (r', w'))" by blast
  with idle_stream_is_cut [OF demo_streaming_sel(1) _ r] show ?thesis by simp
qed

end
