(* ===== verification/ClientConfig.thy ===== *)
theory ClientConfig
  imports Registry
begin

text \<open>
  The client's settings: addresses and IDs, the config file, and what the command line and the
  two desktop programs make of the operator's input (\<open>internal/client/client.go\<close>,
  \<open>cmd/selftunnel-client/main.go\<close>, \<open>cmd/selftunnel-server/main.go\<close>,
  \<open>cmd/selftunnel-client-gui/main.go\<close>).

  The config file holds a JSON value, or \<open>CfgGarbage\<close> where its text does not parse; the outcome of
  each file operation is an argument.
\<close>

section \<open>Addresses and IDs\<close>

definition NormalizeServer :: "string \<Rightarrow> string" where
  "NormalizeServer url =
     (let s = TrimSpace url in
      if s = [] then []
      else let s1 =
             (if HasPrefix s ''https://'' then ''wss://'' @ drop 8 s
              else if HasPrefix s ''http://'' then ''ws://'' @ drop 7 s
              else if \<not> HasPrefix s ''wss://'' \<and> \<not> HasPrefix s ''ws://'' then ''wss://'' @ s
              else s);
             s2 = TrimSuffix s1 ''/''
           in if HasSuffix s2 ''/ws/tunnel'' then s2 else s2 @ ''/ws/tunnel'')"

definition IsValidTarget :: "string \<Rightarrow> bool" where
  "IsValidTarget t \<longleftrightarrow> HasPrefix t ''http://'' \<or> HasPrefix t ''https://''"

text \<open>The loop over the runes of \<open>id\<close>: a byte of a multi-byte or invalid rune is rejected as the
  rune is, since both are above \<open>z\<close>.\<close>

fun all_id_runes :: "string \<Rightarrow> bool" where
  "all_id_runes [] = True"
| "all_id_runes (r # rs) =
     (if (r < CHR ''a'' \<or> r > CHR ''z'') \<and> (r < CHR ''0'' \<or> r > CHR ''9'') then False
      else all_id_runes rs)"

definition IsValidCustomID :: "string \<Rightarrow> bool" where
  "IsValidCustomID i = (if length i \<noteq> 8 then False else all_id_runes i)"

definition publicTunnelURL :: "string \<Rightarrow> string \<Rightarrow> string" where
  "publicTunnelURL serverWS tunnelID =
     (let s = TrimSuffix serverWS ''/ws/tunnel'';
          s1 = (if HasPrefix s ''wss://'' then ''https://'' @ drop 6 s
                else if HasPrefix s ''ws://'' then ''http://'' @ drop 5 s
                else s)
      in s1 @ ''/t/'' @ tunnelID)"

definition parseList :: "string \<Rightarrow> string list" where
  "parseList s = (if s = [] then [] else filter (\<lambda>p. p \<noteq> []) (map TrimSpace (Split CHR '','' s)))"

section \<open>The configuration\<close>

record Config =
  c_Server :: string
  c_Target :: string
  c_CustomID :: string
  c_TunnelID :: string
  c_Secret :: string

definition empty_config :: Config where
  "empty_config = \<lparr>c_Server = [], c_Target = [], c_CustomID = [], c_TunnelID = [], c_Secret = []\<rparr>"

definition SetTarget_cfg :: "string \<Rightarrow> Config \<Rightarrow> Config" where
  "SetTarget_cfg t c = c\<lparr>c_Target := TrimSpace t\<rparr>"

definition SetServer_cfg :: "string \<Rightarrow> Config \<Rightarrow> Config" where
  "SetServer_cfg s c = c\<lparr>c_Server := NormalizeServer s\<rparr>"

definition SetCustomID_cfg :: "string \<Rightarrow> Config \<Rightarrow> Config" where
  "SetCustomID_cfg i c = c\<lparr>c_CustomID := ToLower (TrimSpace i)\<rparr>"

text \<open>What \<open>connect\<close> stores after the handshake.\<close>

definition adopt_ack :: "frame \<Rightarrow> Config \<Rightarrow> Config" where
  "adopt_ack ack c =
     c\<lparr>c_TunnelID := f_TunnelID ack,
       c_Secret := (if f_Secret ack \<noteq> [] then f_Secret ack else c_Secret c)\<rparr>"

subsection \<open>The file\<close>

text \<open>The tags of the struct; none has \<open>omitempty\<close>.\<close>

definition config_tags :: "string list" where
  "config_tags = [''server'', ''target'', ''customId'', ''tunnelId'', ''secret'']"

definition MarshalConfig :: "Config \<Rightarrow> json" where
  "MarshalConfig c = JObj
     [(''server'', JStr (utf8_coerce (c_Server c))),
      (''target'', JStr (utf8_coerce (c_Target c))),
      (''customId'', JStr (utf8_coerce (c_CustomID c))),
      (''tunnelId'', JStr (utf8_coerce (c_TunnelID c))),
      (''secret'', JStr (utf8_coerce (c_Secret c)))]"

definition set_config :: "string \<Rightarrow> json \<Rightarrow> Config \<Rightarrow> Config option" where
  "set_config tag v c =
     (if tag = ''server'' then map_option (\<lambda>s. c\<lparr>c_Server := s\<rparr>) (dec_str v (c_Server c))
      else if tag = ''target'' then map_option (\<lambda>s. c\<lparr>c_Target := s\<rparr>) (dec_str v (c_Target c))
      else if tag = ''customId'' then map_option (\<lambda>s. c\<lparr>c_CustomID := s\<rparr>) (dec_str v (c_CustomID c))
      else if tag = ''tunnelId'' then map_option (\<lambda>s. c\<lparr>c_TunnelID := s\<rparr>) (dec_str v (c_TunnelID c))
      else if tag = ''secret'' then map_option (\<lambda>s. c\<lparr>c_Secret := s\<rparr>) (dec_str v (c_Secret c))
      else Some c)"

fun decode_config :: "(string \<times> json) list \<Rightarrow> Config \<Rightarrow> Config option" where
  "decode_config [] c = Some c"
| "decode_config ((k, v) # kvs) c =
     (case find (\<lambda>tag. EqualFold k tag) config_tags of
        None \<Rightarrow> decode_config kvs c
      | Some tag \<Rightarrow> Option.bind (set_config tag v c) (decode_config kvs))"

fun UnmarshalConfig :: "json \<Rightarrow> Config \<Rightarrow> Config option" where
  "UnmarshalConfig (JObj kvs) c = decode_config kvs c"
| "UnmarshalConfig JNull c = Some c"
| "UnmarshalConfig _ c = None"

datatype cfg_file = CfgDoc json | CfgGarbage

type_synonym cfg_disk = "string \<Rightarrow> cfg_file option"

datatype cfg_write = CfgWritten | CfgWriteFail go_error "cfg_file option"

record cfg_io =
  ci_mkdir :: "go_error option"
  ci_write :: cfg_write
  ci_rename :: "go_error option"

definition SaveConfig :: "cfg_io \<Rightarrow> string \<Rightarrow> Config \<Rightarrow> cfg_disk \<Rightarrow> go_error option \<times> cfg_disk" where
  "SaveConfig io path cfg dk =
     (case ci_mkdir io of
        Some e \<Rightarrow> (Some e, dk)
      | None \<Rightarrow>
          (let tmp = path @ ''.tmp'' in
           case ci_write io of
             CfgWriteFail e rest \<Rightarrow> (Some e, dk(tmp := rest))
           | CfgWritten \<Rightarrow>
               (let dk1 = dk(tmp := Some (CfgDoc (MarshalConfig cfg))) in
                case ci_rename io of
                  Some e \<Rightarrow> (Some e, dk1)
                | None \<Rightarrow> (None, dk1(path := dk1 tmp, tmp := None)))))"

definition LoadConfig :: "go_error option \<Rightarrow> cfg_disk \<Rightarrow> string \<Rightarrow> go_error + Config" where
  "LoadConfig read_err dk path =
     (case read_err of
        Some e \<Rightarrow> Inl e
      | None \<Rightarrow>
          (case dk path of
             None \<Rightarrow> Inr empty_config
           | Some CfgGarbage \<Rightarrow> Inl ''invalid JSON''
           | Some (CfgDoc j) \<Rightarrow>
               (case UnmarshalConfig j empty_config of None \<Rightarrow> Inl ''wrong JSON type'' | Some c \<Rightarrow> Inr c)))"

text \<open>What a configuration is after a round trip: bytes that are not UTF-8 are replaced.\<close>

definition coerce_config :: "Config \<Rightarrow> Config" where
  "coerce_config c = \<lparr>c_Server = utf8_coerce (c_Server c), c_Target = utf8_coerce (c_Target c),
     c_CustomID = utf8_coerce (c_CustomID c), c_TunnelID = utf8_coerce (c_TunnelID c),
     c_Secret = utf8_coerce (c_Secret c)\<rparr>"

definition valid_config :: "Config \<Rightarrow> bool" where
  "valid_config c \<longleftrightarrow> valid_utf8 (c_Server c) \<and> valid_utf8 (c_Target c) \<and> valid_utf8 (c_CustomID c) \<and>
     valid_utf8 (c_TunnelID c) \<and> valid_utf8 (c_Secret c)"

lemma coerce_config_valid [simp]: "valid_config c \<Longrightarrow> coerce_config c = c"
  by (simp add: coerce_config_def valid_config_def)

lemma config_tag_found: "list_all (\<lambda>t. find (EqualFold t) config_tags = Some t) config_tags"
  by code_simp

lemma config_tag_names [simp]:
  "find (EqualFold ''server'') config_tags = Some ''server''"
  "find (EqualFold ''target'') config_tags = Some ''target''"
  "find (EqualFold ''customId'') config_tags = Some ''customId''"
  "find (EqualFold ''tunnelId'') config_tags = Some ''tunnelId''"
  "find (EqualFold ''secret'') config_tags = Some ''secret''"
  using config_tag_found by (simp_all add: config_tags_def)

lemma Unmarshal_MarshalConfig: "UnmarshalConfig (MarshalConfig c) c0 = Some (coerce_config c)"
  by (simp add: MarshalConfig_def set_config_def coerce_config_def)

text \<open>\<open>filepath.Join\<close> of a clean directory and a plain file name.\<close>

definition path_join :: "string \<Rightarrow> string \<Rightarrow> string" where
  "path_join dir name = (if HasSuffix dir ''/'' then dir @ name else dir @ ''/'' @ name)"

text \<open>\<open>writable\<close> is the working directory if a probe file can be created there, \<open>confdir\<close> the user's
  configuration directory if the program's directory in it can be made.\<close>

definition ResolveStatePath :: "string option \<Rightarrow> string option \<Rightarrow> string \<Rightarrow> string" where
  "ResolveStatePath writable confdir name =
     (case writable of
        Some wd \<Rightarrow> path_join wd name
      | None \<Rightarrow>
          (case confdir of
             Some dir \<Rightarrow> path_join (path_join dir ''selftunnel'') name
           | None \<Rightarrow> name))"

section \<open>The operator's input\<close>

text \<open>\<open>cmd/selftunnel-client\<close>: flags override the file, then everything is validated.\<close>

definition cli_config :: "string \<Rightarrow> string \<Rightarrow> string \<Rightarrow> Config \<Rightarrow> go_error + Config" where
  "cli_config serverFlag targetFlag customFlag cfg =
     (let c1 = (if serverFlag \<noteq> [] then cfg\<lparr>c_Server := NormalizeServer serverFlag\<rparr> else cfg);
          c2 = (if targetFlag \<noteq> [] then c1\<lparr>c_Target := TrimSpace targetFlag\<rparr> else c1);
          c3 = (if customFlag \<noteq> [] then c2\<lparr>c_CustomID := ToLower (TrimSpace customFlag)\<rparr> else c2);
          c4 = c3\<lparr>c_Server := NormalizeServer (c_Server c3)\<rparr>
      in if c_Server c4 = [] then Inl ''missing relay server''
         else if c_Target c4 \<noteq> [] \<and> \<not> IsValidTarget (c_Target c4) then Inl ''invalid target URL''
         else if c_CustomID c4 \<noteq> [] \<and> \<not> IsValidCustomID (c_CustomID c4) then Inl ''invalid custom-id''
         else Inr c4)"

text \<open>\<open>cmd/selftunnel-client-gui\<close>: the connect button takes the three entries.\<close>

definition gui_config :: "string \<Rightarrow> string \<Rightarrow> string \<Rightarrow> Config \<Rightarrow> go_error + Config" where
  "gui_config serverText targetText customText cfg =
     (let server = NormalizeServer serverText; target = TrimSpace targetText;
          customID = ToLower (TrimSpace customText)
      in if server = [] then Inl ''missing relay server''
         else if target \<noteq> [] \<and> \<not> IsValidTarget target then Inl ''invalid target URL''
         else if customID \<noteq> [] \<and> \<not> IsValidCustomID customID then Inl ''invalid custom-id''
         else Inr (cfg\<lparr>c_Server := server, c_Target := target, c_CustomID := customID\<rparr>))"

section \<open>Canonical addresses\<close>

text \<open>A WebSocket URL that \<open>NormalizeServer\<close> may produce.\<close>

definition canonical_server :: "string \<Rightarrow> bool" where
  "canonical_server s \<longleftrightarrow> (HasPrefix s ''wss://'' \<or> HasPrefix s ''ws://'') \<and> HasSuffix s ''/ws/tunnel''"

lemma printable_w_l: "hd s = CHR ''w'' \<Longrightarrow> last s = CHR ''l'' \<Longrightarrow> s \<noteq> [] \<Longrightarrow> printable_ends s"
  by (simp add: printable_ends_def go_spaces_def)

lemma canonical_ends:
  assumes "canonical_server s"
  shows "s \<noteq> []" and "hd s = CHR ''w''" and "last s = CHR ''l''"
proof -
  show "s \<noteq> []" and "hd s = CHR ''w''"
    using assms by (auto simp: canonical_server_def HasPrefix_iff)
  obtain t where "s = t @ ''/ws/tunnel''" using assms by (auto simp: canonical_server_def HasSuffix_iff)
  then show "last s = CHR ''l''" by simp
qed

lemma HasSuffix_last: "HasSuffix s p \<Longrightarrow> p \<noteq> [] \<Longrightarrow> last s = last p"
  by (auto simp: HasSuffix_iff)

lemma NormalizeServer_canonical_id:
  assumes "canonical_server s"
  shows "NormalizeServer s = s"
proof -
  note e = canonical_ends [OF assms]
  have t: "TrimSpace s = s" using printable_w_l e by (simp add: TrimSpace_printable_ends)
  have "\<not> HasPrefix s ''https://''" "\<not> HasPrefix s ''http://''"
    using e(2) by (auto simp: HasPrefix_iff)
  moreover have "TrimSuffix s ''/'' = s"
    using e HasSuffix_last [of s "''/''"] by (auto intro: TrimSuffix_id)
  ultimately show ?thesis
    using assms e(1) by (auto simp: NormalizeServer_def t canonical_server_def Let_def)
qed

lemma TrimSuffix_cases:
  obtains "TrimSuffix s p = s" | t where "s = t @ p" "TrimSuffix s p = t"
  by (cases "HasSuffix s p") (auto simp: HasSuffix_iff TrimSuffix_id)

lemma scheme_kept:
  assumes "s = p @ ''//'' @ r"
  shows "\<exists>q. (if HasSuffix (TrimSuffix s ''/'') ''/ws/tunnel'' then TrimSuffix s ''/''
              else TrimSuffix s ''/'' @ ''/ws/tunnel'') = p @ ''//'' @ q"
proof (cases "HasSuffix s ''/''")
  case True
  show ?thesis
  proof (cases r rule: rev_cases)
    case Nil
    have "TrimSuffix s ''/'' = p @ ''/''"
      using TrimSuffix_append [of "p @ ''/''" "''/''"] assms Nil by simp
    moreover have "\<not> HasSuffix (p @ ''/'') ''/ws/tunnel''"
      using HasSuffix_last [of "p @ ''/''" "''/ws/tunnel''"] by auto
    ultimately show ?thesis by simp
  next
    case (snoc r' c)
    with True assms have "c = CHR ''/''" using HasSuffix_last [of s "''/''"] by simp
    then have "TrimSuffix s ''/'' = p @ ''//'' @ r'"
      using TrimSuffix_append [of "p @ ''//'' @ r'" "''/''"] assms snoc by simp
    then show ?thesis by auto
  qed
next
  case False
  then show ?thesis using assms by (auto simp: TrimSuffix_id)
qed

lemma NormalizeServer_blank: "TrimSpace s = [] \<Longrightarrow> NormalizeServer s = []"
  by (simp add: NormalizeServer_def)

lemma NormalizeServer_Nil [simp]: "NormalizeServer [] = []"
  by (simp add: NormalizeServer_def TrimSpace_def)

lemma HasPrefix_simps:
  "HasPrefix s []" "\<not> HasPrefix [] (p # ps)"
  "HasPrefix (c # s) (p # ps) \<longleftrightarrow> c = p \<and> HasPrefix s ps"
  by (simp_all add: HasPrefix_def)

lemma NormalizeServer_canonical:
  assumes False: "TrimSpace s \<noteq> []"
  shows "canonical_server (NormalizeServer s)"
proof -
  define t where "t = TrimSpace s"
  define u where "u = (if HasPrefix t ''https://'' then ''wss://'' @ drop 8 t
    else if HasPrefix t ''http://'' then ''ws://'' @ drop 7 t
    else if \<not> HasPrefix t ''wss://'' \<and> \<not> HasPrefix t ''ws://'' then ''wss://'' @ t else t)"
  have n: "NormalizeServer s = (if HasSuffix (TrimSuffix u ''/'') ''/ws/tunnel'' then TrimSuffix u ''/''
      else TrimSuffix u ''/'' @ ''/ws/tunnel'')"
    using False by (simp add: NormalizeServer_def Let_def t_def u_def)
  have "HasPrefix u ''wss://'' \<or> HasPrefix u ''ws://''"
    by (auto simp: u_def HasPrefix_iff)
  then have "\<exists>p r. u = p @ ''//'' @ r \<and> (p = ''wss:'' \<or> p = ''ws:'')"
  proof
    assume "HasPrefix u ''wss://''"
    then obtain r where "u = ''wss:'' @ ''//'' @ r" by (auto simp: HasPrefix_iff)
    then show ?thesis by blast
  next
    assume "HasPrefix u ''ws://''"
    then obtain r where "u = ''ws:'' @ ''//'' @ r" by (auto simp: HasPrefix_iff)
    then show ?thesis by blast
  qed
  then obtain p r where p: "u = p @ ''//'' @ r" "p = ''wss:'' \<or> p = ''ws:''" by blast
  from scheme_kept [OF p(1)] have "\<exists>q. NormalizeServer s = p @ ''//'' @ q" unfolding n .
  moreover have "HasSuffix (NormalizeServer s) ''/ws/tunnel''"
    unfolding n by (simp add: HasSuffix_append)
  ultimately show ?thesis using p(2) by (auto simp: canonical_server_def HasPrefix_iff)
qed

lemma NormalizeServer_again [simp]: "NormalizeServer (NormalizeServer s) = NormalizeServer s"
proof (cases "TrimSpace s = []")
  case True
  with NormalizeServer_blank [OF True] show ?thesis by simp
qed (rule NormalizeServer_canonical_id [OF NormalizeServer_canonical])

text \<open>Whatever the operator types, the stored server address is empty or a WebSocket URL of the
  tunnel endpoint, and normalising it again changes nothing.\<close>

theorem NormalizeServer_idempotent:
  "NormalizeServer (NormalizeServer s) = NormalizeServer s \<and>
   (if TrimSpace s = [] then NormalizeServer s = []
    else HasSuffix (NormalizeServer s) ''/ws/tunnel'' \<and>
      (HasPrefix (NormalizeServer s) ''wss://'' = (\<not> HasPrefix (NormalizeServer s) ''ws://'')))"
proof (cases "TrimSpace s = []")
  case False
  have "\<not> (HasPrefix u ''wss://'' \<and> HasPrefix u ''ws://'')" for u
    by (auto simp: HasPrefix_iff)
  with NormalizeServer_canonical [OF False] False show ?thesis by (auto simp: canonical_server_def)
qed (simp add: NormalizeServer_blank)

lemma entry_urls:
  assumes "h \<noteq> []" and "CHR ''/'' \<notin> set h" and "printable_ends h"
  shows "publicTunnelURL (NormalizeServer (''https://'' @ h)) tid = ''https://'' @ h @ ''/t/'' @ tid \<and>
    publicTunnelURL (NormalizeServer (''http://'' @ h @ ''/'')) tid = ''http://'' @ h @ ''/t/'' @ tid \<and>
    publicTunnelURL (NormalizeServer (''wss://'' @ h @ ''/ws/tunnel'')) tid = ''https://'' @ h @ ''/t/'' @ tid"
proof -
  have l: "last (p @ h) = last h" for p using assms(1) by simp
  have t: "TrimSpace (''https://'' @ h) = ''https://'' @ h"
    "TrimSpace (''http://'' @ h @ ''/'') = ''http://'' @ h @ ''/''"
    using assms by (intro TrimSpace_printable_ends; simp add: printable_ends_def; simp add: go_spaces_def)+
  have nl: "last h \<noteq> CHR ''/''" using assms(1,2) by (metis last_in_set)
  have noslash: "\<not> HasSuffix (p @ h) ''/''" for p
    using HasSuffix_last [of "p @ h" "''/''"] nl assms(1) by auto
  have notunnel: "\<not> HasSuffix (p @ ''//'' @ h) ''/ws/tunnel''" for p
  proof
    assume "HasSuffix (p @ ''//'' @ h) ''/ws/tunnel''"
    then obtain u where u: "p @ ''//'' @ h = u @ ''/ws/tunnel''" by (auto simp: HasSuffix_iff)
    then show False using assms(2) by (auto simp: append_eq_append_conv2 append_eq_Cons_conv Cons_eq_append_conv)
  qed
  have "NormalizeServer (''https://'' @ h) = ''wss://'' @ h @ ''/ws/tunnel''"
    using t noslash [of "''wss://''"] notunnel [of "''wss:''"]
    by (simp add: NormalizeServer_def Let_def TrimSuffix_id HasPrefix_simps)
  moreover have "NormalizeServer (''http://'' @ h @ ''/'') = ''ws://'' @ h @ ''/ws/tunnel''"
    using t TrimSuffix_append [of "''ws://'' @ h" "''/''"] notunnel [of "''ws:''"]
    by (simp add: NormalizeServer_def Let_def HasPrefix_simps del: TrimSuffix_append)
  moreover have "NormalizeServer (''wss://'' @ h @ ''/ws/tunnel'') = ''wss://'' @ h @ ''/ws/tunnel''"
    by (rule NormalizeServer_canonical_id)
      (use HasSuffix_append [of "''wss://'' @ h" "''/ws/tunnel''"] in
        \<open>simp add: canonical_server_def HasPrefix_simps\<close>)
  moreover have "TrimSuffix (''wss://'' @ h @ ''/ws/tunnel'') ''/ws/tunnel'' = ''wss://'' @ h"
    "TrimSuffix (''ws://'' @ h @ ''/ws/tunnel'') ''/ws/tunnel'' = ''ws://'' @ h"
    using TrimSuffix_append [of "''wss://'' @ h" "''/ws/tunnel''"]
      TrimSuffix_append [of "''ws://'' @ h" "''/ws/tunnel''"] by simp_all
  ultimately show ?thesis by (simp add: publicTunnelURL_def Let_def HasPrefix_simps)
qed

text \<open>The public entry point that the client prints leads to the server's relay endpoint: for an
  address given by scheme and host, it is the same host under \<open>/t/\<close> and the tunnel ID.\<close>

theorem publicTunnelURL_entry:
  assumes "h \<noteq> []" and "CHR ''/'' \<notin> set h" and "printable_ends h"
  shows "publicTunnelURL (NormalizeServer (''https://'' @ h)) tid = ''https://'' @ h @ ''/t/'' @ tid \<and>
    publicTunnelURL (NormalizeServer (''http://'' @ h @ ''/'')) tid = ''http://'' @ h @ ''/t/'' @ tid \<and>
    publicTunnelURL (NormalizeServer (''wss://'' @ h @ ''/ws/tunnel'')) tid = ''https://'' @ h @ ''/t/'' @ tid"
  using assms by (rule entry_urls)

section \<open>Accepted input\<close>

lemma all_id_runes_iff: "all_id_runes s \<longleftrightarrow> list_all id_char s"
  by (induction s) (auto simp: id_char_def not_less)

text \<open>The client accepts a custom ID exactly when the server's registration takes it as it is: the
  two programs agree on the format of an ID although each checks it with code of its own.\<close>

theorem IsValidCustomID_server:
  "IsValidCustomID i \<longleftrightarrow> i \<noteq> [] \<and> normalizeDesired i = i"
proof -
  have "IsValidCustomID i \<longleftrightarrow> idRe i"
    by (simp add: IsValidCustomID_def idRe_def all_id_runes_iff)
  also have "\<dots> \<longleftrightarrow> i \<noteq> [] \<and> normalizeDesired i = i"
    using normalizeDesired_cases [of i] idRe_nonempty normalizeDesired_id by metis
  finally show ?thesis .
qed

text \<open>The command line and the desktop client agree: given the same three inputs, none of them empty,
  they accept the same ones, report the same complaint otherwise, and store the same settings.\<close>

theorem cli_gui_agree:
  assumes "s \<noteq> []" and "t \<noteq> []" and "c \<noteq> []"
  shows "cli_config s t c cfg = gui_config s t c cfg"
  using assms by (simp add: cli_config_def gui_config_def Let_def)

section \<open>The config file survives\<close>

interpretation cfgfile: atomic_save "\<lambda>io s. SaveConfig io (fst s) (snd s)" "\<lambda>s dk. dk (fst s)"
  "\<lambda>s. CfgDoc (MarshalConfig (snd s))"
  "\<lambda>io. ci_mkdir io = None \<and> ci_write io = CfgWritten \<and> ci_rename io = None"
  by unfold_locales
    (auto simp: SaveConfig_def Let_def split: option.splits cfg_write.splits)

lemma SaveConfig_file:
  "snd (SaveConfig io path cfg dk) path =
     (if fst (SaveConfig io path cfg dk) = None then Some (CfgDoc (MarshalConfig cfg)) else dk path)"
  using cfgfile.reported [of io "(path, cfg)" dk] cfgfile.not_reported [of io "(path, cfg)" dk] by simp

lemma SaveConfig_loads:
  "SaveConfig io path cfg dk = (None, dk') \<Longrightarrow> LoadConfig None dk' path = Inr (coerce_config cfg)"
  using SaveConfig_file [of io path cfg dk] by (simp add: LoadConfig_def Unmarshal_MarshalConfig)

text \<open>C37.  A restarted client gets back the last configuration whose save was reported as successful, each
  field under its own key of the file, the ownership secret included.  What it gets back is what
  was saved, but that bytes which are not UTF-8 come back as the replacement character.  A save
  that fails at whatever point leaves the file, and so what is loaded from it, as it was.\<close>

theorem SaveConfig_LoadConfig:
  "snd (SaveConfig io path cfg dk) path =
     (if fst (SaveConfig io path cfg dk) = None then
        Some (CfgDoc (JObj [(''server'', JStr (utf8_coerce (c_Server cfg))), (''target'', JStr (utf8_coerce (c_Target cfg))),
          (''customId'', JStr (utf8_coerce (c_CustomID cfg))), (''tunnelId'', JStr (utf8_coerce (c_TunnelID cfg))),
          (''secret'', JStr (utf8_coerce (c_Secret cfg)))]))
      else dk path) \<and>
   LoadConfig None (snd (SaveConfig io path cfg dk)) path =
     (if fst (SaveConfig io path cfg dk) = None then Inr (coerce_config cfg) else LoadConfig None dk path) \<and>
   (valid_config cfg \<longrightarrow> coerce_config cfg = cfg)"
proof (cases "fst (SaveConfig io path cfg dk) = None")
  case True
  then have s: "SaveConfig io path cfg dk = (None, snd (SaveConfig io path cfg dk))" by (simp add: prod_eq_iff)
  show ?thesis using SaveConfig_file [of io path cfg dk] SaveConfig_loads [OF s] True by (simp add: MarshalConfig_def)
next
  case False
  then have "snd (SaveConfig io path cfg dk) path = dk path" using SaveConfig_file [of io path cfg dk] by (simp only: if_False)
  with False show ?thesis by (simp only: if_False LoadConfig_def) simp
qed

section \<open>Witnesses\<close>

theorem publicTunnelURL_entry_witness:
  "publicTunnelURL (NormalizeServer ''https://relay.example.com'') ''ab12cd34''
     = ''https://relay.example.com/t/ab12cd34''"
  using publicTunnelURL_entry [of "''relay.example.com''" "''ab12cd34''"]
  by (simp add: printable_ends_def go_spaces_def)

theorem SaveConfig_LoadConfig_witness:
  "LoadConfig None (snd (SaveConfig \<lparr>ci_mkdir = None, ci_write = CfgWritten, ci_rename = None\<rparr> ''config.json''
       (empty_config\<lparr>c_Secret := ''s3cret''\<rparr>) (\<lambda>_. Some CfgGarbage))) ''config.json''
     = Inr (empty_config\<lparr>c_Secret := ''s3cret''\<rparr>)"
proof -
  let ?io = "\<lparr>ci_mkdir = None, ci_write = CfgWritten, ci_rename = None\<rparr>" and ?c = "empty_config\<lparr>c_Secret := ''s3cret''\<rparr>"
  have v: "valid_config ?c" by (simp add: valid_config_def empty_config_def valid_utf8_ascii)
  have s: "fst (SaveConfig ?io ''config.json'' ?c (\<lambda>_. Some CfgGarbage)) = None" by (simp add: SaveConfig_def Let_def)
  note r = SaveConfig_LoadConfig [of ?io "''config.json''" ?c "\<lambda>_. Some CfgGarbage"]
  have "coerce_config ?c = ?c" using r v by blast
  with r show ?thesis unfolding if_P [OF s] by simp
qed

theorem cli_gui_agree_witness:
  "cli_config ''relay.example.com'' '' http://10.0.0.5:80 '' ''AB12CD34'' empty_config
     = gui_config ''relay.example.com'' '' http://10.0.0.5:80 '' ''AB12CD34'' empty_config"
  by (rule cli_gui_agree) simp_all

end
