(* ===== verification/Sleep.thy ===== *)
theory Sleep
  imports Prelude
begin

text \<open>
  Sleep prevention (\<open>internal/client/power*.go\<close>): the inhibitor of each platform and what it does
  to the machine.  A helper process is known by the context that ends it; that \<open>os/exec\<close> kills it
  in a goroutine of its own, shortly after the cancel, is part of the cancel here.  On Windows every
  thread has an execution state, and \<open>SetThreadExecutionState\<close> sets that of the calling thread,
  which is one of those that run the program's goroutines.  The outcome of starting a process or
  calling the system, the thread included, is an argument.
\<close>

unbundle bit_operations_syntax

section \<open>The inhibitors\<close>

datatype sleepInhibitor =
    CmdInhibitor "string list" "nat option"
  | WinInhibitor bool
  | NoopInhibitor

datatype platform = Darwin string | Linux | Windows | OtherOS

text \<open>\<open>Darwin pid\<close> is a process \<open>pid\<close> on macOS.\<close>

definition newSleepInhibitor :: "platform \<Rightarrow> sleepInhibitor" where
  "newSleepInhibitor p =
     (case p of
        Darwin pid \<Rightarrow> CmdInhibitor [''caffeinate'', ''-i'', ''-w'', pid] None
      | Linux \<Rightarrow> CmdInhibitor
          [''systemd-inhibit'', ''--what=sleep:idle'', ''--who=selftunnel'',
           ''--why=Keeping tunnel relay connection alive'', ''--mode=block'', ''sleep'', ''infinity'']
          None
      | Windows \<Rightarrow> WinInhibitor False
      | OtherOS \<Rightarrow> NoopInhibitor)"

definition esContinuous :: "32 word" where "esContinuous = 0x80000000"
definition esSystemRequired :: "32 word" where "esSystemRequired = 0x00000001"
definition esDisplayRequired :: "32 word" where "esDisplayRequired = 0x00000002"

definition argv_of :: "sleepInhibitor \<Rightarrow> string list" where
  "argv_of i = (case i of CmdInhibitor argv cancel \<Rightarrow> argv | _ \<Rightarrow> [])"

record power =
  pw_inh :: sleepInhibitor
  pw_helpers :: "(nat \<times> string list) list"
  pw_next :: nat
  pw_exec :: "(nat, 32 word) dict"

text \<open>\<open>pw_exec\<close> has the threads that have set their state.\<close>

definition power_init :: "platform \<Rightarrow> power" where
  "power_init p = \<lparr>pw_inh = newSleepInhibitor p, pw_helpers = [], pw_next = 0, pw_exec = []\<rparr>"

text \<open>The error of \<open>cmd.Start\<close>; whether \<open>SetThreadExecutionState\<close> returns a state, and the thread that
  calls it; the text of the last system error, which \<open>LazyProc.Call\<close> returns as a value that is
  never \<open>nil\<close>.\<close>

record power_io =
  pi_start :: "go_error option"
  pi_call :: bool
  pi_thread :: nat
  pi_errno :: go_error

text \<open>The helper whose context is cancelled is killed.\<close>

definition cancel_helper :: "nat \<Rightarrow> power \<Rightarrow> power" where
  "cancel_helper ctx s = s\<lparr>pw_helpers := filter (\<lambda>h. fst h \<noteq> ctx) (pw_helpers s)\<rparr>"

definition call_exec_state :: "power_io \<Rightarrow> 32 word \<Rightarrow> power \<Rightarrow> bool \<times> go_error \<times> power" where
  "call_exec_state io flags s =
     (if pi_call io then (True, pi_errno io, s\<lparr>pw_exec := AList.update (pi_thread io) flags (pw_exec s)\<rparr>)
      else (False, pi_errno io, s))"

definition PreventSleep :: "power_io \<Rightarrow> power \<Rightarrow> go_error option \<times> power" where
  "PreventSleep io s =
     (case pw_inh s of
        CmdInhibitor argv cancel \<Rightarrow>
          (if cancel \<noteq> None then (None, s)
           else let ctx = pw_next s; s1 = s\<lparr>pw_next := Suc ctx\<rparr> in
             case pi_start io of
               Some e \<Rightarrow> (Some (''start '' @ hd argv @ '': '' @ e), cancel_helper ctx s1)
             | None \<Rightarrow> (None, s1\<lparr>pw_inh := CmdInhibitor argv (Some ctx),
                               pw_helpers := (ctx, argv) # pw_helpers s1\<rparr>))
      | WinInhibitor active \<Rightarrow>
          (if active then (None, s)
           else case call_exec_state io (esContinuous OR esSystemRequired OR esDisplayRequired) s of
             (r, err, s1) \<Rightarrow> if \<not> r then (Some err, s1) else (None, s1\<lparr>pw_inh := WinInhibitor True\<rparr>))
      | NoopInhibitor \<Rightarrow> (None, s))"

definition AllowSleep :: "power_io \<Rightarrow> power \<Rightarrow> go_error option \<times> power" where
  "AllowSleep io s =
     (case pw_inh s of
        CmdInhibitor argv cancel \<Rightarrow>
          (case cancel of
             None \<Rightarrow> (None, s)
           | Some ctx \<Rightarrow> (None, (cancel_helper ctx s)\<lparr>pw_inh := CmdInhibitor argv None\<rparr>))
      | WinInhibitor active \<Rightarrow>
          (if \<not> active then (None, s)
           else case call_exec_state io esContinuous s of
             (r, err, s1) \<Rightarrow> (Some err, s1\<lparr>pw_inh := WinInhibitor False\<rparr>))
      | NoopInhibitor \<Rightarrow> (None, s))"

section \<open>The contract\<close>

text \<open>\<open>engaged\<close> is what the inhibitor believes, \<open>held\<close> what the machine does; \<open>works\<close> and \<open>frees\<close> say that
  the platform serves the call that prevents sleep and the one that allows it again.\<close>

definition engaged :: "power \<Rightarrow> bool" where
  "engaged s = (case pw_inh s of CmdInhibitor argv cancel \<Rightarrow> cancel \<noteq> None
     | WinInhibitor active \<Rightarrow> active | NoopInhibitor \<Rightarrow> False)"

definition keeps_awake :: "nat \<times> 32 word \<Rightarrow> bool" where
  "keeps_awake t \<longleftrightarrow> snd t AND esSystemRequired \<noteq> 0"

definition held :: "power \<Rightarrow> bool" where
  "held s \<longleftrightarrow> pw_helpers s \<noteq> [] \<or> list_ex keeps_awake (pw_exec s)"

definition works :: "power_io \<Rightarrow> power \<Rightarrow> bool" where
  "works io s = (case pw_inh s of CmdInhibitor argv cancel \<Rightarrow> pi_start io = None
     | WinInhibitor active \<Rightarrow> pi_call io | NoopInhibitor \<Rightarrow> False)"

definition only_thread :: "nat \<Rightarrow> power \<Rightarrow> bool" where
  "only_thread t s \<longleftrightarrow> list_all (\<lambda>e. keeps_awake e \<longrightarrow> fst e = t) (pw_exec s)"

definition frees :: "power_io \<Rightarrow> power \<Rightarrow> bool" where
  "frees io s = (case pw_inh s of WinInhibitor active \<Rightarrow> pi_call io \<and> only_thread (pi_thread io) s
     | _ \<Rightarrow> True)"

text \<open>Only the helper of the inhibitor's own context may be alive, and only a Windows inhibitor
  touches the execution states.\<close>

fun power_ok :: "power \<Rightarrow> bool" where
  "power_ok s \<longleftrightarrow> list_all (\<lambda>h. fst h < pw_next s) (pw_helpers s) \<and> distinct (map fst (pw_helpers s)) \<and>
     (case pw_inh s of
        CmdInhibitor argv cancel \<Rightarrow> pw_exec s = [] \<and>
          (\<forall>ctx. cancel = Some ctx \<longrightarrow> ctx < pw_next s) \<and>
          set (map fst (pw_helpers s)) \<subseteq> set_option cancel
      | WinInhibitor active \<Rightarrow> pw_helpers s = [] \<and> wf_dict (pw_exec s)
      | NoopInhibitor \<Rightarrow> pw_helpers s = [] \<and> pw_exec s = [])"

locale sleep_inhibitor =
  fixes inhibit :: "'io \<Rightarrow> 's \<Rightarrow> 'e option \<times> 's"
    and release :: "'io \<Rightarrow> 's \<Rightarrow> 'e option \<times> 's"
    and engaged :: "'s \<Rightarrow> bool" and held :: "'s \<Rightarrow> bool"
    and works :: "'io \<Rightarrow> 's \<Rightarrow> bool" and frees :: "'io \<Rightarrow> 's \<Rightarrow> bool" and inv :: "'s \<Rightarrow> bool"
  assumes inhibit_again: "engaged s \<Longrightarrow> inhibit io s = (None, s)"
    and inhibit_works: "inv s \<Longrightarrow> \<not> engaged s \<Longrightarrow> works io s \<Longrightarrow>
      fst (inhibit io s) = None \<and> engaged (snd (inhibit io s)) \<and> held (snd (inhibit io s))"
    and inhibit_fails: "\<not> engaged s \<Longrightarrow> inv s \<Longrightarrow> \<not> works io s \<Longrightarrow>
      \<not> engaged (snd (inhibit io s)) \<and> held (snd (inhibit io s)) = held s"
    and release_again: "\<not> engaged s \<Longrightarrow> release io s = (None, s)"
    and release_disengages: "\<not> engaged (snd (release io s))"
    and release_works: "inv s \<Longrightarrow> engaged s \<Longrightarrow> frees io s \<Longrightarrow> \<not> held (snd (release io s))"
    and inv_inhibit: "inv s \<Longrightarrow> inv (snd (inhibit io s))"
    and inv_release: "inv s \<Longrightarrow> inv (snd (release io s))"
begin

lemma release_twice: "release io' (snd (release io s)) = (None, snd (release io s))"
  by (rule release_again) (rule release_disengages)

lemma inhibit_twice:
  "inv s \<Longrightarrow> works io s \<or> engaged s \<Longrightarrow> inhibit io' (snd (inhibit io s)) = (None, snd (inhibit io s))"
  by (cases "engaged s") (auto simp: inhibit_again inhibit_works)

text \<open>A machine that is held without the inhibitor knowing would stay awake for ever.\<close>

lemma tidy_release:
  "inv s \<Longrightarrow> frees io s \<Longrightarrow> (held s \<Longrightarrow> engaged s) \<Longrightarrow> \<not> held (snd (release io s))"
  by (cases "engaged s") (auto simp: release_works release_again)

lemma tidy_inhibit:
  "inv s \<Longrightarrow> (held s \<Longrightarrow> engaged s) \<Longrightarrow> held (snd (inhibit io s)) \<Longrightarrow> engaged (snd (inhibit io s))"
  by (cases "engaged s"; cases "works io s") (auto simp: inhibit_again inhibit_works inhibit_fails)

lemma bracket:
  "inv s \<Longrightarrow> \<not> engaged s \<Longrightarrow> \<not> held s \<Longrightarrow> frees io' (snd (inhibit io s)) \<Longrightarrow>
   \<not> held (snd (release io' (snd (inhibit io s))))"
  by (rule tidy_release) (auto intro: inv_inhibit dest: tidy_inhibit)

end

section \<open>The inhibitors keep the contract\<close>

lemma exec_flags [simp]:
  "(esContinuous OR esSystemRequired OR esDisplayRequired) AND esSystemRequired \<noteq> 0"
  "esContinuous AND esSystemRequired = 0"
  by (simp_all add: esContinuous_def esSystemRequired_def esDisplayRequired_def)

lemma filter_all_gone: "set (map fst hs) \<subseteq> {c} \<Longrightarrow> filter (\<lambda>h. fst h \<noteq> c) hs = []"
  by (induction hs) auto

lemma filter_none_gone:
  "list_all (\<lambda>h. fst h < (n :: nat)) hs \<Longrightarrow> filter (\<lambda>h. fst h \<noteq> n) hs = hs"
  by (induction hs) auto

lemma keeps_awake_simps [simp]:
  "keeps_awake (t, esContinuous OR esSystemRequired OR esDisplayRequired)" "\<not> keeps_awake (t, esContinuous)"
  by (simp_all add: keeps_awake_def)

lemma set_update: "wf_dict d \<Longrightarrow> set (AList.update t x d) = insert (t, x) {e \<in> set d. fst e \<noteq> t}"
  by (induction d) (auto intro: rev_image_eqI)

lemma list_ex_update:
  "wf_dict d \<Longrightarrow> list_ex Q (AList.update t x d) \<longleftrightarrow> Q (t, x) \<or> list_ex (\<lambda>e. fst e \<noteq> t \<and> Q e) d"
  by (force simp: list_ex_iff set_update)

lemmas power_defs = PreventSleep_def AllowSleep_def engaged_def held_def works_def frees_def only_thread_def
  call_exec_state_def cancel_helper_def Let_def

lemma helpers_below:
  "list_all (\<lambda>h. fst h < n) hs \<Longrightarrow> list_all (\<lambda>h. fst h < Suc n) hs"
  by (auto simp: list_all_iff)

lemma PreventSleep_ok:
  assumes "power_ok s"
  shows "power_ok (snd (PreventSleep io s))"
proof (cases "pw_inh s")
  case (CmdInhibitor argv cancel)
  with assms show ?thesis
    by (cases cancel; cases "pi_start io") (auto simp: power_defs filter_none_gone helpers_below)
qed (use assms in \<open>auto simp: power_defs\<close>)

lemma AllowSleep_ok:
  assumes "power_ok s"
  shows "power_ok (snd (AllowSleep io s))"
proof (cases "pw_inh s")
  case (CmdInhibitor argv cancel)
  with assms show ?thesis
    by (cases cancel) (auto simp: power_defs list_all_iff distinct_map_filter)
qed (use assms in \<open>auto simp: power_defs\<close>)

interpretation pw: sleep_inhibitor PreventSleep AllowSleep engaged held works frees power_ok
proof
  fix s io
  show "engaged s \<Longrightarrow> PreventSleep io s = (None, s)"
    by (auto simp: power_defs split: sleepInhibitor.splits)
  show "power_ok s \<Longrightarrow> \<not> engaged s \<Longrightarrow> works io s \<Longrightarrow>
      fst (PreventSleep io s) = None \<and> engaged (snd (PreventSleep io s)) \<and> held (snd (PreventSleep io s))"
    by (cases "pw_inh s") (auto simp: power_defs list_ex_update)
  show "\<not> engaged s \<Longrightarrow> power_ok s \<Longrightarrow> \<not> works io s \<Longrightarrow>
      \<not> engaged (snd (PreventSleep io s)) \<and> held (snd (PreventSleep io s)) = held s"
    by (cases "pw_inh s") (auto simp: power_defs filter_none_gone)
  show "\<not> engaged s \<Longrightarrow> AllowSleep io s = (None, s)"
    by (auto simp: power_defs split: sleepInhibitor.splits)
  show "\<not> engaged (snd (AllowSleep io s))"
    by (auto simp: power_defs split: sleepInhibitor.splits option.splits)
  show "power_ok s \<Longrightarrow> engaged s \<Longrightarrow> frees io s \<Longrightarrow> \<not> held (snd (AllowSleep io s))"
    by (cases "pw_inh s") (auto simp: power_defs filter_all_gone list_ex_update, auto simp: list_ex_iff list_all_iff)
  show "power_ok s \<Longrightarrow> power_ok (snd (PreventSleep io s))" by (rule PreventSleep_ok)
  show "power_ok s \<Longrightarrow> power_ok (snd (AllowSleep io s))" by (rule AllowSleep_ok)
qed

section \<open>Any use\<close>

text \<open>A helper may also die on its own (\<open>HelperExit\<close>), which the inhibitor does not notice.\<close>

datatype power_op = PwInhibit power_io | PwRelease power_io | PwHelperExit nat

fun power_step :: "power_op \<Rightarrow> power \<Rightarrow> power option" where
  "power_step (PwInhibit io) s = Some (snd (PreventSleep io s))"
| "power_step (PwRelease io) s = Some (snd (AllowSleep io s))"
| "power_step (PwHelperExit ctx) s = Some (cancel_helper ctx s)"

lemma cancel_helper_ok: "power_ok s \<Longrightarrow> power_ok (cancel_helper ctx s)"
  by (auto simp: cancel_helper_def list_all_iff distinct_map_filter split: sleepInhibitor.splits)

interpretation pwok: stable power_step power_ok
  by unfold_locales (use pw.inv_inhibit pw.inv_release cancel_helper_ok in
    \<open>auto elim!: power_step.elims simp del: power_ok.simps\<close>)

lemma power_init_ok: "power_ok (power_init p)"
  by (cases p) (simp_all add: power_init_def newSleepInhibitor_def)

lemmas power_reach_ok = pwok.run_keeps [OF power_init_ok]

lemma one_element: "distinct xs \<Longrightarrow> set xs \<subseteq> set_option opt \<Longrightarrow> length xs \<le> 1"
proof -
  assume d: "distinct xs" "set xs \<subseteq> set_option opt"
  then have "card (set xs) \<le> card (set_option opt)" by (intro card_mono) simp_all
  then show ?thesis using d(1) by (cases opt) (simp_all add: distinct_card)
qed

lemma ok_one_helper: "power_ok s \<Longrightarrow> length (pw_helpers s) \<le> 1"
proof (cases "pw_inh s")
  case (CmdInhibitor argv cancel)
  assume "power_ok s"
  with CmdInhibitor have "length (map fst (pw_helpers s)) \<le> 1"
    by (intro one_element [where opt = cancel]) auto
  then show ?thesis by simp
qed auto

text \<open>C35.  However often the client prevents and allows sleep, whatever fails and whenever helpers
  die, at most one helper process is alive, and none after \<open>AllowSleep\<close>.\<close>

theorem one_helper_at_most:
  assumes "run_opt power_step ops (power_init p) = Some s"
  shows "length (pw_helpers s) \<le> 1 \<and> pw_helpers (snd (AllowSleep io s)) = []"
proof -
  have ok: "power_ok s" by (rule power_reach_ok [OF assms])
  moreover have "pw_helpers (snd (AllowSleep io s)) = []"
  proof (cases "pw_inh s")
    case (CmdInhibitor argv cancel)
    with ok show ?thesis by (cases cancel) (auto simp: power_defs filter_all_gone)
  qed (use ok in \<open>auto simp: power_defs\<close>)
  ultimately show ?thesis using ok_one_helper by simp
qed

definition pio_good :: power_io where
  "pio_good = \<lparr>pi_start = None, pi_call = True, pi_thread = 0,
     pi_errno = ''The operation completed successfully.''\<rparr>"

theorem one_helper_at_most_witness:
  "length (pw_helpers (snd (PreventSleep pio_good (power_init Linux)))) \<le> 1 \<and>
   pw_helpers (snd (AllowSleep pio_good (snd (PreventSleep pio_good (power_init Linux))))) = []"
  by (rule one_helper_at_most [where ops = "[PwInhibit pio_good]"]) simp

text \<open>After any use, a \<open>PreventSleep\<close> that the platform serves keeps the machine awake, a second
  one changes nothing, and an \<open>AllowSleep\<close> that the platform serves, on Windows on the same thread,
  lets it sleep.\<close>

theorem sleep_bracket:
  assumes "run_opt power_step ops (power_init p) = Some s" and "\<not> engaged s" and "works io s"
  defines "s1 \<equiv> snd (PreventSleep io s)"
  assumes "frees io' s1"
  shows "fst (PreventSleep io s) = None \<and> held s1 \<and> PreventSleep io2 s1 = (None, s1) \<and>
    \<not> held (snd (AllowSleep io' s1)) \<and> \<not> engaged (snd (AllowSleep io' s1))"
proof -
  have ok: "power_ok s" by (rule power_reach_ok [OF assms(1)])
  from pw.inhibit_works [OF ok assms(2,3)] have i: "fst (PreventSleep io s) = None" "engaged s1" "held s1"
    by (simp_all add: s1_def)
  moreover have "power_ok s1" unfolding s1_def by (rule pw.inv_inhibit [OF ok])
  ultimately show ?thesis
    using assms(5) pw.release_works pw.release_disengages pw.inhibit_again by blast
qed

theorem sleep_bracket_witness:
  "fst (PreventSleep pio_good (power_init Windows)) = None \<and>
   held (snd (PreventSleep pio_good (power_init Windows))) \<and>
   PreventSleep pio_good (snd (PreventSleep pio_good (power_init Windows))) =
     (None, snd (PreventSleep pio_good (power_init Windows))) \<and>
   \<not> held (snd (AllowSleep pio_good (snd (PreventSleep pio_good (power_init Windows))))) \<and>
   \<not> engaged (snd (AllowSleep pio_good (snd (PreventSleep pio_good (power_init Windows)))))"
  by (rule sleep_bracket [where ops = "[]" and p = Windows])
    (simp_all add: power_init_def newSleepInhibitor_def pio_good_def power_defs)

text \<open>A release that Go runs on another thread than the call that prevented sleep leaves the machine
  awake: the flags of the first thread stay set, and the inhibitor, which believes that it has let
  go, never clears them.\<close>

lemma release_on_other_thread:
  assumes "power_ok s" and "pw_inh s = WinInhibitor False" and "pi_call io" and "pi_thread io' \<noteq> pi_thread io"
  defines "s2 \<equiv> snd (AllowSleep io' (snd (PreventSleep io s)))"
  shows "held s2 \<and> \<not> engaged s2 \<and> AllowSleep io2 s2 = (None, s2)"
  using assms by (auto simp: power_defs list_ex_update s2_def distinct_update split: prod.splits)

text \<open>On Windows a release always reports an error, even when the call succeeded.\<close>

lemma Windows_release_reports:
  "pw_inh s = WinInhibitor True \<Longrightarrow> fst (AllowSleep io s) = Some (pi_errno io)"
  by (simp add: power_defs)

end
