(* ===== verification/Client.thy ===== *)
theory Client
  imports ClientConfig Sleep GoHttp
begin

text \<open>
  The client object (\<open>internal/client/client.go\<close>): its state, its construction, the accessors, and
  the two things every part of it uses, logging and sending a frame.

  Next to the fields of \<open>Client\<close> the record holds what the client acts on: the goroutines of
  \<open>forward\<close> (a list, a goroutine is its index), the frames written to each connection
  (\<open>cl_wire\<close>, tagged with the connection), the log and status callbacks made, the files and the
  machine's sleep state.  A connection is a number, counted up by each successful dial.
\<close>

section \<open>Status and options\<close>

datatype Status = StatusDisconnected | StatusConnecting | StatusOnline | StatusBackoff

definition Status_String :: "Status \<Rightarrow> string" where
  "Status_String s =
     (case s of StatusConnecting \<Rightarrow> ''connecting'' | StatusOnline \<Rightarrow> ''online''
      | StatusBackoff \<Rightarrow> ''backoff'' | _ \<Rightarrow> ''disconnected'')"

text \<open>A callback is present or \<open>nil\<close>.\<close>

record Options =
  o_ServerInsecure :: bool
  o_TargetInsecure :: bool
  o_ClientCert :: string
  o_ClientKey :: string
  o_Debug :: bool
  o_OnStatusChange :: bool
  o_OnLog :: bool

record tls_config =
  tls_InsecureSkipVerify :: bool
  tls_Certificates :: "string list"

text \<open>\<open>load\<close> is \<open>tls.LoadX509KeyPair\<close> on the file system.\<close>

definition makeTLSConfig ::
    "(string \<Rightarrow> string \<Rightarrow> go_error + string) \<Rightarrow> bool \<Rightarrow> string \<Rightarrow> string \<Rightarrow> go_error + tls_config" where
  "makeTLSConfig load insecure certFile keyFile =
     (let cfg = \<lparr>tls_InsecureSkipVerify = insecure, tls_Certificates = []\<rparr> in
      if certFile \<noteq> [] \<and> keyFile \<noteq> [] then
        (case load certFile keyFile of
           Inl e \<Rightarrow> Inl e
         | Inr cert \<Rightarrow> Inr (cfg\<lparr>tls_Certificates := [cert]\<rparr>))
      else Inr cfg)"

section \<open>The object\<close>

definition chunkSize :: nat where "chunkSize = 256 * 1024"
definition maxConcurrent :: nat where "maxConcurrent = 8"

text \<open>Durations are in nanoseconds.\<close>

definition second :: int where "second = 1000000000"
definition pingInterval :: int where "pingInterval = 25 * second"
definition maxBackoff :: int where "maxBackoff = 60 * second"
definition initialBackoff :: int where "initialBackoff = 1 * second"

record pendingReq =
  p_start :: frame
  p_chunks :: "(int, byte list) dict"

text \<open>A request to the target; \<open>hr_Host\<close> is \<open>None\<close> where the host of the URL is used.\<close>

record http_request =
  hr_Method :: string
  hr_URL :: string
  hr_Header :: headers
  hr_Host :: "string option"
  hr_Body :: "byte list"

text \<open>Where a goroutine of \<open>forward\<close> stands, and (\<open>fw_out\<close>) the frames it has sent.\<close>

datatype fw_phase = FwWaiting | FwHeld | FwRequesting http_request | FwStreaming int | FwDone

record forwarding =
  fw_req :: reqid
  fw_start :: frame
  fw_body :: "byte list"
  fw_phase :: fw_phase
  fw_cancelled :: bool
  fw_out :: "frame list"

record client =
  cl_cfg :: Config
  cl_configPath :: string
  cl_opts :: Options
  cl_serverTLS :: tls_config
  cl_targetTLS :: tls_config
  cl_conn :: "nat option"
  cl_conn_open :: bool
  cl_pending :: "(reqid, pendingReq) dict"
  cl_active :: "(reqid, nat) dict"
  cl_sem :: nat
  cl_status :: Status
  cl_tunID :: string
  cl_stop :: bool
  cl_recon :: bool
  cl_closed :: bool
  cl_backoff :: int
  cl_fwds :: "forwarding list"
  cl_wire :: "(nat \<times> frame) list"
  cl_dials :: nat
  cl_logs :: "(string \<times> string) list"
  cl_statuses :: "Status list"
  cl_disk :: cfg_disk
  cl_power :: power

definition New :: "(string \<Rightarrow> string \<Rightarrow> go_error + string) \<Rightarrow> cfg_disk \<Rightarrow> power \<Rightarrow> Config \<Rightarrow> Options \<Rightarrow> client" where
  "New load dk pw cfg opts =
     \<lparr>cl_cfg = cfg, cl_configPath = [], cl_opts = opts,
      cl_serverTLS = \<lparr>tls_InsecureSkipVerify = o_ServerInsecure opts, tls_Certificates = []\<rparr>,
      cl_targetTLS =
        (case makeTLSConfig load (o_TargetInsecure opts) (o_ClientCert opts) (o_ClientKey opts) of
           Inl e \<Rightarrow> \<lparr>tls_InsecureSkipVerify = o_TargetInsecure opts, tls_Certificates = []\<rparr>
         | Inr c \<Rightarrow> c),
      cl_conn = None, cl_conn_open = False, cl_pending = [], cl_active = [], cl_sem = 0,
      cl_status = StatusDisconnected, cl_tunID = [], cl_stop = False, cl_recon = False,
      cl_closed = False, cl_backoff = initialBackoff, cl_fwds = [], cl_wire = [], cl_dials = 0,
      cl_logs = [], cl_statuses = [], cl_disk = dk, cl_power = pw\<rparr>"

section \<open>Accessors\<close>

definition SetConfigPath :: "string \<Rightarrow> client \<Rightarrow> client" where
  "SetConfigPath p c = c\<lparr>cl_configPath := p\<rparr>"

definition Client_Status :: "client \<Rightarrow> Status" where
  "Client_Status c = cl_status c"

definition Client_TunnelID :: "client \<Rightarrow> string" where
  "Client_TunnelID c = cl_tunID c"

definition Client_Target :: "client \<Rightarrow> string" where
  "Client_Target c = c_Target (cl_cfg c)"

definition SetTarget :: "string \<Rightarrow> client \<Rightarrow> client" where
  "SetTarget t c = c\<lparr>cl_cfg := SetTarget_cfg t (cl_cfg c)\<rparr>"

definition Client_Server :: "client \<Rightarrow> string" where
  "Client_Server c = c_Server (cl_cfg c)"

definition SetServer :: "string \<Rightarrow> client \<Rightarrow> client" where
  "SetServer s c = c\<lparr>cl_cfg := SetServer_cfg s (cl_cfg c)\<rparr>"

definition Client_CustomID :: "client \<Rightarrow> string" where
  "Client_CustomID c = c_CustomID (cl_cfg c)"

definition SetCustomID :: "string \<Rightarrow> client \<Rightarrow> client" where
  "SetCustomID i c = c\<lparr>cl_cfg := SetCustomID_cfg i (cl_cfg c)\<rparr>"

section \<open>Callbacks and frames\<close>

definition setStatus :: "Status \<Rightarrow> client \<Rightarrow> client" where
  "setStatus s c =
     (let c1 = c\<lparr>cl_status := s\<rparr> in
      if o_OnStatusChange (cl_opts c1) then c1\<lparr>cl_statuses := cl_statuses c1 @ [s]\<rparr> else c1)"

definition log_line :: "string \<Rightarrow> string \<Rightarrow> client \<Rightarrow> client" where
  "log_line level msg c =
     (if o_OnLog (cl_opts c) then c\<lparr>cl_logs := cl_logs c @ [(level, msg)]\<rparr> else c)"

definition debugLog :: "string \<Rightarrow> client \<Rightarrow> client" where
  "debugLog msg c = (if o_Debug (cl_opts c) then log_line ''debug'' msg c else c)"

text \<open>\<open>werr\<close> is the error the WebSocket reports, which it must on a connection that has been closed.\<close>

definition sendFrame :: "go_error option \<Rightarrow> frame \<Rightarrow> client \<Rightarrow> go_error option \<times> client" where
  "sendFrame werr f c =
     (case cl_conn c of
        None \<Rightarrow> (Some ''not connected'', c)
      | Some g \<Rightarrow>
          if \<not> cl_conn_open c then (Some ''use of closed network connection'', c)
          else (case werr of
                  Some e \<Rightarrow> (Some e, c)
                | None \<Rightarrow> (None, c\<lparr>cl_wire := cl_wire c @ [(g, f)]\<rparr>)))"

lemma sendFrame_cases:
  obtains (failed) e where "sendFrame werr f c = (Some e, c)"
  | (sent) g where "sendFrame werr f c = (None, c\<lparr>cl_wire := cl_wire c @ [(g, f)]\<rparr>)"
      "cl_conn c = Some g" "cl_conn_open c"
proof (cases "\<exists>g. cl_conn c = Some g \<and> cl_conn_open c \<and> werr = None")
  case True
  then show thesis using sent by (auto simp: sendFrame_def)
next
  case False
  then have "\<exists>e. sendFrame werr f c = (Some e, c)"
    by (cases "cl_conn c"; cases werr) (auto simp: sendFrame_def)
  then show thesis using failed by blast
qed

text \<open>The fields that logging, status changes and sends leave alone.\<close>

definition same_core :: "client \<Rightarrow> client \<Rightarrow> bool" where
  "same_core c c' \<longleftrightarrow>
     cl_cfg c' = cl_cfg c \<and> cl_pending c' = cl_pending c \<and> cl_active c' = cl_active c \<and>
     cl_sem c' = cl_sem c \<and> cl_fwds c' = cl_fwds c \<and> cl_conn c' = cl_conn c \<and>
     cl_conn_open c' = cl_conn_open c \<and> cl_opts c' = cl_opts c"

lemma same_core_refl [simp, intro]: "same_core c c"
  by (simp add: same_core_def)

lemma same_core_trans [trans]: "same_core a b \<Longrightarrow> same_core b c \<Longrightarrow> same_core a c"
  by (simp add: same_core_def)

lemma same_core_sel:
  assumes "same_core c c'"
  shows "cl_cfg c' = cl_cfg c" "cl_pending c' = cl_pending c" "cl_active c' = cl_active c"
    "cl_sem c' = cl_sem c" "cl_fwds c' = cl_fwds c" "cl_conn c' = cl_conn c"
    "cl_conn_open c' = cl_conn_open c" "cl_opts c' = cl_opts c"
  using assms by (simp_all add: same_core_def)

lemma same_core_log [simp, intro]: "same_core c (log_line l m c)" "same_core c (debugLog m c)"
  by (simp_all add: log_line_def debugLog_def same_core_def)

lemma same_core_status [simp, intro]: "same_core c (setStatus s c)"
  by (simp add: setStatus_def Let_def same_core_def)

lemma same_core_send [intro]: "sendFrame werr f c = (r, c') \<Longrightarrow> same_core c c'"
  by (cases rule: sendFrame_cases [of werr f c]) (auto simp: same_core_def)

lemma log_wire [simp]: "cl_wire (log_line l m c) = cl_wire c" "cl_wire (debugLog m c) = cl_wire c"
  by (simp_all add: log_line_def debugLog_def)

text \<open>A key pair that cannot be loaded is dropped: the client runs without a certificate and the
  error is not reported.\<close>

lemma New_drops_bad_certificate:
  assumes "load (o_ClientCert opts) (o_ClientKey opts) = Inl e"
  shows "tls_Certificates (cl_targetTLS (New load dk pw cfg opts)) = [] \<and>
    cl_logs (New load dk pw cfg opts) = []"
  using assms by (simp add: New_def makeTLSConfig_def Let_def)

end
