(* ===== verification/Forward.thy ===== *)
theory Forward
  imports Client
begin

text \<open>
  The request side of the client (\<open>internal/client/client.go\<close>): collecting the frames of a request,
  dispatching it, cancelling it, executing it against the target and streaming the response back.

  The handlers run in the read loop, one frame at a time.  A goroutine of \<open>forward\<close> is an entry of
  \<open>cl_fwds\<close> and moves by \<open>forward_step\<close> under an event: it gets a slot of the semaphore
  (\<open>Acquire\<close>), builds the request (\<open>Build\<close>, with the verdict of \<open>http.NewRequest\<close>), sends it
  (\<open>Do\<close>, with the target's answer) and reads the response (\<open>ReadResp\<close>).  A move whose guard fails is
  \<open>None\<close>: the goroutine is somewhere else, or blocked on the semaphore.
\<close>

section \<open>Collecting requests\<close>

definition chunk_at :: "(int, byte list) dict \<Rightarrow> nat \<Rightarrow> byte list" where
  "chunk_at d i = (case map_of d (int i) of None \<Rightarrow> [] | Some bs \<Rightarrow> bs)"

definition assemble :: "(int, byte list) dict \<Rightarrow> byte list" where
  "assemble d = concat (map (chunk_at d) [0..<length d])"

definition new_forward :: "reqid \<Rightarrow> frame \<Rightarrow> byte list \<Rightarrow> forwarding" where
  "new_forward k st body = \<lparr>fw_req = k, fw_start = st, fw_body = body, fw_phase = FwWaiting,
     fw_cancelled = False, fw_out = []\<rparr>"

definition dispatch :: "reqid \<Rightarrow> client \<Rightarrow> client" where
  "dispatch k c =
     (case map_of (cl_pending c) k of
        None \<Rightarrow> c
      | Some p \<Rightarrow> c\<lparr>cl_pending := AList.delete k (cl_pending c),
                     cl_fwds := cl_fwds c @ [new_forward k (p_start p) (assemble (p_chunks p))]\<rparr>)"

definition handleRequestStart :: "frame \<Rightarrow> client \<Rightarrow> client" where
  "handleRequestStart f c =
     (let c1 = c\<lparr>cl_pending :=
            AList.update (f_ReqID f) \<lparr>p_start = f, p_chunks = []\<rparr> (cl_pending c)\<rparr>
      in if \<not> f_HasBody f then dispatch (f_ReqID f) c1 else c1)"

definition handleRequestChunk :: "frame \<Rightarrow> client \<Rightarrow> client" where
  "handleRequestChunk f c =
     (case map_of (cl_pending c) (f_ReqID f) of
        None \<Rightarrow> c
      | Some p \<Rightarrow>
          (case DecodeString (f_Data f) of
             None \<Rightarrow> c
           | Some bs \<Rightarrow> c\<lparr>cl_pending := AList.update (f_ReqID f)
               (p\<lparr>p_chunks := AList.update (f_Seq f) bs (p_chunks p)\<rparr>) (cl_pending c)\<rparr>))"

definition handleRequestEnd :: "frame \<Rightarrow> client \<Rightarrow> client" where
  "handleRequestEnd f c =
     (case map_of (cl_pending c) (f_ReqID f) of None \<Rightarrow> c | Some p \<Rightarrow> dispatch (f_ReqID f) c)"

definition fw_update :: "nat \<Rightarrow> (forwarding \<Rightarrow> forwarding) \<Rightarrow> client \<Rightarrow> client" where
  "fw_update j g c = c\<lparr>cl_fwds := (cl_fwds c)[j := g (cl_fwds c ! j)]\<rparr>"

definition handleCancel :: "reqid \<Rightarrow> client \<Rightarrow> client" where
  "handleCancel k c =
     (let c1 = c\<lparr>cl_pending := AList.delete k (cl_pending c)\<rparr>;
          cancel = map_of (cl_active c1) k;
          c2 = c1\<lparr>cl_active := AList.delete k (cl_active c1)\<rparr>
      in case cancel of
           None \<Rightarrow> c2
         | Some j \<Rightarrow> fw_update j (\<lambda>fw. fw\<lparr>fw_cancelled := True\<rparr>) c2)"

section \<open>The read loop\<close>

definition frame_pong :: "int \<Rightarrow> frame" where
  "frame_pong ts = zero_frame\<lparr>f_Type := ''pong'', f_TS := ts\<rparr>"

definition set_target_ack :: "bool \<Rightarrow> frame" where
  "set_target_ack ok = zero_frame\<lparr>f_Type := ''set_target_ack'', f_Ok := ok\<rparr>"

definition stats_frame :: "string \<Rightarrow> frame" where
  "stats_frame target = zero_frame\<lparr>f_Type := ''stats'', f_Forwarded := 0, f_Target := target\<rparr>"

definition handle_frame :: "go_error option \<Rightarrow> frame \<Rightarrow> client \<Rightarrow> client" where
  "handle_frame werr f c =
     (if f_Type f = ''ping'' then snd (sendFrame werr (frame_pong (f_TS f)) c)
      else if f_Type f = ''request_start'' then handleRequestStart f c
      else if f_Type f = ''request_chunk'' then handleRequestChunk f c
      else if f_Type f = ''request_end'' then handleRequestEnd f c
      else if f_Type f = ''cancel'' then handleCancel (f_ReqID f) c
      else if f_Type f = ''set_target'' then
        snd (sendFrame werr (set_target_ack (IsValidTarget (f_Target f)))
          (if IsValidTarget (f_Target f) then SetTarget (f_Target f) c else c))
      else if f_Type f = ''get_stats'' then snd (sendFrame werr (stats_frame (Client_Target c)) c)
      else c)"

definition handle_message :: "go_error option \<Rightarrow> json option \<Rightarrow> client \<Rightarrow> client" where
  "handle_message werr data c =
     (case Unmarshal data zero_frame of None \<Rightarrow> c | Some f \<Rightarrow> handle_frame werr f c)"

section \<open>Executing a request\<close>

definition response_start :: "reqid \<Rightarrow> int \<Rightarrow> headers \<Rightarrow> frame" where
  "response_start k status hs =
     zero_frame\<lparr>f_Type := ''response_start'', f_ReqID := k, f_Status := status, f_Headers := hs\<rparr>"

definition response_chunk :: "reqid \<Rightarrow> int \<Rightarrow> byte list \<Rightarrow> frame" where
  "response_chunk k s bs =
     zero_frame\<lparr>f_Type := ''response_chunk'', f_ReqID := k, f_Seq := s, f_Data := EncodeToString bs\<rparr>"

definition response_end :: "reqid \<Rightarrow> go_error \<Rightarrow> frame" where
  "response_end k e = zero_frame\<lparr>f_Type := ''response_end'', f_ReqID := k, f_Error := e\<rparr>"

text \<open>A send of the goroutine \<open>j\<close>; the result says whether it failed.\<close>

definition fw_send :: "go_error option \<Rightarrow> frame \<Rightarrow> nat \<Rightarrow> client \<Rightarrow> bool \<times> client" where
  "fw_send werr f j c =
     (case sendFrame werr f c of
        (Some e, c1) \<Rightarrow> (True, c1)
      | (None, c1) \<Rightarrow> (False, fw_update j (\<lambda>fw. fw\<lparr>fw_out := fw_out fw @ [f]\<rparr>) c1))"

definition sendError ::
    "go_error option \<Rightarrow> go_error option \<Rightarrow> reqid \<Rightarrow> go_error \<Rightarrow> nat \<Rightarrow> client \<Rightarrow> client" where
  "sendError werr1 werr2 k e j c =
     snd (fw_send werr2 (response_end k e) j (snd (fw_send werr1 (response_start k 502 []) j c)))"

fun add_request_headers :: "headers \<Rightarrow> http_request \<Rightarrow> http_request" where
  "add_request_headers [] r = r"
| "add_request_headers ((k, vv) # hs) r =
     add_request_headers hs
       (if EqualFold k ''Host'' \<and> vv \<noteq> [] then r\<lparr>hr_Host := Some (hd vv)\<rparr>
        else r\<lparr>hr_Header := fold (header_add k) vv (hr_Header r)\<rparr>)"

definition target_url :: "string \<Rightarrow> frame \<Rightarrow> string" where
  "target_url target st =
     (let path = (if f_Path st = [] then ''/'' else f_Path st);
          url = target @ path
      in if f_Query st \<noteq> [] then url @ ''?'' @ f_Query st else url)"

definition build_request :: "string \<Rightarrow> frame \<Rightarrow> byte list \<Rightarrow> http_request" where
  "build_request target st body =
     add_request_headers (f_Headers st)
       \<lparr>hr_Method = (if f_Method st = [] then ''GET'' else f_Method st), hr_URL = target_url target st,
        hr_Header = [], hr_Host = None, hr_Body = body\<rparr>"

text \<open>The deferred calls: the entry of \<open>active\<close> goes, the context ends, the slot is free.\<close>

definition fw_finish :: "nat \<Rightarrow> client \<Rightarrow> client" where
  "fw_finish j c =
     (let k = fw_req (cl_fwds c ! j) in
      (fw_update j (\<lambda>fw. fw\<lparr>fw_phase := FwDone, fw_cancelled := True\<rparr>)
         (c\<lparr>cl_active := AList.delete k (cl_active c)\<rparr>))\<lparr>cl_sem := cl_sem c - 1\<rparr>)"

definition fw_goto :: "nat \<Rightarrow> fw_phase \<Rightarrow> client \<Rightarrow> client" where
  "fw_goto j ph = fw_update j (\<lambda>fw. fw\<lparr>fw_phase := ph\<rparr>)"

datatype fw_event =
    Acquire
  | Build "go_error option" "go_error option" "go_error option"
  | Do "go_error + int \<times> headers" "go_error option" "go_error option"
  | ReadResp "byte list" read_end "go_error option" "go_error option"

definition fw_build ::
    "go_error option \<Rightarrow> go_error option \<Rightarrow> go_error option \<Rightarrow> nat \<Rightarrow> client \<Rightarrow> client" where
  "fw_build err werr1 werr2 j c =
     (let fw = cl_fwds c ! j; target = TrimSuffix (Client_Target c) ''/'' in
      if \<not> IsValidTarget target then
        fw_finish j (sendError werr1 werr2 (fw_req fw) ''no target configured'' j
          (debugLog ''request failed'' c))
      else let c1 = debugLog ''forwarding request'' c in
        case err of
          Some e \<Rightarrow> fw_finish j (sendError werr1 werr2 (fw_req fw) e j (debugLog ''request failed'' c1))
        | None \<Rightarrow> fw_goto j (FwRequesting (build_request target (fw_start fw) (fw_body fw))) c1)"

definition fw_do ::
    "go_error + int \<times> headers \<Rightarrow> go_error option \<Rightarrow> go_error option \<Rightarrow> nat \<Rightarrow> client \<Rightarrow> client" where
  "fw_do res werr1 werr2 j c =
     (let k = fw_req (cl_fwds c ! j) in
      case res of
        Inl e \<Rightarrow> fw_finish j (sendError werr1 werr2 k e j (debugLog ''request failed'' c))
      | Inr (status, hs) \<Rightarrow>
          (case fw_send werr1 (response_start k status hs) j c of
             (failed, c1) \<Rightarrow> if failed then fw_finish j c1 else fw_goto j (FwStreaming 0) c1))"

definition fw_read ::
    "byte list \<Rightarrow> read_end \<Rightarrow> go_error option \<Rightarrow> go_error option \<Rightarrow> int \<Rightarrow> nat \<Rightarrow> client \<Rightarrow> client" where
  "fw_read bs rd werr1 werr2 s j c =
     (let k = fw_req (cl_fwds c ! j) in
      case (if bs = [] then (False, c) else fw_send werr1 (response_chunk k s bs) j c) of
        (failed, c1) \<Rightarrow>
          if failed then fw_finish j c1
          else (case rd of
                  More \<Rightarrow> fw_goto j (FwStreaming (if bs = [] then s else s + 1)) c1
                | EOF \<Rightarrow> debugLog ''request done'' (fw_finish j (snd (fw_send werr2 (response_end k []) j c1)))
                | ReadErr e \<Rightarrow>
                    fw_finish j (snd (fw_send werr2 (response_end k e) j (debugLog ''response aborted'' c1)))))"

fun forward_step :: "fw_event \<Rightarrow> nat \<Rightarrow> client \<Rightarrow> client option" where
  "forward_step Acquire j c =
     (if j < length (cl_fwds c) \<and> fw_phase (cl_fwds c ! j) = FwWaiting \<and> cl_sem c < maxConcurrent then
        Some (fw_goto j FwHeld (c\<lparr>cl_sem := cl_sem c + 1,
          cl_active := AList.update (fw_req (cl_fwds c ! j)) j (cl_active c)\<rparr>))
      else None)"
| "forward_step (Build err werr1 werr2) j c =
     (if j < length (cl_fwds c) \<and> fw_phase (cl_fwds c ! j) = FwHeld
      then Some (fw_build err werr1 werr2 j c) else None)"
| "forward_step (Do res werr1 werr2) j c =
     (if j < length (cl_fwds c) then
        (case fw_phase (cl_fwds c ! j) of
           FwRequesting r \<Rightarrow> Some (fw_do res werr1 werr2 j c)
         | _ \<Rightarrow> None)
      else None)"
| "forward_step (ReadResp bs rd werr1 werr2) j c =
     (if j < length (cl_fwds c) \<and> length bs \<le> chunkSize then
        (case fw_phase (cl_fwds c ! j) of
           FwStreaming s \<Rightarrow> Some (fw_read bs rd werr1 werr2 s j c)
         | _ \<Rightarrow> None)
      else None)"

section \<open>What the handlers make of one request\<close>

text \<open>The abstract view of a request identifier: the request being collected under it, and the requests
  (start frame, body) started under it.\<close>

type_synonym req_view = "pendingReq option \<times> (frame \<times> byte list) list"

definition started_for :: "reqid \<Rightarrow> forwarding list \<Rightarrow> (frame \<times> byte list) list" where
  "started_for k fws = map (\<lambda>fw. (fw_start fw, fw_body fw)) (filter (\<lambda>fw. fw_req fw = k) fws)"

definition view :: "reqid \<Rightarrow> client \<Rightarrow> req_view" where
  "view k c = (map_of (cl_pending c) k, started_for k (cl_fwds c))"

text \<open>The frames that concern a request identifier, and what each does to its view.\<close>

definition about :: "reqid \<Rightarrow> frame \<Rightarrow> bool" where
  "about k f \<longleftrightarrow> f_ReqID f = k \<and>
     f_Type f \<in> {''request_start'', ''request_chunk'', ''request_end'', ''cancel''}"

definition view_dispatch :: "req_view \<Rightarrow> req_view" where
  "view_dispatch v = (case v of
     (None, ss) \<Rightarrow> (None, ss)
   | (Some p, ss) \<Rightarrow> (None, ss @ [(p_start p, assemble (p_chunks p))]))"

definition view_step :: "frame \<Rightarrow> req_view \<Rightarrow> req_view" where
  "view_step f v =
     (if f_Type f = ''request_start'' then
        (let v1 = (Some \<lparr>p_start = f, p_chunks = []\<rparr>, snd v) in
         if f_HasBody f then v1 else view_dispatch v1)
      else if f_Type f = ''request_chunk'' then
        (case v of
           (None, ss) \<Rightarrow> (None, ss)
         | (Some p, ss) \<Rightarrow>
             (case DecodeString (f_Data f) of
                None \<Rightarrow> (Some p, ss)
              | Some bs \<Rightarrow> (Some (p\<lparr>p_chunks := AList.update (f_Seq f) bs (p_chunks p)\<rparr>), ss)))
      else if f_Type f = ''request_end'' then view_dispatch v
      else (None, snd v))"

lemma view_same_core: "same_core c c' \<Longrightarrow> view k c' = view k c"
  by (simp add: view_def same_core_def)

lemma view_send [simp]: "view k (snd (sendFrame werr f c)) = view k c"
  by (rule view_same_core) (metis same_core_send prod.collapse)

lemma map_of_delete_cases: "map_of (AList.delete k d) k' = (if k' = k then None else map_of d k')"
  by (simp add: AList.delete_conv')

lemma started_for_append [simp]:
  "started_for k (xs @ ys) = started_for k xs @ started_for k ys"
  by (simp add: started_for_def)

lemma started_for_new [simp]:
  "started_for k [new_forward k' st body] = (if k' = k then [(st, body)] else [])"
  by (simp add: started_for_def new_forward_def)

lemma started_for_update:
  assumes "\<And>fw. fw_req (g fw) = fw_req fw \<and> fw_start (g fw) = fw_start fw \<and> fw_body (g fw) = fw_body fw"
  shows "started_for k (xs[j := g (xs ! j)]) = started_for k xs"
proof (induction xs arbitrary: j)
  case (Cons x xs)
  then show ?case using assms [of x] by (cases j) (simp_all add: started_for_def)
qed (simp add: started_for_def)

lemma view_dispatch_eq:
  "view k (dispatch k' c) = (if k' = k then view_dispatch (view k c) else view k c)"
  by (auto simp: view_def dispatch_def view_dispatch_def map_of_delete_cases split: option.splits)

lemma view_pending_update:
  "view k (c\<lparr>cl_pending := AList.update k' p (cl_pending c)\<rparr>) =
     (if k' = k then (Some p, snd (view k c)) else view k c)"
  by (simp add: view_def map_of_update_cases)

lemma view_handleRequestStart:
  "view k (handleRequestStart f c) = (if f_ReqID f = k then
     (let v1 = (Some \<lparr>p_start = f, p_chunks = []\<rparr>, snd (view k c)) in
      if f_HasBody f then v1 else view_dispatch v1) else view k c)"
  by (simp add: handleRequestStart_def Let_def view_dispatch_eq view_pending_update)

lemma view_handleRequestChunk:
  "view k (handleRequestChunk f c) = (if f_ReqID f = k then
     (case view k c of
        (None, ss) \<Rightarrow> (None, ss)
      | (Some p, ss) \<Rightarrow>
          (case DecodeString (f_Data f) of
             None \<Rightarrow> (Some p, ss)
           | Some bs \<Rightarrow> (Some (p\<lparr>p_chunks := AList.update (f_Seq f) bs (p_chunks p)\<rparr>), ss)))
     else view k c)"
  by (auto simp: handleRequestChunk_def view_def map_of_update_cases split: option.splits)

lemma view_handleRequestEnd:
  "view k (handleRequestEnd f c) = (if f_ReqID f = k then view_dispatch (view k c) else view k c)"
proof (cases "map_of (cl_pending c) (f_ReqID f)")
  case None
  then show ?thesis by (auto simp: handleRequestEnd_def view_def view_dispatch_def)
qed (simp add: handleRequestEnd_def view_dispatch_eq)

lemma view_handleCancel:
  "view k (handleCancel k' c) = (if k' = k then (None, snd (view k c)) else view k c)"
  by (cases "map_of (cl_active c) k'")
    (simp_all add: handleCancel_def Let_def view_def fw_update_def map_of_delete_cases started_for_update)

lemma view_SetTarget [simp]: "view k (SetTarget t c) = view k c"
  by (simp add: view_def SetTarget_def)

lemmas view_handlers = view_handleRequestStart view_handleRequestChunk view_handleRequestEnd view_handleCancel

lemma view_handle_frame:
  "view k (handle_frame werr f c) = (if about k f then view_step f (view k c) else view k c)"
  by (simp add: handle_frame_def view_handlers about_def view_step_def)

lemma view_handle_frames:
  "view k (fold (\<lambda>(werr, f). handle_frame werr f) ms c) =
     fold view_step (filter (about k) (map snd ms)) (view k c)"
  by (induction ms arbitrary: c) (auto simp: view_handle_frame)

subsection \<open>Bodies\<close>

text \<open>The sequence numbers and payloads of a body sent in chunks.\<close>

definition numbered :: "byte list list \<Rightarrow> (int \<times> byte list) list" where
  "numbered bss = zip (map int [0..<length bss]) bss"

lemma numbered_keys: "map fst (numbered bss) = map int [0..<length bss]"
  by (simp add: numbered_def)

lemma numbered_wf: "wf_dict (numbered bss)"
  by (simp add: numbered_keys distinct_map)

lemma numbered_at: "i < length bss \<Longrightarrow> chunk_at (numbered bss) i = bss ! i"
proof -
  assume "i < length bss"
  then have "(int i, bss ! i) \<in> set (numbered bss)"
    by (force simp: numbered_def in_set_zip)
  with numbered_wf show ?thesis by (simp add: chunk_at_def)
qed

lemma assemble_numbered:
  assumes "mset d = mset (numbered bss)"
  shows "assemble d = concat bss"
proof -
  have "map_of d = map_of (numbered bss)" by (rule map_of_mset_eq [OF assms numbered_wf])
  moreover have "length d = length bss"
    using mset_eq_length [OF assms] by (simp add: numbered_def)
  moreover have "chunk_at d = chunk_at (numbered bss)"
    using calculation(1) by (simp add: chunk_at_def fun_eq_iff)
  ultimately have "map (chunk_at d) [0..<length d] = bss"
    by (intro nth_equalityI) (simp_all add: numbered_at)
  then show ?thesis by (simp add: assemble_def)
qed

definition is_chunk :: "frame \<Rightarrow> bool" where
  "is_chunk f \<longleftrightarrow> f_Type f = ''request_chunk'' \<and> DecodeString (f_Data f) \<noteq> None"

lemma view_chunks:
  assumes "list_all is_chunk cs" and "distinct (map fst (p_chunks p) @ map f_Seq cs)"
  shows "fold view_step cs (Some p, ss) =
    (Some (p\<lparr>p_chunks := p_chunks p @ map (\<lambda>f. (f_Seq f, payload f)) cs\<rparr>), ss)"
  using assms
proof (induction cs arbitrary: p)
  case (Cons f cs)
  then obtain bs where "DecodeString (f_Data f) = Some bs" "f_Type f = ''request_chunk''"
    by (auto simp: is_chunk_def)
  moreover have "AList.update (f_Seq f) bs (p_chunks p) = p_chunks p @ [(f_Seq f, bs)]"
    using Cons.prems(2) by (intro update_append_new) auto
  ultimately have "view_step f (Some p, ss) = (Some (p\<lparr>p_chunks := p_chunks p @ [(f_Seq f, payload f)]\<rparr>), ss)"
    by (simp add: view_step_def payload_def)
  with Cons show ?case by simp
qed simp

lemma frames_of_request:
  assumes "filter (about k) (map snd ms) = st # cs @ [en]"
    and "f_Type st = ''request_start''" and "f_HasBody st" and "f_Type en = ''request_end''"
    and "list_all is_chunk cs"
    and "mset (map (\<lambda>f. (f_Seq f, payload f)) cs) = mset (numbered bss)"
  shows "view k (fold (\<lambda>(werr, f). handle_frame werr f) ms c) =
    (None, snd (view k c) @ [(st, concat bss)])"
proof -
  have "distinct (map fst (map (\<lambda>f. (f_Seq f, payload f)) cs))"
    using numbered_wf [of bss] wf_dict_mset [OF assms(6)] by simp
  then have d: "distinct (map f_Seq cs)" by (simp add: comp_def)
  have "fold view_step (st # cs @ [en]) (view k c) = view_step en
      (Some \<lparr>p_start = st, p_chunks = map (\<lambda>f. (f_Seq f, payload f)) cs\<rparr>, snd (view k c))"
    using assms(2,3) d view_chunks [OF assms(5), of "\<lparr>p_start = st, p_chunks = []\<rparr>"]
    by (simp add: view_step_def)
  with assms(4) show ?thesis
    by (simp add: view_handle_frames assms(1) view_step_def view_dispatch_def
        assemble_numbered [OF assms(6)])
qed

text \<open>C10.  A request whose start frame, chunks and end frame arrive with the chunks in any order, and with
  any frames of other requests and any pings and settings in between, is started exactly once,
  with that start frame and the body its chunks were cut from.\<close>

theorem request_assembled:
  assumes "filter (about k) (map snd ms) = st # cs @ [en]"
    and "f_Type st = ''request_start''" and "f_HasBody st" and "f_Type en = ''request_end''"
    and "list_all is_chunk cs"
    and "mset (map (\<lambda>f. (f_Seq f, payload f)) cs) = mset (numbered bss)"
  shows "view k (fold (\<lambda>(werr, f). handle_frame werr f) ms c) =
    (None, snd (view k c) @ [(st, concat bss)])"
  using assms by (rule frames_of_request)

text \<open>A request without a body is started by its first frame.\<close>

lemma bodyless_started:
  "f_Type st = ''request_start'' \<Longrightarrow> \<not> f_HasBody st \<Longrightarrow>
   view (f_ReqID st) (handle_frame werr st c) = (None, snd (view (f_ReqID st) c) @ [(st, [])])"
  by (simp add: view_handle_frame about_def view_step_def view_dispatch_def assemble_def)

text \<open>A cancelled collection starts nothing.\<close>

lemma cancel_drops_collection:
  "f_Type f = ''cancel'' \<Longrightarrow>
   view (f_ReqID f) (handle_frame werr f c) = (None, snd (view (f_ReqID f) c))"
  by (simp add: view_handle_frame about_def view_step_def)

definition no_client :: client where
  "no_client = New (\<lambda>_ _. Inl '''') (\<lambda>_. None) (power_init OtherOS) empty_config
     \<lparr>o_ServerInsecure = False, o_TargetInsecure = False, o_ClientCert = [], o_ClientKey = [],
      o_Debug = False, o_OnStatusChange = True, o_OnLog = True\<rparr>"

definition demo_req :: frame where
  "demo_req = zero_frame\<lparr>f_Type := ''request_start'', f_ReqID := 7, f_Method := ''POST'',
     f_Path := ''/upload'', f_HasBody := True\<rparr>"

definition demo_chunk :: "int \<Rightarrow> byte list \<Rightarrow> frame" where
  "demo_chunk s bs = zero_frame\<lparr>f_Type := ''request_chunk'', f_ReqID := 7, f_Seq := s,
     f_Data := EncodeToString bs\<rparr>"

definition demo_end :: frame where
  "demo_end = zero_frame\<lparr>f_Type := ''request_end'', f_ReqID := 7\<rparr>"

lemma demo_payload: "DecodeString (f_Data (demo_chunk s bs)) = Some bs" "payload (demo_chunk s bs) = bs"
  by (simp_all add: demo_chunk_def payload_def b64.dec_enc)

theorem request_assembled_witness:
  "view 7 (fold (\<lambda>(werr, f). handle_frame werr f)
     [(None, demo_req), (None, demo_chunk 1 [3]), (None, zero_frame\<lparr>f_Type := ''get_stats''\<rparr>),
      (None, demo_chunk 0 [1, 2]), (None, demo_end)] no_client) =
   (None, snd (view 7 no_client) @ [(demo_req, concat [[1, 2], [3]])])"
proof (rule request_assembled [where cs = "[demo_chunk 1 [3], demo_chunk 0 [1, 2]]" and en = demo_end])
  show "list_all is_chunk [demo_chunk 1 [3], demo_chunk 0 [1, 2]]"
    by (simp add: is_chunk_def demo_payload) (simp add: demo_chunk_def)
  show "mset (map (\<lambda>f. (f_Seq f, payload f)) [demo_chunk 1 [3], demo_chunk 0 [1, 2]]) =
      mset (numbered [[1, 2], [3]])"
    by (simp add: demo_payload numbered_def) (simp add: demo_chunk_def)
qed (simp_all add: about_def demo_req_def demo_chunk_def demo_end_def zero_frame_def)

section \<open>The life of one forward\<close>

text \<open>What one move makes of the goroutine's own record, for a target that is \<open>tgt\<close> at that time.
  A frame whose send fails is missing from \<open>fw_out\<close>; after a failed start or chunk nothing follows.\<close>

definition error_frames :: "reqid \<Rightarrow> go_error \<Rightarrow> frame list" where
  "error_frames k e = [response_start k 502 [], response_end k e]"

definition chunk_of :: "reqid \<Rightarrow> int \<Rightarrow> byte list \<Rightarrow> frame list" where
  "chunk_of k s bs = (if bs = [] then [] else [response_chunk k s bs])"

abbreviation fw_done :: "frame list \<Rightarrow> forwarding \<Rightarrow> forwarding" where
  "fw_done fs fw \<equiv> fw\<lparr>fw_phase := FwDone, fw_cancelled := True, fw_out := fw_out fw @ fs\<rparr>"

inductive fw_trans :: "string \<Rightarrow> fw_event \<Rightarrow> forwarding \<Rightarrow> forwarding \<Rightarrow> bool" for tgt where
  acquire: "fw_phase fw = FwWaiting \<Longrightarrow> fw_trans tgt Acquire fw (fw\<lparr>fw_phase := FwHeld\<rparr>)"
| build: "fw_phase fw = FwHeld \<Longrightarrow> IsValidTarget (TrimSuffix tgt ''/'') \<Longrightarrow>
    fw_trans tgt (Build None w1 w2) fw
      (fw\<lparr>fw_phase := FwRequesting (build_request (TrimSuffix tgt ''/'') (fw_start fw) (fw_body fw))\<rparr>)"
| refuse: "fw_phase fw = FwHeld \<Longrightarrow>
    \<not> IsValidTarget (TrimSuffix tgt ''/'') \<and> e = ''no target configured'' \<or> err = Some e \<Longrightarrow>
    fs \<in> set (subseqs (error_frames (fw_req fw) e)) \<Longrightarrow>
    fw_trans tgt (Build err w1 w2) fw (fw_done fs fw)"
| unreachable: "fw_phase fw = FwRequesting r \<Longrightarrow> fs \<in> set (subseqs (error_frames (fw_req fw) e)) \<Longrightarrow>
    fw_trans tgt (Do (Inl e) w1 w2) fw (fw_done fs fw)"
| answer: "fw_phase fw = FwRequesting r \<Longrightarrow> fw_trans tgt (Do (Inr (st, hs)) w1 w2) fw
    (fw\<lparr>fw_phase := FwStreaming 0, fw_out := fw_out fw @ [response_start (fw_req fw) st hs]\<rparr>)"
| answer_lost: "fw_phase fw = FwRequesting r \<Longrightarrow>
    fw_trans tgt (Do (Inr (st, hs)) w1 w2) fw (fw_done [] fw)"
| more: "fw_phase fw = FwStreaming s \<Longrightarrow> length bs \<le> chunkSize \<Longrightarrow>
    fw_trans tgt (ReadResp bs More w1 w2) fw
      (fw\<lparr>fw_phase := FwStreaming (if bs = [] then s else s + 1),
         fw_out := fw_out fw @ chunk_of (fw_req fw) s bs\<rparr>)"
| ended: "fw_phase fw = FwStreaming s \<Longrightarrow> length bs \<le> chunkSize \<Longrightarrow>
    rd = EOF \<and> e = [] \<or> rd = ReadErr e \<Longrightarrow>
    fs \<in> {[], [response_end (fw_req fw) e]} \<Longrightarrow>
    fw_trans tgt (ReadResp bs rd w1 w2) fw (fw_done (chunk_of (fw_req fw) s bs @ fs) fw)"
| chunk_lost: "fw_phase fw = FwStreaming s \<Longrightarrow> bs \<noteq> [] \<Longrightarrow> fw_trans tgt (ReadResp bs rd w1 w2) fw (fw_done [] fw)"

inductive_cases fw_trans_elim: "fw_trans tgt ev fw fw'"

subsection \<open>The moves of the program are these\<close>

lemma fw_update_sel [simp]:
  "cl_fwds (fw_update j g c) = (cl_fwds c)[j := g (cl_fwds c ! j)]"
  "cl_sem (fw_update j g c) = cl_sem c" "cl_active (fw_update j g c) = cl_active c"
  "cl_pending (fw_update j g c) = cl_pending c" "cl_cfg (fw_update j g c) = cl_cfg c"
  "cl_wire (fw_update j g c) = cl_wire c" "cl_conn (fw_update j g c) = cl_conn c"
  "cl_conn_open (fw_update j g c) = cl_conn_open c"
  by (simp_all add: fw_update_def)

text \<open>\<open>emits j fs c c'\<close>: the goroutine \<open>j\<close> has sent the frames \<open>fs\<close> and nothing else matters.\<close>

definition emits :: "nat \<Rightarrow> frame list \<Rightarrow> client \<Rightarrow> client \<Rightarrow> bool" where
  "emits j fs c c' \<longleftrightarrow>
     cl_fwds c' = (cl_fwds c)[j := (cl_fwds c ! j)\<lparr>fw_out := fw_out (cl_fwds c ! j) @ fs\<rparr>] \<and>
     cl_sem c' = cl_sem c \<and> cl_active c' = cl_active c \<and> cl_pending c' = cl_pending c \<and>
     cl_cfg c' = cl_cfg c"

lemma emits_same: "same_core c c' \<Longrightarrow> emits j [] c c'"
  by (simp add: emits_def same_core_def)

lemma emits_log [simp]: "emits j [] c (debugLog m c)"
  by (simp add: emits_same)

lemma emits_trans: "emits j fs c c1 \<Longrightarrow> emits j gs c1 c2 \<Longrightarrow> j < length (cl_fwds c) \<Longrightarrow> emits j (fs @ gs) c c2"
  by (auto simp: emits_def)

lemma fw_send_emits:
  assumes "fw_send werr f j c = (failed, c')"
  shows "emits j (if failed then [] else [f]) c c'"
  using assms by (cases rule: sendFrame_cases [of werr f c]) (auto simp: fw_send_def emits_def)

lemma fw_send_emits_snd: "\<exists>fs \<in> {[], [f]}. emits j fs c (snd (fw_send werr f j c))"
  using fw_send_emits [of werr f j c] by (cases "fw_send werr f j c") (auto split: if_splits)

lemma sendError_emits:
  assumes "j < length (cl_fwds c)"
  shows "\<exists>fs \<in> set (subseqs (error_frames k e)). emits j fs c (sendError w1 w2 k e j c)"
proof -
  define c1 where "c1 = snd (fw_send w1 (response_start k 502 []) j c)"
  obtain fs where fs: "fs \<in> {[], [response_start k 502 []]}" "emits j fs c c1"
    using fw_send_emits_snd unfolding c1_def by blast
  obtain gs where gs: "gs \<in> {[], [response_end k e]}" "emits j gs c1 (sendError w1 w2 k e j c)"
    using fw_send_emits_snd unfolding c1_def sendError_def by blast
  from emits_trans [OF fs(2) gs(2) assms] fs(1) gs(1) show ?thesis
    by (intro bexI [of _ "fs @ gs"]) (auto simp: error_frames_def Let_def)
qed

lemma fw_finish_sel:
  "cl_sem (fw_finish j c) = cl_sem c - 1"
  "cl_active (fw_finish j c) = AList.delete (fw_req (cl_fwds c ! j)) (cl_active c)"
  "cl_fwds (fw_finish j c) =
     (cl_fwds c)[j := (cl_fwds c ! j)\<lparr>fw_phase := FwDone, fw_cancelled := True\<rparr>]"
  "cl_pending (fw_finish j c) = cl_pending c" "cl_cfg (fw_finish j c) = cl_cfg c"
  by (simp_all add: fw_finish_def Let_def)

lemma fw_order:
  "fw\<lparr>fw_out := x, fw_phase := p\<rparr> = fw\<lparr>fw_phase := p, fw_out := x\<rparr>"
  "fw\<lparr>fw_out := x, fw_cancelled := b\<rparr> = fw\<lparr>fw_cancelled := b, fw_out := x\<rparr>"
  by simp_all

text \<open>A move of the goroutine \<open>j\<close>: one of its record, with its slot and its entry of \<open>active\<close>.\<close>

definition fwd_moves :: "fw_event \<Rightarrow> nat \<Rightarrow> client \<Rightarrow> client \<Rightarrow> bool" where
  "fwd_moves ev j c c' \<longleftrightarrow>
     (\<exists>fw'. fw_trans (Client_Target c) ev (cl_fwds c ! j) fw' \<and> cl_fwds c' = (cl_fwds c)[j := fw'] \<and>
        cl_pending c' = cl_pending c \<and> cl_cfg c' = cl_cfg c \<and>
        (let k = fw_req (cl_fwds c ! j) in
         if ev = Acquire then cl_sem c < maxConcurrent \<and> cl_sem c' = cl_sem c + 1 \<and>
           cl_active c' = AList.update k j (cl_active c)
         else if fw_phase fw' = FwDone then cl_sem c' = cl_sem c - 1 \<and>
           cl_active c' = AList.delete k (cl_active c)
         else cl_sem c' = cl_sem c \<and> cl_active c' = cl_active c))"

lemma moves_finish:
  assumes "emits j fs c c1" and "j < length (cl_fwds c)" and "ev \<noteq> Acquire"
    and "fw_trans (Client_Target c) ev (cl_fwds c ! j) (fw_done fs (cl_fwds c ! j))"
  shows "fwd_moves ev j c (fw_finish j c1)"
  using assms by (auto simp: fwd_moves_def emits_def fw_finish_sel fw_order Let_def intro!: exI)

lemma moves_goto:
  assumes "emits j fs c c1" and "j < length (cl_fwds c)" and "ev \<noteq> Acquire" and "ph \<noteq> FwDone"
    and "fw_trans (Client_Target c) ev (cl_fwds c ! j)
      ((cl_fwds c ! j)\<lparr>fw_phase := ph, fw_out := fw_out (cl_fwds c ! j) @ fs\<rparr>)"
  shows "fwd_moves ev j c (fw_goto j ph c1)"
  using assms by (auto simp: fwd_moves_def emits_def fw_goto_def fw_order Let_def intro!: exI)

lemma moves_same: "fwd_moves ev j c c1 \<Longrightarrow> same_core c1 c2 \<Longrightarrow> fwd_moves ev j c c2"
  unfolding fwd_moves_def by (simp only: same_core_sel)

lemma fw_build_moves:
  assumes "j < length (cl_fwds c)" and "fw_phase (cl_fwds c ! j) = FwHeld"
  shows "fwd_moves (Build err w1 w2) j c (fw_build err w1 w2 j c)"
proof -
  let ?fw = "cl_fwds c ! j"
  have refuse: "fwd_moves (Build err w1 w2) j c (fw_finish j (sendError w1 w2 (fw_req ?fw) e j c1))"
    if "emits j [] c c1" "\<not> IsValidTarget (TrimSuffix (Client_Target c) ''/'') \<and> e = ''no target configured'' \<or> err = Some e"
    for e c1
  proof -
    have "length (cl_fwds c1) = length (cl_fwds c)" using that(1) by (simp add: emits_def)
    then obtain fs where fs: "fs \<in> set (subseqs (error_frames (fw_req ?fw) e))"
        "emits j fs c1 (sendError w1 w2 (fw_req ?fw) e j c1)"
      using sendError_emits assms(1) by metis
    from emits_trans [OF that(1) fs(2) assms(1)] show ?thesis
      by (intro moves_finish [where fs = fs]) (use assms fs that fw_trans.refuse in auto)
  qed
  have l: "emits j [] c (debugLog m2 (debugLog m1 c))" for m1 m2
    by (rule emits_same) (metis same_core_log(2) same_core_trans)
  show ?thesis
  proof (cases err)
    case None
    then show ?thesis
      using refuse [of "debugLog ''request failed'' c" "''no target configured''"] assms
      by (auto simp: fw_build_def Let_def intro!: moves_goto [where fs = "[]"] fw_trans.build)
  next
    case (Some e)
    then show ?thesis
      using refuse [of "debugLog ''request failed'' c" "''no target configured''"]
        refuse [OF l, of e "''request failed''" "''forwarding request''"] assms
      by (auto simp: fw_build_def Let_def)
  qed
qed

lemma fw_do_moves:
  assumes "j < length (cl_fwds c)" and "fw_phase (cl_fwds c ! j) = FwRequesting r"
  shows "fwd_moves (Do res w1 w2) j c (fw_do res w1 w2 j c)"
proof (cases res)
  case (Inl e)
  let ?c1 = "debugLog ''request failed'' c"
  have "length (cl_fwds ?c1) = length (cl_fwds c)"
    using same_core_sel(5) [OF same_core_log(2)] by simp
  then obtain fs where fs: "fs \<in> set (subseqs (error_frames (fw_req (cl_fwds c ! j)) e))"
      "emits j fs ?c1 (sendError w1 w2 (fw_req (cl_fwds c ! j)) e j ?c1)"
    using sendError_emits assms(1) by metis
  from emits_trans [OF emits_log fs(2) assms(1)] Inl fs(1) show ?thesis
    by (auto simp: fw_do_def intro!: moves_finish [where fs = fs] assms fw_trans.unreachable)
next
  case (Inr sh)
  obtain status hs where sh: "sh = (status, hs)" by (cases sh)
  obtain failed c1 where s: "fw_send w1 (response_start (fw_req (cl_fwds c ! j)) status hs) j c = (failed, c1)"
    by (cases "fw_send w1 (response_start (fw_req (cl_fwds c ! j)) status hs) j c")
  have e: "emits j (if failed then [] else [response_start (fw_req (cl_fwds c ! j)) status hs]) c c1"
    by (rule fw_send_emits [OF s])
  show ?thesis
  proof (cases failed)
    case True
    then show ?thesis
      using moves_finish [OF _ assms(1), of "[]" c1] fw_trans.answer_lost [OF assms(2)] Inr s e
      by (simp add: fw_do_def Let_def sh)
  next
    case False
    then show ?thesis
      using moves_goto [OF _ assms(1), of _ c1 "Do res w1 w2" "FwStreaming 0"]
        fw_trans.answer [OF assms(2)] Inr s e
      by (simp add: fw_do_def Let_def sh)
  qed
qed

lemma fw_read_moves:
  assumes "j < length (cl_fwds c)" and "fw_phase (cl_fwds c ! j) = FwStreaming s" and "length bs \<le> chunkSize"
  shows "fwd_moves (ReadResp bs rd w1 w2) j c (fw_read bs rd w1 w2 s j c)"
proof -
  let ?k = "fw_req (cl_fwds c ! j)"
  define sent where "sent = (if bs = [] then (False, c) else fw_send w1 (response_chunk ?k s bs) j c)"
  obtain failed c1 where f: "sent = (failed, c1)" by (cases sent)
  have e: "emits j (if failed then [] else chunk_of ?k s bs) c c1" and b: "failed \<Longrightarrow> bs \<noteq> []"
    using fw_send_emits [of w1 "response_chunk ?k s bs" j c] f
    by (auto simp: sent_def chunk_of_def emits_same split: if_splits)
  have r: "fw_read bs rd w1 w2 s j c =
      (if failed then fw_finish j c1
       else (case rd of
               More \<Rightarrow> fw_goto j (FwStreaming (if bs = [] then s else s + 1)) c1
             | EOF \<Rightarrow> debugLog ''request done'' (fw_finish j (snd (fw_send w2 (response_end ?k []) j c1)))
             | ReadErr e \<Rightarrow>
                 fw_finish j (snd (fw_send w2 (response_end ?k e) j (debugLog ''response aborted'' c1)))))"
    using f by (simp add: fw_read_def sent_def Let_def)
  have fin: "fwd_moves (ReadResp bs rd w1 w2) j c (fw_finish j (snd (fw_send w2 (response_end ?k x) j c2)))"
    if "\<not> failed" "same_core c1 c2" "rd = EOF \<and> x = [] \<or> rd = ReadErr x" for x c2
  proof -
    obtain fs where fs: "fs \<in> {[], [response_end ?k x]}"
        "emits j fs c2 (snd (fw_send w2 (response_end ?k x) j c2))"
      using fw_send_emits_snd by blast
    have "emits j (chunk_of ?k s bs) c c2"
      using emits_trans [OF e emits_same [OF that(2)] assms(1)] that(1) by simp
    from emits_trans [OF this fs(2) assms(1)] show ?thesis
      by (rule moves_finish [OF _ assms(1)])
        (use fw_trans.ended [OF assms(2,3) that(3) fs(1)] in simp_all)
  qed
  show ?thesis
  proof (cases failed)
    case True
    then show ?thesis
      using moves_finish [OF _ assms(1), of "[]" c1] fw_trans.chunk_lost [OF assms(2) b [OF True]] e r
      by simp
  next
    case False
    show ?thesis
    proof (cases rd)
      case More
      then show ?thesis
        using moves_goto [OF e assms(1), of "ReadResp bs rd w1 w2"] fw_trans.more [OF assms(2,3)] False r
        by simp
    next
      case EOF
      then show ?thesis
        using moves_same [OF fin [OF False same_core_refl, of "[]"] same_core_log(2)] False r by simp
    next
      case (ReadErr x)
      then show ?thesis
        using fin [OF False same_core_log(2), of x] False r by simp
    qed
  qed
qed

lemma forward_step_length: "forward_step ev j c = Some c' \<Longrightarrow> j < length (cl_fwds c)"
  by (cases ev) (auto split: if_splits)

text \<open>The simulation: every move of the program is one of \<open>fw_trans\<close>.\<close>

lemma forward_step_moves:
  assumes "forward_step ev j c = Some c'"
  shows "fwd_moves ev j c c'"
proof (cases ev)
  case Acquire
  with assms show ?thesis
    by (auto simp: fwd_moves_def fw_goto_def Let_def intro!: exI fw_trans.acquire split: if_splits)
next
  case (Build err w1 w2)
  with assms fw_build_moves show ?thesis by (auto split: if_splits)
next
  case (Do res w1 w2)
  with assms fw_do_moves show ?thesis by (auto split: if_splits fw_phase.splits)
next
  case (ReadResp bs rd w1 w2)
  with assms fw_read_moves show ?thesis by (auto split: if_splits fw_phase.splits)
qed

section \<open>The answer to a request\<close>

text \<open>The moves of one goroutine; in between, other goroutines act and the context may be cancelled.\<close>

inductive fw_run :: "forwarding \<Rightarrow> fw_event list \<Rightarrow> forwarding \<Rightarrow> bool" for fw0 where
  nil: "fw_run fw0 [] fw0"
| snoc: "fw_run fw0 evs (cl_fwds c ! j) \<Longrightarrow> forward_step ev j c = Some c' \<Longrightarrow>
     fw_run fw0 (evs @ [ev]) (cl_fwds c' ! j)"
| cancelled: "fw_run fw0 evs fw \<Longrightarrow> fw_run fw0 evs (fw\<lparr>fw_cancelled := True\<rparr>)"

fun answer_of :: "fw_event \<Rightarrow> (int \<times> headers) list" where
  "answer_of (Do (Inr sh) _ _) = [sh]"
| "answer_of _ = []"

fun bytes_of_read :: "fw_event \<Rightarrow> byte list" where
  "bytes_of_read (ReadResp bs _ _ _) = bs"
| "bytes_of_read _ = []"

definition answers :: "fw_event list \<Rightarrow> (int \<times> headers) list" where
  "answers evs = concat (map answer_of evs)"

definition bytes_got :: "fw_event list \<Rightarrow> byte list" where
  "bytes_got evs = concat (map bytes_of_read evs)"

lemma answers_snoc [simp]: "answers (evs @ [ev]) = answers evs @ answer_of ev"
  by (simp add: answers_def)

lemma bytes_got_snoc [simp]: "bytes_got (evs @ [ev]) = bytes_got evs @ bytes_of_read ev"
  by (simp add: bytes_got_def)

text \<open>Start and chunks as sent so far, for the bytes read so far.\<close>

definition streamed :: "reqid \<Rightarrow> int \<times> headers \<Rightarrow> byte list list \<Rightarrow> frame list" where
  "streamed k sh bss = response_start k (fst sh) (snd sh) # chunk_frames (response_chunk k) bss"

definition small :: "byte list list \<Rightarrow> bool" where
  "small bss \<longleftrightarrow> (\<forall>bs \<in> set bss. bs \<noteq> [] \<and> length bs \<le> chunkSize)"

definition ends_with :: "fw_event list \<Rightarrow> go_error \<Rightarrow> bool" where
  "ends_with evs e \<longleftrightarrow> (\<exists>bs rd w1 w2. evs \<noteq> [] \<and> last evs = ReadResp bs rd w1 w2 \<and> (rd = EOF \<and> e = [] \<or> rd = ReadErr e))"

definition fwd_ok :: "fw_event list \<Rightarrow> forwarding \<Rightarrow> bool" where
  "fwd_ok evs fw \<longleftrightarrow> (let k = fw_req fw in
     case fw_phase fw of
       FwStreaming s \<Rightarrow> \<exists>sh bss. answers evs = [sh] \<and> fw_out fw = streamed k sh bss \<and>
         s = int (length bss) \<and> concat bss = bytes_got evs \<and> small bss
     | FwDone \<Rightarrow>
         (answers evs = [] \<and> bytes_got evs = [] \<and> (\<exists>e. fw_out fw \<in> set (subseqs (error_frames k e)))) \<or>
         (\<exists>sh. answers evs = [sh] \<and>
            (fw_out fw = [] \<or>
             (\<exists>bss. small bss \<and> (fw_out fw = streamed k sh bss \<or>
                (\<exists>e. fw_out fw = streamed k sh bss @ [response_end k e] \<and>
                   concat bss = bytes_got evs \<and> ends_with evs e)))))
     | _ \<Rightarrow> answers evs = [] \<and> bytes_got evs = [] \<and> fw_out fw = [])"

interpretation down: chunking "response_chunk k" "''response_chunk''" k for k
  by unfold_locales (simp_all add: response_chunk_def zero_frame_def)

lemma streamed_chunk:
  "streamed k sh bss @ chunk_of k (int (length bss)) bs =
     streamed k sh (if bs = [] then bss else bss @ [bs])"
  by (simp add: streamed_def chunk_of_def down.chunk_frames_snoc)

lemma fwd_ok_trans:
  assumes "fwd_ok evs fw" and "fw_trans tgt ev fw fw'"
  shows "fwd_ok (evs @ [ev]) fw'"
  using assms(2)
proof cases
  case (refuse e err fs w1 w2)
  with assms(1) show ?thesis by (auto simp: fwd_ok_def)
next
  case (unreachable r fs e w1 w2)
  with assms(1) show ?thesis by (auto simp: fwd_ok_def)
next
  case (answer r st hs w1 w2)
  with assms(1) show ?thesis
    by (auto simp: fwd_ok_def streamed_def chunk_frames_def small_def intro!: exI [of _ "[]"])
next
  case (more s bs w1 w2)
  then obtain sh bss where b: "answers evs = [sh]" "fw_out fw = streamed (fw_req fw) sh bss"
      "s = int (length bss)" "concat bss = bytes_got evs" "small bss"
    using assms(1) by (auto simp: fwd_ok_def Let_def)
  with more show ?thesis
    using streamed_chunk [of "fw_req fw" sh bss bs]
    by (auto simp: fwd_ok_def Let_def small_def intro!: exI [of _ "if bs = [] then bss else bss @ [bs]"])
next
  case (ended s bs rd e fs w1 w2)
  then obtain sh bss where b: "answers evs = [sh]" "fw_out fw = streamed (fw_req fw) sh bss"
      "s = int (length bss)" "concat bss = bytes_got evs" "small bss"
    using assms(1) by (auto simp: fwd_ok_def Let_def)
  define bss' where "bss' = (if bs = [] then bss else bss @ [bs])"
  have "fw_out fw' = streamed (fw_req fw) sh bss' @ fs"
    using ended b streamed_chunk [of "fw_req fw" sh bss bs] by (simp add: bss'_def)
  moreover have "small bss'" "concat bss' = bytes_got (evs @ [ev])" "ends_with (evs @ [ev]) e"
    using ended b by (auto simp: bss'_def small_def ends_with_def)
  ultimately show ?thesis
    using ended b(1) by (auto simp: fwd_ok_def Let_def)
next
  case (chunk_lost s bs rd w1 w2)
  with assms(1) show ?thesis by (auto simp: fwd_ok_def Let_def)
qed (use assms(1) in \<open>auto simp: fwd_ok_def Let_def\<close>)

lemma moves_own:
  "fwd_moves ev j c c' \<Longrightarrow> j < length (cl_fwds c) \<Longrightarrow>
   fw_trans (Client_Target c) ev (cl_fwds c ! j) (cl_fwds c' ! j)"
  by (auto simp: fwd_moves_def)

lemma fw_run_ok:
  assumes "fw_run (new_forward k st body) evs fw"
  shows "fwd_ok evs fw \<and> fw_req fw = k"
  using assms
proof induction
  case nil
  then show ?case by (simp add: new_forward_def fwd_ok_def answers_def bytes_got_def)
next
  case (snoc evs c j ev c')
  have t: "fw_trans (Client_Target c) ev (cl_fwds c ! j) (cl_fwds c' ! j)"
    by (rule moves_own [OF forward_step_moves [OF snoc.hyps(2)] forward_step_length [OF snoc.hyps(2)]])
  moreover from t have "fw_req (cl_fwds c' ! j) = fw_req (cl_fwds c ! j)"
    by cases simp_all
  ultimately show ?case using snoc.IH fwd_ok_trans by auto
next
  case (cancelled evs fw)
  then show ?case by (cases "fw_phase fw") (auto simp: fwd_ok_def Let_def)
qed

lemma frames_of_answer:
  assumes "fw_run (new_forward k st body) evs fw" and "answers evs = [sh]"
    and "fw_out fw \<noteq> []" and "last (fw_out fw) = response_end k e"
  shows "ends_with evs e \<and> (\<exists>bss. small bss \<and> concat bss = bytes_got evs \<and>
    fw_out fw = response_start k (fst sh) (snd sh) #
      map2 (response_chunk k) (map int [0..<length bss]) bss @ [response_end k e])"
proof -
  have ok: "fwd_ok evs fw" and k: "fw_req fw = k" using fw_run_ok [OF assms(1)] by simp_all
  have n: "last (streamed k sh bss) \<noteq> response_end k e" for bss
  proof -
    have "f_Type (last (streamed k sh bss)) \<in> {''response_start'', ''response_chunk''}"
      using down.map_chunk_frames(3) [of "last (chunk_frames (response_chunk k) bss)" k bss]
      by (auto simp: streamed_def response_start_def)
    then show ?thesis by (auto simp: response_end_def)
  qed
  from ok assms(2-4) k n [of "[]"] n obtain bss e' where "small bss" "concat bss = bytes_got evs" "ends_with evs e'"
      "fw_out fw = streamed k sh bss @ [response_end k e']"
    by (auto simp: fwd_ok_def Let_def split: fw_phase.splits)
  moreover from this have "e' = e"
    using assms(4) by (simp add: response_end_def zero_frame_def)
  ultimately show ?thesis
    by (auto simp: streamed_def chunk_frames_def)
qed

text \<open>C11.  When the last frame a goroutine has sent is the end frame and the target did answer, it has
  sent the start frame with the target's status and headers, chunks numbered from 0 and at most
  \<open>chunkSize\<close> long whose payloads make up exactly the bytes read, and the end frame, which carries
  the error that broke the response or none if it was complete.\<close>

theorem target_response_relayed:
  assumes "fw_run (new_forward k st body) evs fw" and "answers evs = [sh]"
    and "fw_out fw \<noteq> []" and "last (fw_out fw) = response_end k e"
  shows "ends_with evs e \<and> (\<exists>bss. small bss \<and> concat bss = bytes_got evs \<and>
    fw_out fw = response_start k (fst sh) (snd sh) #
      map2 (response_chunk k) (map int [0..<length bss]) bss @ [response_end k e])"
  using assms by (rule frames_of_answer)

section \<open>The semaphore\<close>

definition holds :: "forwarding \<Rightarrow> bool" where
  "holds fw \<longleftrightarrow> fw_phase fw \<noteq> FwWaiting \<and> fw_phase fw \<noteq> FwDone"

definition slots_ok :: "client \<Rightarrow> bool" where
  "slots_ok c \<longleftrightarrow> cl_sem c = length (filter holds (cl_fwds c)) \<and> cl_sem c \<le> maxConcurrent \<and>
     wf_dict (cl_active c) \<and>
     (\<forall>k j. map_of (cl_active c) k = Some j \<longrightarrow>
        j < length (cl_fwds c) \<and> holds (cl_fwds c ! j) \<and> fw_req (cl_fwds c ! j) = k)"

lemma slots_ok_cong:
  "cl_sem c' = cl_sem c \<Longrightarrow> cl_fwds c' = cl_fwds c \<Longrightarrow> cl_active c' = cl_active c \<Longrightarrow>
   slots_ok c' = slots_ok c"
  by (simp add: slots_ok_def)

lemma slots_same_core: "same_core c c' \<Longrightarrow> slots_ok c' = slots_ok c"
  by (rule slots_ok_cong) (simp_all add: same_core_sel)

lemma slots_send [simp]: "slots_ok (snd (sendFrame werr f c)) = slots_ok c"
  by (rule slots_same_core) (metis same_core_send prod.collapse)

lemma fw_trans_holds:
  assumes "fw_trans tgt ev fw fw'"
  shows "fw_req fw' = fw_req fw \<and>
    (if ev = Acquire then \<not> holds fw \<and> holds fw'
     else holds fw \<and> (holds fw' \<longleftrightarrow> fw_phase fw' \<noteq> FwDone))"
  using assms by cases (simp_all add: holds_def)

lemma slots_step:
  assumes ok: "slots_ok c" and "forward_step ev j c = Some c'"
  shows "slots_ok c'"
proof -
  have j: "j < length (cl_fwds c)" by (rule forward_step_length [OF assms(2)])
  let ?k = "fw_req (cl_fwds c ! j)"
  obtain fw' where t: "fw_trans (Client_Target c) ev (cl_fwds c ! j) fw'"
      and f: "cl_fwds c' = (cl_fwds c)[j := fw']"
      and s: "if ev = Acquire then cl_sem c < maxConcurrent \<and> cl_sem c' = cl_sem c + 1 \<and>
           cl_active c' = AList.update ?k j (cl_active c)
         else if fw_phase fw' = FwDone then cl_sem c' = cl_sem c - 1 \<and>
           cl_active c' = AList.delete ?k (cl_active c)
         else cl_sem c' = cl_sem c \<and> cl_active c' = cl_active c"
    using forward_step_moves [OF assms(2)] by (auto simp: fwd_moves_def Let_def)
  note h = fw_trans_holds [OF t]
  note n = length_filter_update [OF j, of holds fw']
  have "cl_sem c' = length (filter holds (cl_fwds c')) \<and> cl_sem c' \<le> maxConcurrent"
    using ok s h n f by (auto simp: slots_ok_def split: if_splits)
  moreover have "wf_dict (cl_active c')"
    using ok s by (auto simp: slots_ok_def distinct_delete split: if_splits)
  moreover have "i < length (cl_fwds c') \<and> holds (cl_fwds c' ! i) \<and> fw_req (cl_fwds c' ! i) = k"
    if "map_of (cl_active c') k = Some i" for k i
  proof (cases "i = j")
    case True
    with that ok s h f j show ?thesis
      by (auto simp: slots_ok_def map_of_delete_cases map_of_update_cases split: if_splits)
  next
    case False
    with that ok s h f j show ?thesis
      by (auto simp: slots_ok_def map_of_delete_cases map_of_update_cases split: if_splits)
  qed
  ultimately show ?thesis by (simp add: slots_ok_def)
qed

lemma slots_dispatch: "slots_ok c \<Longrightarrow> slots_ok (dispatch k c)"
  by (cases "map_of (cl_pending c) k")
    (auto simp: slots_ok_def dispatch_def new_forward_def holds_def nth_append less_Suc_eq)

lemma slots_cancel: "slots_ok c \<Longrightarrow> slots_ok (handleCancel k c)"
proof (cases "map_of (cl_active c) k")
  case (Some j)
  assume ok: "slots_ok c"
  with Some have j: "j < length (cl_fwds c)" by (auto simp: slots_ok_def)
  let ?fw = "(cl_fwds c ! j)\<lparr>fw_cancelled := True\<rparr>"
  have "length (filter holds ((cl_fwds c)[j := ?fw])) = length (filter holds (cl_fwds c))"
    using length_filter_update [OF j, of holds ?fw] by (simp add: holds_def)
  with ok Some j show ?thesis
    by (auto simp: slots_ok_def handleCancel_def Let_def map_of_delete_cases distinct_delete
        nth_list_update holds_def split: if_splits)
qed (auto simp: slots_ok_def handleCancel_def map_of_delete_cases distinct_delete)

lemma slots_pending: "slots_ok (c\<lparr>cl_pending := p\<rparr>) = slots_ok c"
  by (rule slots_ok_cong) simp_all

lemma slots_handle_frame: "slots_ok c \<Longrightarrow> slots_ok (handle_frame werr f c)"
  by (auto simp: handle_frame_def handleRequestStart_def handleRequestChunk_def handleRequestEnd_def
      slots_dispatch slots_cancel slots_pending Let_def SetTarget_def
      intro: slots_ok_cong [THEN iffD2] split: option.splits)

lemma slots_handle_message: "slots_ok c \<Longrightarrow> slots_ok (handle_message werr data c)"
  by (simp add: handle_message_def slots_handle_frame split: option.split)

lemma New_slots: "slots_ok (New load dk pw cfg opts)"
  by (simp add: slots_ok_def New_def)

definition client_opts :: Options where
  "client_opts = \<lparr>o_ServerInsecure = False, o_TargetInsecure = False, o_ClientCert = [], o_ClientKey = [],
      o_Debug = False, o_OnStatusChange = True, o_OnLog = True\<rparr>"

definition client_cfg :: Config where
  "client_cfg = empty_config\<lparr>c_Server := ''wss://relay.example.com/ws/tunnel'', c_Target := ''http://10.0.0.5:80/''\<rparr>"

text \<open>A client that has got one request without a body.\<close>

definition demo_fetch :: frame where
  "demo_fetch = zero_frame\<lparr>f_Type := ''request_start'', f_ReqID := 3, f_Method := ''GET'', f_Path := ''/a'',
     f_Headers := [(''Accept'', [''text/html'']), (''Host'', [''app.local''])]\<rparr>"

definition demo_client :: client where
  "demo_client = (New (\<lambda>_ _. Inl '''') (\<lambda>_. None) (power_init Linux) client_cfg client_opts)
     \<lparr>cl_conn := Some 0, cl_conn_open := True, cl_fwds := [new_forward 3 demo_fetch []]\<rparr>"

lemma fw_run_of_run:
  "run_opt (\<lambda>ev. forward_step ev j) evs c = Some c' \<Longrightarrow> fw_run fw0 evs0 (cl_fwds c ! j) \<Longrightarrow>
   fw_run fw0 (evs0 @ evs) (cl_fwds c' ! j)"
proof (induction evs arbitrary: c evs0)
  case (Cons ev evs)
  then obtain c1 where "forward_step ev j c = Some c1" "run_opt (\<lambda>ev. forward_step ev j) evs c1 = Some c'"
    by (auto simp: bind_eq_Some_conv)
  with Cons.IH [of c1 "evs0 @ [ev]"] fw_run.snoc [OF Cons.prems(2)] show ?case by simp
qed simp

definition demo_evs :: "fw_event list" where
  "demo_evs = [Acquire, Build None None None, Do (Inr (200, [])) None None, ReadResp [1, 2] More None None,
     ReadResp [3] EOF None None]"

definition demo_answered :: forwarding where
  "demo_answered = (new_forward 3 demo_fetch [])\<lparr>fw_phase := FwDone, fw_cancelled := True,
     fw_out := [response_start 3 200 [], response_chunk 3 0 [1, 2], response_chunk 3 1 [3], response_end 3 []]\<rparr>"

lemma demo_target: "IsValidTarget (TrimSuffix ''http://10.0.0.5:80/'' ''/'')"
  by (simp add: IsValidTarget_def TrimSuffix_def HasSuffix_def HasPrefix_def)

lemmas fw_eval = fw_goto_def fw_update_def fw_build_def fw_do_def fw_read_def fw_send_def fw_finish_def
  sendFrame_def Client_Target_def debugLog_def log_line_def Let_def

lemma demo_run: "fw_run (new_forward 3 demo_fetch []) demo_evs demo_answered"
proof -
  have "\<exists>c'. run_opt (\<lambda>ev. forward_step ev 0) demo_evs demo_client = Some c' \<and> cl_fwds c' ! 0 = demo_answered"
    by (simp add: demo_evs_def demo_client_def demo_answered_def new_forward_def New_def maxConcurrent_def
        chunkSize_def client_cfg_def client_opts_def demo_target fw_eval)
  then obtain c' where "run_opt (\<lambda>ev. forward_step ev 0) demo_evs demo_client = Some c'"
      "cl_fwds c' ! 0 = demo_answered" by blast
  then show ?thesis
    using fw_run_of_run [of 0 demo_evs demo_client c' "new_forward 3 demo_fetch []" "[]"]
      fw_run.nil [of "new_forward 3 demo_fetch []"]
    by (simp add: demo_client_def)
qed

theorem target_response_relayed_witness:
  "ends_with demo_evs [] \<and> (\<exists>bss. small bss \<and> concat bss = bytes_got demo_evs \<and>
    fw_out demo_answered = response_start 3 200 [] #
      map2 (response_chunk 3) (map int [0..<length bss]) bss @ [response_end 3 []])"
  using target_response_relayed [OF demo_run, of "(200, [])" "[]"]
  by (simp add: demo_evs_def answers_def demo_answered_def)

definition demo_msg :: json where
  "demo_msg = JObj [(''type'', JStr ''request_start''), (''reqId'', JNum 3)]"

definition fresh_client :: client where
  "fresh_client = New (\<lambda>_ _. Inl '''') (\<lambda>_. None) (power_init Linux) client_cfg client_opts"

lemma demo_msg_frame:
  "Unmarshal (Some demo_msg) zero_frame = Some (zero_frame\<lparr>f_Type := ''request_start'', f_ReqID := 3\<rparr>)"
  by (simp add: demo_msg_def set_field_def zero_frame_def)

section \<open>The request the target sees\<close>

definition host_entry :: "string \<times> string list \<Rightarrow> bool" where
  "host_entry h \<longleftrightarrow> EqualFold (fst h) ''Host'' \<and> snd h \<noteq> []"

lemma add_request_headers_rest [simp]:
  "hr_Method (add_request_headers hs r) = hr_Method r" "hr_URL (add_request_headers hs r) = hr_URL r"
  "hr_Body (add_request_headers hs r) = hr_Body r"
  by (induction hs r rule: add_request_headers.induct) simp_all

lemma header_values_fold_add:
  "header_values c (fold (header_add k) vv h) =
     header_values c h @ (if CanonicalHeaderKey k = c then vv else [])"
  by (induction vv arbitrary: h) (simp_all add: header_values_add)

lemma header_values_Nil: "header_values c [] = []"
  by (simp add: header_values_def)

lemma add_request_headers_values:
  "header_values c (hr_Header (add_request_headers hs r)) = header_values c (hr_Header r) @
     concat (map snd (filter (\<lambda>h. \<not> host_entry h \<and> CanonicalHeaderKey (fst h) = c) hs))"
  by (induction hs r rule: add_request_headers.induct)
    (auto simp: header_values_fold_add host_entry_def)

lemma add_request_headers_host:
  "hr_Host (add_request_headers hs r) =
     (if filter host_entry hs = [] then hr_Host r else Some (hd (snd (last (filter host_entry hs)))))"
  by (induction hs r rule: add_request_headers.induct) (auto simp: host_entry_def)

lemma build_request_sel:
  "hr_Method (build_request t st body) = (if f_Method st = [] then ''GET'' else f_Method st)"
  "hr_URL (build_request t st body) = target_url t st" "hr_Body (build_request t st body) = body"
  "header_values c (hr_Header (build_request t st body)) =
     concat (map snd (filter (\<lambda>h. \<not> host_entry h \<and> CanonicalHeaderKey (fst h) = c) (f_Headers st)))"
  "hr_Host (build_request t st body) = (if filter host_entry (f_Headers st) = [] then None
     else Some (hd (snd (last (filter host_entry (f_Headers st))))))"
  by (simp_all add: build_request_def add_request_headers_values add_request_headers_host header_values_Nil)

text \<open>The path is put into the URL as it is, so a \<open>?\<close> in it (the caller wrote \<open>%3F\<close>) starts a query:
  two different requests of callers become one.\<close>

lemma target_url_confusion:
  assumes "q \<noteq> []"
  shows "target_url t (st\<lparr>f_Path := ''/'' @ p @ ''?'' @ q, f_Query := []\<rparr>) =
    target_url t (st\<lparr>f_Path := ''/'' @ p, f_Query := q\<rparr>)"
  using assms by (simp add: target_url_def Let_def)

section \<open>Cancellation\<close>

text \<open>A runner request is cancelled and stops being listed.\<close>

lemma cancel_running:
  "map_of (cl_active c) k = Some j \<Longrightarrow> j < length (cl_fwds c) \<Longrightarrow>
   fw_cancelled (cl_fwds (handleCancel k c) ! j) \<and> map_of (cl_active (handleCancel k c)) k = None"
  by (simp add: handleCancel_def Let_def map_of_delete_cases)

text \<open>A cancel that arrives while the request still waits for a slot finds no entry and is lost: the
  goroutines are as before.\<close>

lemma cancel_lost_while_waiting:
  "map_of (cl_active c) k = None \<Longrightarrow> cl_fwds (handleCancel k c) = cl_fwds c"
  by (simp add: handleCancel_def Let_def)

end
