(* ===== verification/ClientLoop.thy ===== *)
theory ClientLoop
  imports Forward
begin

text \<open>
  The connection loop of the client (\<open>internal/client/client.go\<close>): \<open>Run\<close> with \<open>connect\<close>,
  \<open>readLoop\<close>, \<open>close\<close> and \<open>sleepBackoff\<close>, and what acts on it from outside, \<open>Stop\<close>,
  \<open>Reconnect\<close>, the end of the context and the keepalive goroutine.

  \<open>Run\<close> is a program counter (\<open>place\<close>) and \<open>run_step\<close> moves it from one blocking point to the
  next, under an event that carries what the outside world answers there.  The other goroutines act
  between any two moves (\<open>env_step\<close>).  A read may give a message also after the connection has been
  closed at this end, for the messages that its buffer holds by then; a write fails from then on.
\<close>

section \<open>Closing\<close>

text \<open>Exactly once per connection: the flag decides.\<close>

definition close_conn :: "power_io \<Rightarrow> string \<Rightarrow> client \<Rightarrow> client" where
  "close_conn io reason c =
     (if cl_closed c then c
      else let c1 = c\<lparr>cl_closed := True\<rparr>;
               (err, pw) = AllowSleep io (cl_power c1);
               c2 = c1\<lparr>cl_power := pw\<rparr>;
               c3 = (if err \<noteq> None then log_line ''warn'' ''failed to allow system sleep'' c2 else c2);
               c4 = log_line ''info'' (''closing connection: '' @ reason) c3
           in if cl_conn c4 \<noteq> None then c4\<lparr>cl_conn_open := False\<rparr> else c4)"

definition Client_Stop :: "power_io \<Rightarrow> client \<Rightarrow> client" where
  "Client_Stop io c = close_conn io ''stopped'' (c\<lparr>cl_stop := True\<rparr>)"

definition Client_Reconnect :: "power_io \<Rightarrow> client \<Rightarrow> client" where
  "Client_Reconnect io c = close_conn io ''reconnect requested'' (c\<lparr>cl_recon := True\<rparr>)"

section \<open>Connecting\<close>

definition hello_frame :: "string \<Rightarrow> string \<Rightarrow> frame" where
  "hello_frame desired secret =
     zero_frame\<lparr>f_Type := ''hello'', f_Version := HelloVersion, f_DesiredId := desired, f_Secret := secret,
       f_ClientType := ''native-client'', f_ExtVersion := ''1.0.0''\<rparr>"

text \<open>The connection that has just been dialled supersedes the old one.\<close>

definition adopt_conn :: "client \<Rightarrow> client" where
  "adopt_conn c = c\<lparr>cl_closed := False, cl_conn := Some (cl_dials c), cl_conn_open := True,
     cl_dials := Suc (cl_dials c)\<rparr>"

definition drop_conn :: "client \<Rightarrow> client" where
  "drop_conn c = c\<lparr>cl_conn_open := False\<rparr>"

text \<open>What the answer to hello makes: an error, or the acknowledgement.\<close>

definition read_ack :: "go_error + json option \<Rightarrow> go_error + frame" where
  "read_ack res =
     (case res of
        Inl e \<Rightarrow> Inl e
      | Inr data \<Rightarrow>
          (case Unmarshal data zero_frame of
             None \<Rightarrow> Inl ''invalid frame''
           | Some ack \<Rightarrow>
               (if f_Type ack \<noteq> ''hello_ack'' \<or> \<not> f_Ok ack then Inl (''hello rejected: '' @ f_Error ack)
                else Inr ack)))"

definition store_ack :: "cfg_io \<Rightarrow> frame \<Rightarrow> client \<Rightarrow> client" where
  "store_ack io ack c =
     (let c1 = c\<lparr>cl_cfg := adopt_ack ack (cl_cfg c)\<rparr>;
          c2 = (if cl_configPath c1 \<noteq> [] then
                  (case SaveConfig io (cl_configPath c1) (cl_cfg c1) (cl_disk c1) of
                     (err, dk) \<Rightarrow>
                       (if err \<noteq> None then log_line ''warn'' ''failed to save config'' (c1\<lparr>cl_disk := dk\<rparr>)
                        else c1\<lparr>cl_disk := dk\<rparr>))
                else c1)
      in c2\<lparr>cl_tunID := f_TunnelID ack\<rparr>)"

definition engage :: "power_io \<Rightarrow> client \<Rightarrow> client" where
  "engage io c =
     (case PreventSleep io (cl_power c) of
        (err, pw) \<Rightarrow>
          log_line ''info'' ''tunnel online''
            (if err \<noteq> None then log_line ''warn'' ''failed to prevent system sleep'' (c\<lparr>cl_power := pw\<rparr>)
             else c\<lparr>cl_power := pw\<rparr>))"

section \<open>Backing off\<close>

definition next_backoff :: "int \<Rightarrow> int" where
  "next_backoff b = min (b * 2) maxBackoff"

text \<open>\<open>r\<close> is the random number drawn from \<open>0 \<le> r < jitter_range b\<close>.\<close>

definition jitter_range :: "int \<Rightarrow> int" where
  "jitter_range b = b div 5 * 2 + 1"

definition backoff_delay :: "int \<Rightarrow> int \<Rightarrow> int" where
  "backoff_delay b r = b - b div 5 + r"

section \<open>The loop\<close>

text \<open>Where \<open>Run\<close> stands; \<open>RunReturned None\<close> is a return of \<open>nil\<close>.\<close>

datatype place =
    Top
  | Dialing string string string
  | Greeting string string
  | AwaitAck
  | Engaging
  | Online
  | Leaving
  | Sleeping int
  | RunReturned "go_error option"

text \<open>\<open>rn_failures\<close> counts the back-offs since the client was last online.\<close>

record runner =
  rn_place :: place
  rn_client :: client
  rn_ctx :: "go_error option"
  rn_failures :: nat

definition run_init :: "client \<Rightarrow> runner" where
  "run_init c = \<lparr>rn_place = Top, rn_client = c, rn_ctx = None, rn_failures = 0\<rparr>"

datatype run_event =
    Loop power_io
  | Dialed "go_error option"
  | SaidHello "go_error option"
  | GotAck "go_error + json option" cfg_io
  | Engaged power_io
  | LoopCtx power_io
  | ReadMessage "go_error + json option" "go_error option" power_io
  | Check power_io int
  | Woke bool

definition connect_failed :: "runner \<Rightarrow> runner" where
  "connect_failed s =
     s\<lparr>rn_place := Leaving,
       rn_client := (if rn_ctx s = None \<and> \<not> cl_stop (rn_client s)
         then log_line ''warn'' ''connect failed'' (rn_client s) else rn_client s)\<rparr>"

text \<open>\<open>sleepBackoff\<close> up to its \<open>select\<close>.\<close>

definition sleepBackoff :: "int \<Rightarrow> runner \<Rightarrow> runner" where
  "sleepBackoff r s =
     (let c = rn_client s in
      if cl_recon c then s\<lparr>rn_place := Top, rn_client := c\<lparr>cl_recon := False\<rparr>\<rparr>
      else let b = next_backoff (cl_backoff c) in
        s\<lparr>rn_place := Sleeping (backoff_delay b r), rn_failures := Suc (rn_failures s),
          rn_client := log_line ''info'' ''reconnecting'' (c\<lparr>cl_backoff := b\<rparr>)\<rparr>)"

fun run_step :: "run_event \<Rightarrow> runner \<Rightarrow> runner option" where
  "run_step (Loop io) s =
     (if rn_place s \<noteq> Top then None
      else case rn_ctx s of
             Some e \<Rightarrow> Some (s\<lparr>rn_place := RunReturned (Some e),
               rn_client := close_conn io ''shutting down'' (rn_client s)\<rparr>)
           | None \<Rightarrow>
               (let c = setStatus StatusConnecting (rn_client s) in
                Some (s\<lparr>rn_client := c, rn_place :=
                  Dialing (Client_Server c) (Client_CustomID c) (c_Secret (cl_cfg c))\<rparr>)))"
| "run_step (Dialed err) s =
     (case rn_place s of
        Dialing server desired secret \<Rightarrow>
          (case err of
             Some e \<Rightarrow> Some (connect_failed s)
           | None \<Rightarrow> Some (s\<lparr>rn_place := Greeting desired secret, rn_client := adopt_conn (rn_client s)\<rparr>))
      | _ \<Rightarrow> None)"
| "run_step (SaidHello werr) s =
     (case rn_place s of
        Greeting desired secret \<Rightarrow>
          (case sendFrame werr (hello_frame desired secret) (rn_client s) of
             (Some e, c) \<Rightarrow> Some (connect_failed (s\<lparr>rn_client := drop_conn c\<rparr>))
           | (None, c) \<Rightarrow> Some (s\<lparr>rn_place := AwaitAck, rn_client := c\<rparr>))
      | _ \<Rightarrow> None)"
| "run_step (GotAck res cio) s =
     (if rn_place s \<noteq> AwaitAck then None
      else case read_ack res of
             Inl e \<Rightarrow> Some (connect_failed (s\<lparr>rn_client := drop_conn (rn_client s)\<rparr>))
           | Inr ack \<Rightarrow> Some (s\<lparr>rn_place := Engaging, rn_client := store_ack cio ack (rn_client s)\<rparr>))"
| "run_step (Engaged io) s =
     (if rn_place s \<noteq> Engaging then None
      else Some (s\<lparr>rn_place := Online, rn_failures := 0,
        rn_client := setStatus StatusOnline ((engage io (rn_client s))\<lparr>cl_backoff := initialBackoff\<rparr>)\<rparr>))"
| "run_step (LoopCtx io) s =
     (if rn_place s = Online \<and> rn_ctx s \<noteq> None then
        Some (s\<lparr>rn_place := Leaving, rn_client := close_conn io ''connection lost'' (rn_client s)\<rparr>)
      else None)"
| "run_step (ReadMessage res werr io) s =
     (if rn_place s \<noteq> Online then None
      else let c = rn_client s in
        case res of
          Inl e \<Rightarrow>
            (let c1 = (if rn_ctx s \<noteq> None \<or> cl_stop c \<or> cl_closed c then c
                       else debugLog ''read error'' c) in
             Some (s\<lparr>rn_place := Leaving, rn_client := close_conn io ''connection lost'' c1\<rparr>))
        | Inr data \<Rightarrow> Some (s\<lparr>rn_client := handle_message werr data c\<rparr>))"
| "run_step (Check io r) s =
     (if rn_place s \<noteq> Leaving then None
      else if rn_ctx s \<noteq> None \<or> cl_stop (rn_client s) then
        Some (s\<lparr>rn_place := RunReturned None, rn_client := close_conn io ''stopped'' (rn_client s)\<rparr>)
      else if 0 \<le> r \<and> r < jitter_range (next_backoff (cl_backoff (rn_client s))) then
        Some (sleepBackoff r (s\<lparr>rn_client := setStatus StatusBackoff (rn_client s)\<rparr>))
      else None)"
| "run_step (Woke timer) s =
     (case rn_place s of
        Sleeping d \<Rightarrow>
          (if timer then Some (s\<lparr>rn_place := Top\<rparr>)
           else case rn_ctx s of
                  Some e \<Rightarrow> Some (s\<lparr>rn_place := RunReturned (Some e)\<rparr>)
                | None \<Rightarrow> None)
      | _ \<Rightarrow> None)"

subsection \<open>The other goroutines\<close>

definition client_ping :: "int \<Rightarrow> frame" where
  "client_ping ts = zero_frame\<lparr>f_Type := ''ping'', f_TS := ts\<rparr>"

text \<open>The keepalive goroutine lives while \<open>readLoop\<close> runs; \<open>KeepaliveCtx\<close> is its answer to the end of
  the context, \<open>Ping\<close> its ticker.  \<open>Forwarding\<close> is a move of a \<open>forward\<close> goroutine.\<close>

datatype env_event =
    StopCalled power_io
  | ReconnectCalled power_io
  | CtxDone go_error
  | Ping int "go_error option" power_io
  | KeepaliveCtx power_io
  | Forwarding nat fw_event
  | Retarget string

fun env_step :: "env_event \<Rightarrow> runner \<Rightarrow> runner option" where
  "env_step (StopCalled io) s = Some (s\<lparr>rn_client := Client_Stop io (rn_client s)\<rparr>)"
| "env_step (ReconnectCalled io) s = Some (s\<lparr>rn_client := Client_Reconnect io (rn_client s)\<rparr>)"
| "env_step (CtxDone e) s = (if rn_ctx s = None then Some (s\<lparr>rn_ctx := Some e\<rparr>) else None)"
| "env_step (Ping ts werr io) s =
     (if rn_place s \<noteq> Online then None
      else case sendFrame werr (client_ping ts) (rn_client s) of
             (Some e, c) \<Rightarrow> Some (s\<lparr>rn_client := close_conn io ''ping failed'' c\<rparr>)
           | (None, c) \<Rightarrow> Some (s\<lparr>rn_client := c\<rparr>))"
| "env_step (KeepaliveCtx io) s =
     (if rn_place s = Online \<and> rn_ctx s \<noteq> None then
        Some (s\<lparr>rn_client := close_conn io ''shutting down'' (rn_client s)\<rparr>) else None)"
| "env_step (Forwarding j ev) s =
     map_option (\<lambda>c. s\<lparr>rn_client := c\<rparr>) (forward_step ev j (rn_client s))"
| "env_step (Retarget t) s = Some (s\<lparr>rn_client := SetTarget t (rn_client s)\<rparr>)"

datatype event = Main run_event | Env env_event

fun client_step :: "event \<Rightarrow> runner \<Rightarrow> runner option" where
  "client_step (Main ev) s = run_step ev s"
| "client_step (Env ev) s = env_step ev s"

section \<open>What the request side leaves alone\<close>

definition same_link :: "client \<Rightarrow> client \<Rightarrow> bool" where
  "same_link c c' \<longleftrightarrow>
     cl_conn c' = cl_conn c \<and> cl_conn_open c' = cl_conn_open c \<and> cl_dials c' = cl_dials c \<and>
     cl_stop c' = cl_stop c \<and> cl_recon c' = cl_recon c \<and> cl_closed c' = cl_closed c \<and>
     cl_backoff c' = cl_backoff c \<and> cl_power c' = cl_power c"

lemma same_link_refl [simp, intro]: "same_link c c"
  by (simp add: same_link_def)

lemma same_link_trans [trans]: "same_link a b \<Longrightarrow> same_link b c \<Longrightarrow> same_link a c"
  by (simp add: same_link_def)

lemma same_link_sel:
  assumes "same_link c c'"
  shows "cl_conn c' = cl_conn c" "cl_conn_open c' = cl_conn_open c" "cl_dials c' = cl_dials c"
    "cl_stop c' = cl_stop c" "cl_recon c' = cl_recon c" "cl_closed c' = cl_closed c"
    "cl_backoff c' = cl_backoff c" "cl_power c' = cl_power c"
  using assms by (simp_all add: same_link_def)

named_theorems link_intros "operations that leave the link alone"

lemma link_simple [link_intros]:
  "same_link c (log_line l m c)" "same_link c (debugLog m c)" "same_link c (setStatus st c)"
  "same_link c (fw_update j g c)" "same_link c (fw_finish j c)" "same_link c (fw_goto j ph c)"
  "same_link c (dispatch k c)" "same_link c (SetTarget t c)" "same_link c (handleCancel k c)"
  "same_link c (handleRequestChunk f c)"
  by (auto simp: same_link_def log_line_def debugLog_def setStatus_def Let_def fw_update_def
      fw_finish_def fw_goto_def dispatch_def SetTarget_def handleCancel_def handleRequestChunk_def
      split: option.split)

lemma link_send: "same_link c (snd (sendFrame werr f c))"
  by (cases rule: sendFrame_cases [of werr f c]) (auto simp: same_link_def)

lemma link_sendD: "sendFrame werr f c = (e, c') \<Longrightarrow> same_link c c'"
  using link_send [of c werr f] by simp

lemma link_fw_send: "same_link c (snd (fw_send werr f j c))"
  by (cases rule: sendFrame_cases [of werr f c]) (auto simp: fw_send_def same_link_def fw_update_def)

lemma link_sendError: "same_link c (sendError w1 w2 k e j c)"
  unfolding sendError_def by (rule same_link_trans [OF link_fw_send link_fw_send])

lemma link_handle_frame: "same_link c (handle_frame werr f c)"
proof -
  have "same_link c (handleRequestStart f c)"
    by (auto simp: handleRequestStart_def Let_def intro!: same_link_trans [OF _ link_simple(7)])
      (simp_all add: same_link_def)
  moreover have "same_link c (handleRequestEnd f c)"
    by (auto simp: handleRequestEnd_def link_simple split: option.split)
  ultimately show ?thesis
    by (auto simp: handle_frame_def link_simple link_send intro: same_link_trans [OF link_simple(8) link_send])
qed

lemma link_handle_message: "same_link c (handle_message werr data c)"
  by (auto simp: handle_message_def link_handle_frame split: option.split)

lemma link_fw_do: "same_link c (fw_do res w1 w2 j c)"
proof (cases res)
  case (Inl e)
  then show ?thesis
    by (auto simp: fw_do_def Let_def intro!: same_link_trans [OF _ link_simple(5)]
        same_link_trans [OF _ link_sendError] link_simple)
next
  case (Inr p)
  then show ?thesis
    using link_fw_send [of c w1 "response_start (fw_req (cl_fwds c ! j)) (fst p) (snd p)" j]
    by (auto simp: fw_do_def Let_def split: prod.splits intro: same_link_trans link_simple)
qed

lemma link_fw_build: "same_link c (fw_build err w1 w2 j c)"
  by (auto simp: fw_build_def Let_def split: option.split intro!: link_simple
      same_link_trans [OF _ link_simple(5)] same_link_trans [OF _ link_simple(6)]
      same_link_trans [OF _ link_sendError] same_link_trans [OF link_simple(2) link_simple(2)])

lemma link_fw_read: "same_link c (fw_read bs rd w1 w2 s j c)"
proof -
  define sent where "sent = (if bs = [] then (False, c)
    else fw_send w1 (response_chunk (fw_req (cl_fwds c ! j)) s bs) j c)"
  have l: "same_link c (snd sent)" by (simp add: sent_def link_fw_send)
  have end_frame: "same_link (snd sent) (fw_finish j (snd (fw_send w2 f j c2)))"
    if "same_link (snd sent) c2" for f c2
    by (rule same_link_trans [OF same_link_trans [OF that link_fw_send] link_simple(5)])
  show ?thesis
    using l same_link_trans [OF end_frame [OF same_link_refl] link_simple(2)] end_frame [OF link_simple(2)]
    by (auto simp: fw_read_def Let_def sent_def [symmetric] split: prod.splits read_end.splits
        intro: same_link_trans link_simple)
qed

lemma link_forward_step: "forward_step ev j c = Some c' \<Longrightarrow> same_link c c'"
proof (cases ev)
  case Acquire
  then show "forward_step ev j c = Some c' \<Longrightarrow> same_link c c'"
    by (auto simp: same_link_def fw_goto_def fw_update_def split: if_splits)
qed (auto simp: link_fw_build link_fw_do link_fw_read split: if_splits fw_phase.splits)

section \<open>Effects of the loop's own operations\<close>

lemma close_conn_sel [client_simps]:
  "cl_closed (close_conn io reason c)"
  "cl_stop (close_conn io reason c) = cl_stop c" "cl_recon (close_conn io reason c) = cl_recon c"
  "cl_backoff (close_conn io reason c) = cl_backoff c" "cl_conn (close_conn io reason c) = cl_conn c"
  "cl_dials (close_conn io reason c) = cl_dials c" "cl_cfg (close_conn io reason c) = cl_cfg c"
  "cl_fwds (close_conn io reason c) = cl_fwds c" "cl_wire (close_conn io reason c) = cl_wire c"
  "cl_power (close_conn io reason c) =
     (if cl_closed c then cl_power c else snd (AllowSleep io (cl_power c)))"
  "cl_conn_open (close_conn io reason c) \<longleftrightarrow> cl_conn_open c \<and> (cl_closed c \<or> cl_conn c = None)"
  by (auto simp: close_conn_def Let_def log_line_def split: prod.splits)

lemma Client_Stop_sel [client_simps]:
  "cl_stop (Client_Stop io c)" "cl_closed (Client_Stop io c)" "cl_recon (Client_Stop io c) = cl_recon c"
  "cl_backoff (Client_Stop io c) = cl_backoff c" "cl_conn (Client_Stop io c) = cl_conn c"
  "cl_power (Client_Stop io c) = (if cl_closed c then cl_power c else snd (AllowSleep io (cl_power c)))"
  "cl_conn_open (Client_Stop io c) \<longleftrightarrow> cl_conn_open c \<and> (cl_closed c \<or> cl_conn c = None)"
  by (simp_all add: Client_Stop_def close_conn_sel)

lemma Client_Reconnect_sel [client_simps]:
  "cl_recon (Client_Reconnect io c)" "cl_closed (Client_Reconnect io c)" "cl_stop (Client_Reconnect io c) = cl_stop c"
  "cl_backoff (Client_Reconnect io c) = cl_backoff c" "cl_conn (Client_Reconnect io c) = cl_conn c"
  "cl_power (Client_Reconnect io c) = (if cl_closed c then cl_power c else snd (AllowSleep io (cl_power c)))"
  "cl_conn_open (Client_Reconnect io c) \<longleftrightarrow> cl_conn_open c \<and> (cl_closed c \<or> cl_conn c = None)"
  by (simp_all add: Client_Reconnect_def close_conn_sel)

lemma setStatus_sel [client_simps]:
  "cl_stop (setStatus st c) = cl_stop c" "cl_recon (setStatus st c) = cl_recon c"
  "cl_closed (setStatus st c) = cl_closed c" "cl_backoff (setStatus st c) = cl_backoff c"
  "cl_power (setStatus st c) = cl_power c" "cl_conn (setStatus st c) = cl_conn c"
  "cl_conn_open (setStatus st c) = cl_conn_open c" "cl_cfg (setStatus st c) = cl_cfg c"
  "cl_dials (setStatus st c) = cl_dials c"
  "cl_fwds (setStatus st c) = cl_fwds c" "cl_wire (setStatus st c) = cl_wire c"
  by (simp_all add: setStatus_def Let_def)

lemma log_line_sel [client_simps]:
  "cl_stop (log_line l m c) = cl_stop c" "cl_recon (log_line l m c) = cl_recon c"
  "cl_closed (log_line l m c) = cl_closed c" "cl_backoff (log_line l m c) = cl_backoff c"
  "cl_power (log_line l m c) = cl_power c" "cl_conn (log_line l m c) = cl_conn c"
  "cl_conn_open (log_line l m c) = cl_conn_open c" "cl_cfg (log_line l m c) = cl_cfg c"
  "cl_dials (log_line l m c) = cl_dials c" "cl_disk (log_line l m c) = cl_disk c"
  "cl_fwds (log_line l m c) = cl_fwds c" "cl_tunID (log_line l m c) = cl_tunID c"
  "cl_configPath (log_line l m c) = cl_configPath c"
  by (simp_all add: log_line_def)

lemma debugLog_sel [client_simps]:
  "cl_stop (debugLog m c) = cl_stop c" "cl_recon (debugLog m c) = cl_recon c"
  "cl_closed (debugLog m c) = cl_closed c" "cl_backoff (debugLog m c) = cl_backoff c"
  "cl_power (debugLog m c) = cl_power c" "cl_conn (debugLog m c) = cl_conn c"
  "cl_conn_open (debugLog m c) = cl_conn_open c" "cl_fwds (debugLog m c) = cl_fwds c"
  by (simp_all add: debugLog_def log_line_sel)

lemma link_store_ack [link_intros]: "same_link c (store_ack io ack c)"
  by (auto simp: store_ack_def Let_def same_link_def log_line_def split: prod.splits)

lemma engage_sel [client_simps]:
  "cl_stop (engage io c) = cl_stop c" "cl_recon (engage io c) = cl_recon c"
  "cl_closed (engage io c) = cl_closed c" "cl_conn (engage io c) = cl_conn c"
  "cl_conn_open (engage io c) = cl_conn_open c" "cl_dials (engage io c) = cl_dials c"
  "cl_cfg (engage io c) = cl_cfg c" "cl_fwds (engage io c) = cl_fwds c" "cl_wire (engage io c) = cl_wire c"
  "cl_power (engage io c) = snd (PreventSleep io (cl_power c))"
  by (auto simp: engage_def log_line_def split: prod.splits)

lemma adopt_conn_sel [client_simps]:
  "cl_stop (adopt_conn c) = cl_stop c" "cl_recon (adopt_conn c) = cl_recon c" "\<not> cl_closed (adopt_conn c)"
  "cl_conn (adopt_conn c) = Some (cl_dials c)" "cl_conn_open (adopt_conn c)"
  "cl_backoff (adopt_conn c) = cl_backoff c" "cl_power (adopt_conn c) = cl_power c"
  by (simp_all add: adopt_conn_def)

lemma drop_conn_sel [client_simps]:
  "cl_stop (drop_conn c) = cl_stop c" "cl_recon (drop_conn c) = cl_recon c"
  "cl_closed (drop_conn c) = cl_closed c" "cl_backoff (drop_conn c) = cl_backoff c"
  "cl_power (drop_conn c) = cl_power c" "cl_conn (drop_conn c) = cl_conn c" "\<not> cl_conn_open (drop_conn c)"
  by (simp_all add: drop_conn_def)

lemma connect_failed_sel [client_simps]:
  "rn_place (connect_failed s) = Leaving" "rn_ctx (connect_failed s) = rn_ctx s"
  "rn_failures (connect_failed s) = rn_failures s"
  "cl_stop (rn_client (connect_failed s)) = cl_stop (rn_client s)"
  "cl_closed (rn_client (connect_failed s)) = cl_closed (rn_client s)"
  "cl_recon (rn_client (connect_failed s)) = cl_recon (rn_client s)"
  "cl_backoff (rn_client (connect_failed s)) = cl_backoff (rn_client s)"
  "cl_power (rn_client (connect_failed s)) = cl_power (rn_client s)"
  "cl_conn (rn_client (connect_failed s)) = cl_conn (rn_client s)"
  "cl_conn_open (rn_client (connect_failed s)) = cl_conn_open (rn_client s)"
  by (simp_all add: connect_failed_def client_simps)

lemmas link_kept = link_store_ack [THEN same_link_sel(1)] link_store_ack [THEN same_link_sel(2)]
  link_store_ack [THEN same_link_sel(4)] link_store_ack [THEN same_link_sel(6)]
  link_store_ack [THEN same_link_sel(7)] link_store_ack [THEN same_link_sel(8)]
  link_handle_message [THEN same_link_sel(1)] link_handle_message [THEN same_link_sel(2)]
  link_handle_message [THEN same_link_sel(4)] link_handle_message [THEN same_link_sel(6)]
  link_handle_message [THEN same_link_sel(7)] link_handle_message [THEN same_link_sel(8)]
  link_simple(8) [THEN same_link_sel(1)] link_simple(8) [THEN same_link_sel(2)]
  link_simple(8) [THEN same_link_sel(4)] link_simple(8) [THEN same_link_sel(6)]
  link_simple(8) [THEN same_link_sel(7)] link_simple(8) [THEN same_link_sel(8)]

section \<open>Back-off\<close>

definition backoff_after :: "nat \<Rightarrow> int" where
  "backoff_after n = min (2 ^ n * second) maxBackoff"

lemma backoff_after_Suc: "next_backoff (backoff_after n) = backoff_after (Suc n)"
  by (simp add: next_backoff_def backoff_after_def maxBackoff_def second_def min_def)

lemma backoff_after_0: "backoff_after 0 = initialBackoff"
  by (simp add: backoff_after_def initialBackoff_def maxBackoff_def second_def)

lemma backoff_after_fifth: "5 dvd backoff_after n" "0 < backoff_after n"
  by (simp_all add: backoff_after_def second_def maxBackoff_def min_def)

definition delay_within :: "int \<Rightarrow> int \<Rightarrow> bool" where
  "delay_within b d \<longleftrightarrow> 4 * b \<le> 5 * d \<and> 5 * d \<le> 6 * b"

lemma delay_jitter:
  assumes "0 \<le> r" "r < jitter_range (backoff_after n)"
  shows "delay_within (backoff_after n) (backoff_delay (backoff_after n) r)"
proof -
  obtain q where "backoff_after n = 5 * q" using backoff_after_fifth(1) by (auto elim: dvdE)
  with assms show ?thesis by (simp add: delay_within_def backoff_delay_def jitter_range_def)
qed

definition pace_ok :: "runner \<Rightarrow> bool" where
  "pace_ok s \<longleftrightarrow> cl_backoff (rn_client s) = backoff_after (rn_failures s) \<and>
     (\<forall>d. rn_place s = Sleeping d \<longrightarrow> 0 < rn_failures s \<and> delay_within (backoff_after (rn_failures s)) d)"

lemma pace_link:
  "pace_ok s \<Longrightarrow> same_link (rn_client s) c \<Longrightarrow> pace_ok (s\<lparr>rn_client := c\<rparr>)"
  by (simp add: pace_ok_def same_link_def)

lemma pace_run:
  assumes "pace_ok s" "run_step ev s = Some s'"
  shows "pace_ok s'"
proof (cases ev)
  case (Check io r)
  with assms show ?thesis
    by (auto simp: pace_ok_def client_simps sleepBackoff_def Let_def backoff_after_Suc delay_jitter
        split: if_splits)
next
  case (SaidHello werr)
  with assms show ?thesis
    by (auto simp: pace_ok_def client_simps same_link_def split: place.splits prod.splits option.splits
        dest!: link_sendD)
qed (use assms in \<open>auto simp: pace_ok_def client_simps Let_def backoff_after_0 link_kept
    split: if_splits option.splits place.splits sum.splits\<close>)

lemma pace_env:
  assumes "pace_ok s" "env_step ev s = Some s'"
  shows "pace_ok s'"
proof (cases ev)
  case (Ping ts werr io)
  with assms show ?thesis
    by (auto simp: pace_ok_def client_simps same_link_def split: if_splits prod.splits option.splits
        dest!: link_sendD)
next
  case (Forwarding j fev)
  with assms show ?thesis by (auto dest!: link_forward_step intro: pace_link)
qed (use assms in \<open>auto simp: pace_ok_def client_simps link_kept split: if_splits\<close>)

interpretation pace: stable client_step pace_ok
  by unfold_locales (auto elim!: client_step.elims intro: pace_run pace_env)

lemma pace_init: "pace_ok (run_init (New load dk pw cfg opts))"
  by (simp add: pace_ok_def run_init_def New_def backoff_after_0)

text \<open>C23.  However connections fail, the wait before the next attempt is within 20 percent of 2 seconds
  doubled for every failure since the client was last online and capped at 60 seconds: never less
  than 1.6 and never more than 72 seconds.\<close>

theorem backoff_bounds:
  assumes "run_opt client_step evs (run_init (New load dk pw cfg opts)) = Some s"
    and "rn_place s = Sleeping d"
  shows "0 < rn_failures s \<and> delay_within (min (2 ^ rn_failures s * second) maxBackoff) d \<and>
    1600000000 \<le> d \<and> d \<le> 72000000000"
proof -
  have "pace_ok s" by (rule pace.run_keeps [OF pace_init assms(1)])
  then have f: "0 < rn_failures s" and d: "delay_within (backoff_after (rn_failures s)) d"
    using assms(2) by (auto simp: pace_ok_def)
  from f obtain n where "rn_failures s = Suc n" by (cases "rn_failures s") auto
  then have "2 * second \<le> backoff_after (rn_failures s)" "backoff_after (rn_failures s) \<le> 60 * second"
    by (auto simp: backoff_after_def second_def maxBackoff_def min_def)
  with f d show ?thesis by (simp add: backoff_after_def [symmetric]) (simp add: delay_within_def second_def)
qed

section \<open>Why \<open>Run\<close> returns\<close>

definition return_ok :: "runner \<Rightarrow> bool" where
  "return_ok s \<longleftrightarrow> (\<forall>r. rn_place s = RunReturned r \<longrightarrow>
     (case r of None \<Rightarrow> rn_ctx s \<noteq> None \<or> cl_stop (rn_client s) | Some e \<Rightarrow> rn_ctx s = Some e))"

lemma return_run: "return_ok s \<Longrightarrow> run_step ev s = Some s' \<Longrightarrow> return_ok s'"
  by (cases ev) (auto simp: return_ok_def client_simps Let_def sleepBackoff_def
      split: if_splits option.splits place.splits sum.splits prod.splits)

lemma env_keeps:
  assumes "env_step ev s = Some s'"
  shows "rn_place s' = rn_place s \<and> (rn_ctx s \<noteq> None \<longrightarrow> rn_ctx s' = rn_ctx s) \<and>
    (cl_stop (rn_client s) \<longrightarrow> cl_stop (rn_client s'))"
proof (cases ev)
  case (Ping ts werr io)
  with assms show ?thesis
    by (auto simp: client_simps same_link_def split: if_splits prod.splits option.splits dest!: link_sendD)
next
  case (Forwarding j fev)
  with assms show ?thesis by (auto simp: same_link_def dest!: link_forward_step)
qed (use assms in \<open>auto simp: client_simps link_kept split: if_splits\<close>)

lemma return_env: "return_ok s \<Longrightarrow> env_step ev s = Some s' \<Longrightarrow> return_ok s'"
  using env_keeps [of ev s s'] by (auto simp: return_ok_def split: option.split)

interpretation return: stable client_step return_ok
  by unfold_locales (auto elim!: client_step.elims intro: return_run return_env)

text \<open>C21.  \<open>Run\<close> gives up only when its context has ended or \<open>Stop\<close> was called: failed connections never
  end it.  The error it returns is that of the context.\<close>

theorem run_returns_only_on_request:
  assumes "run_opt client_step evs (run_init c) = Some s" and "rn_place s = RunReturned r"
  shows "(r = None \<and> (rn_ctx s \<noteq> None \<or> cl_stop (rn_client s))) \<or> (r \<noteq> None \<and> r = rn_ctx s)"
proof -
  have "return_ok (run_init c)" by (simp add: return_ok_def run_init_def)
  from return.run_keeps [OF this assms(1)] assms(2) show ?thesis
    by (auto simp: return_ok_def split: option.splits)
qed

definition has_conn :: "place \<Rightarrow> bool" where
  "has_conn p = (case p of Greeting d k \<Rightarrow> True | AwaitAck \<Rightarrow> True | Engaging \<Rightarrow> True | Online \<Rightarrow> True
     | _ \<Rightarrow> False)"

lemma has_conn_simps [simp]:
  "has_conn (Greeting d k)" "has_conn AwaitAck" "has_conn Engaging" "has_conn Online" "\<not> has_conn Leaving"
  "\<not> has_conn Top" "\<not> has_conn (Dialing a d k)" "\<not> has_conn (Sleeping n)" "\<not> has_conn (RunReturned r)"
  by (simp_all add: has_conn_def)

definition link_ok :: "runner \<Rightarrow> bool" where
  "link_ok s \<longleftrightarrow>
     (cl_closed (rn_client s) \<and> cl_conn (rn_client s) \<noteq> None \<longrightarrow> \<not> cl_conn_open (rn_client s)) \<and>
     (has_conn (rn_place s) \<longrightarrow> cl_conn (rn_client s) \<noteq> None)"

lemma link_ok_link:
  "link_ok s \<Longrightarrow> same_link (rn_client s) c \<Longrightarrow> link_ok (s\<lparr>rn_client := c\<rparr>)"
  by (simp add: link_ok_def same_link_def)

lemma link_ok_run: "link_ok s \<Longrightarrow> run_step ev s = Some s' \<Longrightarrow> link_ok s'"
proof (cases ev)
  case (SaidHello werr)
  then show "link_ok s \<Longrightarrow> run_step ev s = Some s' \<Longrightarrow> link_ok s'"
    by (auto simp: link_ok_def client_simps same_link_def split: place.splits prod.splits option.splits
        dest!: link_sendD)
qed (auto simp: link_ok_def client_simps Let_def sleepBackoff_def link_kept
      split: if_splits option.splits place.splits sum.splits)

lemma link_ok_env: "link_ok s \<Longrightarrow> env_step ev s = Some s' \<Longrightarrow> link_ok s'"
proof (cases ev)
  case (Ping ts werr io)
  then show "link_ok s \<Longrightarrow> env_step ev s = Some s' \<Longrightarrow> link_ok s'"
    by (auto simp: link_ok_def client_simps same_link_def split: if_splits prod.splits option.splits
        dest!: link_sendD)
next
  case (Forwarding j fev)
  then show "link_ok s \<Longrightarrow> env_step ev s = Some s' \<Longrightarrow> link_ok s'"
    by (auto dest!: link_forward_step intro: link_ok_link)
qed (auto simp: link_ok_def client_simps link_kept split: if_splits)

interpretation link: stable client_step link_ok
  by unfold_locales (auto elim!: client_step.elims intro: link_ok_run link_ok_env)

lemma link_init: "link_ok (run_init (New load dk pw cfg opts))"
  by (simp add: link_ok_def run_init_def New_def)

subsection \<open>After a stop\<close>

text \<open>On a connection that is closed at this end nothing is written.\<close>

lemma sendFrame_mute: "\<not> cl_conn_open c \<Longrightarrow> \<exists>e. sendFrame werr f c = (Some e, c)"
  by (simp add: sendFrame_def split: option.split)

lemma sendFrame_mute_snd [simp]: "\<not> cl_conn_open c \<Longrightarrow> snd (sendFrame werr f c) = c"
  using sendFrame_mute [of c werr f] by auto

lemma fw_send_mute: "\<not> cl_conn_open c \<Longrightarrow> fw_send werr f j c = (True, c)"
  using sendFrame_mute [of c werr f] by (auto simp: fw_send_def)

lemma fw_wire [simp]: "cl_wire (fw_goto j ph c) = cl_wire c" "cl_wire (fw_finish j c) = cl_wire c"
  by (simp_all add: fw_goto_def fw_finish_def Let_def)

lemma forward_step_mute:
  "forward_step ev j c = Some c' \<Longrightarrow> \<not> cl_conn_open c \<Longrightarrow> cl_wire c' = cl_wire c"
  by (cases ev) (auto simp: fw_build_def fw_do_def fw_read_def sendError_def fw_send_mute Let_def debugLog_def log_line_def
      split: if_splits fw_phase.splits option.splits sum.splits prod.splits read_end.splits)

lemma handle_message_mute: "\<not> cl_conn_open c \<Longrightarrow> cl_wire (handle_message werr data c) = cl_wire c"
  by (auto simp: handle_message_def handle_frame_def handleRequestStart_def handleRequestChunk_def
      handleRequestEnd_def handleCancel_def dispatch_def SetTarget_def Let_def split: option.split)

text \<open>The moves of \<open>Run\<close> but for the reading of a message.\<close>

fun moves_on :: "event \<Rightarrow> bool" where
  "moves_on (Main (ReadMessage (Inr data) werr io)) = False"
| "moves_on (Main ev) = True"
| "moves_on (Env ev) = False"

definition stage :: "nat \<Rightarrow> place" where
  "stage n = (if n = 0 then Online else if n = 1 then Leaving else RunReturned None)"

definition stopped_ok :: "(nat \<times> frame) list \<Rightarrow> event list \<Rightarrow> runner \<Rightarrow> bool" where
  "stopped_ok wire evs s \<longleftrightarrow> (let n = length (filter moves_on evs); c = rn_client s in
     n \<le> 2 \<and> rn_place s = stage n \<and> cl_stop c \<and> \<not> cl_conn_open c \<and> cl_conn c \<noteq> None \<and> cl_wire c = wire)"

lemma stage_simps [simp]:
  "stage 0 = Online" "stage (Suc 0) = Leaving" "stage (Suc (Suc n)) = RunReturned None"
  by (simp_all add: stage_def)

lemma stopped_run:
  assumes "stopped_ok wire evs s" and "run_step ev s = Some s'"
  shows "stopped_ok wire (evs @ [Main ev]) s'"
proof -
  let ?n = "length (filter moves_on evs)"
  consider "?n = 0" "rn_place s = Online" | "?n = 1" "rn_place s = Leaving" | "?n = 2" "rn_place s = RunReturned None"
    using assms(1) by (fastforce simp: stopped_ok_def Let_def stage_def le_Suc_eq numeral_2_eq_2 split: if_splits)
  then show ?thesis
  proof cases
    case 1
    with assms show ?thesis
      by (cases ev) (auto simp: stopped_ok_def Let_def client_simps link_kept handle_message_mute debugLog_def
          log_line_def split: sum.splits if_splits)
  next
    case 2
    with assms show ?thesis
      by (cases ev) (auto simp: stopped_ok_def Let_def client_simps numeral_2_eq_2 split: if_splits)
  next
    case 3
    with assms show ?thesis by (cases ev) (auto split: if_splits)
  qed
qed

lemma Client_Stop_wire [client_simps]:
  "cl_wire (Client_Stop io c) = cl_wire c" "cl_wire (Client_Reconnect io c) = cl_wire c"
  "cl_wire (SetTarget t c) = cl_wire c"
  by (simp_all add: Client_Stop_def Client_Reconnect_def close_conn_sel SetTarget_def)

lemma stopped_env:
  assumes "stopped_ok wire evs s" and "env_step ev s = Some s'"
  shows "stopped_ok wire (evs @ [Env ev]) s'"
proof (cases ev)
  case (Ping ts werr io)
  have "\<not> cl_conn_open (rn_client s)" using assms(1) by (simp add: stopped_ok_def Let_def)
  then obtain e where "sendFrame werr (client_ping ts) (rn_client s) = (Some e, rn_client s)"
    using sendFrame_mute by blast
  with Ping assms show ?thesis by (auto simp: stopped_ok_def Let_def client_simps split: if_splits)
next
  case (Forwarding j fev)
  then obtain c where c: "forward_step fev j (rn_client s) = Some c" "s' = s\<lparr>rn_client := c\<rparr>" using assms(2) by auto
  with assms(1) link_forward_step [OF c(1)] forward_step_mute [OF c(1)] show ?thesis
    by (simp add: stopped_ok_def Let_def same_link_def Forwarding)
qed (use assms in \<open>auto simp: stopped_ok_def Let_def client_simps link_kept split: if_splits\<close>)

interpretation stopped: traced client_step "stopped_ok wire" for wire
  by unfold_locales (auto elim!: client_step.elims intro: stopped_run stopped_env)

text \<open>C22.  A \<open>Stop\<close> while the client is online ends \<open>Run\<close>.  The connection is closed, so nothing more is
  written to it, although messages that its buffer still holds may be read and other goroutines go
  on.  Apart from such messages \<open>Run\<close> makes exactly two more moves: the first, a failing read for
  one, leaves the read loop, and the second, which is always possible, returns \<open>nil\<close>.\<close>

theorem stop_returns:
  assumes "run_opt client_step evs (run_init (New load dk pw cfg opts)) = Some s"
    and "rn_place s = Online" and "env_step (StopCalled io) s = Some s1"
    and "run_opt client_step later s1 = Some s2"
  defines "n \<equiv> length (filter moves_on later)"
  shows "n \<le> 2 \<and> rn_place s2 = (if n = 0 then Online else if n = 1 then Leaving else RunReturned None) \<and>
    cl_wire (rn_client s2) = cl_wire (rn_client s) \<and>
    (n = 0 \<longrightarrow> run_step (ReadMessage (Inl e) None io') s2 \<noteq> None) \<and>
    (n = 1 \<longrightarrow> run_step (Check io' r) s2 \<noteq> None)"
proof -
  have "link_ok s" by (rule link.run_keeps [OF link_init assms(1)])
  with assms(2,3) have "stopped_ok (cl_wire (rn_client s)) [] s1"
    by (auto simp: link_ok_def stopped_ok_def Let_def client_simps)
  from stopped.run_traced [OF this assms(4)] show ?thesis
    by (auto simp: stopped_ok_def Let_def stage_def n_def split: if_splits)
qed

text \<open>While the client is still dialling, a \<open>Stop\<close> is forgotten: the dial re-arms the flag that
  \<open>close\<close> tests, and the read loop does not look at \<open>stop\<close> before a read fails.\<close>

lemma stop_while_dialling_is_lost:
  assumes "rn_place s = Dialing server desired secret"
    and "run_opt client_step [Env (StopCalled io), Main (Dialed None)] s = Some s'"
  shows "cl_stop (rn_client s') \<and> cl_conn_open (rn_client s') \<and> \<not> cl_closed (rn_client s') \<and>
    rn_place s' = Greeting desired secret"
  using assms by (auto simp: client_simps)

lemma stopped_client_serves:
  assumes "rn_place s = Online" and "cl_conn_open (rn_client s)"
  shows "\<exists>s'. run_step (ReadMessage (Inr data) werr io) s = Some s' \<and> rn_place s' = Online \<and>
    rn_client s' = handle_message werr data (rn_client s)"
  using assms by auto

text \<open>A context that ends while the client is online makes \<open>Run\<close> return \<open>nil\<close>, not the context's error.\<close>

lemma cancel_while_online_returns_nil:
  assumes "rn_place s = Online" and "rn_ctx s \<noteq> None"
    and "run_opt client_step [Main (LoopCtx io), Main (Check io' r)] s = Some s'"
  shows "rn_place s' = RunReturned None"
  using assms by (auto simp: bind_eq_Some_conv)

section \<open>Sleep\<close>

text \<open>Between the dial and \<open>PreventSleep\<close> the client believes itself open; a \<open>Stop\<close> or \<open>Reconnect\<close> that
  falls in there uses up the once-only flag before sleep is prevented.\<close>

definition shaking_hands :: "place \<Rightarrow> bool" where
  "shaking_hands p = (case p of Greeting d k \<Rightarrow> True | AwaitAck \<Rightarrow> True | Engaging \<Rightarrow> True | _ \<Rightarrow> False)"

lemma shaking_hands_simps [simp]:
  "shaking_hands (Greeting d k)" "shaking_hands AwaitAck" "shaking_hands Engaging"
  "\<not> shaking_hands Online" "\<not> shaking_hands Leaving" "\<not> shaking_hands Top"
  "\<not> shaking_hands (Dialing a d k)" "\<not> shaking_hands (Sleeping n)" "\<not> shaking_hands (RunReturned r)"
  by (simp_all add: shaking_hands_def)

fun interferes :: "event \<Rightarrow> bool" where
  "interferes (Env (StopCalled io)) = True"
| "interferes (Env (ReconnectCalled io)) = True"
| "interferes _ = False"

text \<open>The outcomes of the calls to the operating system that an event carries.  On Windows they matter:
  \<open>served t p\<close> asks that every call succeeds, and on the thread \<open>t\<close>.\<close>

fun event_io :: "event \<Rightarrow> power_io list" where
  "event_io (Main (Loop io)) = [io]"
| "event_io (Main (Engaged io)) = [io]"
| "event_io (Main (LoopCtx io)) = [io]"
| "event_io (Main (ReadMessage res werr io)) = [io]"
| "event_io (Main (Check io r)) = [io]"
| "event_io (Env (StopCalled io)) = [io]"
| "event_io (Env (ReconnectCalled io)) = [io]"
| "event_io (Env (Ping ts werr io)) = [io]"
| "event_io (Env (KeepaliveCtx io)) = [io]"
| "event_io _ = []"

definition served :: "nat \<Rightarrow> platform \<Rightarrow> event \<Rightarrow> bool" where
  "served t p ev \<longleftrightarrow> p = Windows \<longrightarrow> list_all (\<lambda>io. pi_call io \<and> pi_thread io = t) (event_io ev)"

definition calm_step :: "nat \<Rightarrow> platform \<Rightarrow> event \<Rightarrow> runner \<Rightarrow> runner option" where
  "calm_step t p ev s = (if interferes ev \<and> shaking_hands (rn_place s) \<or> \<not> served t p ev then None else client_step ev s)"

text \<open>What holds of the inhibitor of the platform \<open>p\<close> under such calls; \<open>at_rest\<close> is when the machine may
  sleep.\<close>

definition win_inhibitor :: "power \<Rightarrow> bool" where
  "win_inhibitor pw = (case pw_inh pw of WinInhibitor active \<Rightarrow> True | _ \<Rightarrow> False)"

definition power_tame :: "nat \<Rightarrow> platform \<Rightarrow> power \<Rightarrow> bool" where
  "power_tame t p pw \<longleftrightarrow> power_ok pw \<and> (held pw \<longrightarrow> engaged pw) \<and> only_thread t pw \<and>
     (win_inhibitor pw \<longrightarrow> p = Windows)"

definition at_rest :: "nat \<Rightarrow> platform \<Rightarrow> power \<Rightarrow> bool" where
  "at_rest t p pw \<longleftrightarrow> power_tame t p pw \<and> \<not> engaged pw"

definition io_served :: "nat \<Rightarrow> platform \<Rightarrow> power_io \<Rightarrow> bool" where
  "io_served t p io \<longleftrightarrow> (p = Windows \<longrightarrow> pi_call io \<and> pi_thread io = t)"

lemma served_io: "served t p ev \<longleftrightarrow> list_all (io_served t p) (event_io ev)"
  by (auto simp: served_def io_served_def list_all_iff)

lemma tame_frees: "power_tame t p pw \<Longrightarrow> io_served t p io \<Longrightarrow> frees io pw"
  by (auto simp: power_tame_def io_served_def frees_def win_inhibitor_def split: sleepInhibitor.splits)

lemma inhibitor_kind:
  "win_inhibitor (snd (AllowSleep io pw)) = win_inhibitor pw"
  "win_inhibitor (snd (PreventSleep io pw)) = win_inhibitor pw"
  by (auto simp: power_defs win_inhibitor_def split: sleepInhibitor.splits option.splits)

lemma only_thread_update:
  assumes "only_thread t pw" and "wf_dict (pw_exec pw)" and "keeps_awake (t', x) \<Longrightarrow> t' = t"
  shows "only_thread t (pw\<lparr>pw_exec := AList.update t' x (pw_exec pw)\<rparr>)"
  using assms by (auto simp: only_thread_def list_all_iff set_update)

lemma AllowSleep_threads:
  assumes "power_ok pw" and "only_thread t pw"
  shows "only_thread t (snd (AllowSleep io pw))"
proof (cases "pw_inh pw")
  case (WinInhibitor active)
  with assms only_thread_update [of t pw "pi_thread io" esContinuous] show ?thesis
    by (auto simp: AllowSleep_def call_exec_state_def only_thread_def)
qed (use assms in \<open>auto simp: AllowSleep_def cancel_helper_def only_thread_def split: option.splits\<close>)

lemma PreventSleep_threads:
  assumes "power_ok pw" and "only_thread t pw" and "\<And>active. pw_inh pw = WinInhibitor active \<Longrightarrow> pi_thread io = t"
  shows "only_thread t (snd (PreventSleep io pw))"
proof (cases "pw_inh pw")
  case (WinInhibitor active)
  with assms only_thread_update [of t pw t "esContinuous OR esSystemRequired OR esDisplayRequired"] show ?thesis
    by (auto simp: PreventSleep_def call_exec_state_def only_thread_def)
qed (use assms in \<open>auto simp: PreventSleep_def cancel_helper_def only_thread_def Let_def split: option.splits\<close>)

lemma tame_release:
  assumes "power_tame t p pw" and "io_served t p io"
  shows "at_rest t p (snd (AllowSleep io pw))"
proof -
  have "\<not> held (snd (AllowSleep io pw))"
    using assms tame_frees [OF assms] by (intro pw.tidy_release) (auto simp: power_tame_def)
  then show ?thesis
    using assms(1) AllowSleep_threads pw.inv_release pw.release_disengages
    by (simp add: at_rest_def power_tame_def inhibitor_kind del: power_ok.simps)
qed

lemma tame_inhibit:
  assumes "power_tame t p pw" and "io_served t p io"
  shows "power_tame t p (snd (PreventSleep io pw))"
proof -
  have "pi_thread io = t" if "pw_inh pw = WinInhibitor active" for active
    using that assms by (auto simp: power_tame_def io_served_def win_inhibitor_def)
  then show ?thesis
    using assms(1) PreventSleep_threads pw.inv_inhibit pw.tidy_inhibit
    by (simp add: power_tame_def inhibitor_kind del: power_ok.simps)
qed

lemma at_rest_release: "at_rest t p pw \<Longrightarrow> snd (AllowSleep io pw) = pw"
  by (simp add: at_rest_def pw.release_again)

definition rest_ok :: "nat \<Rightarrow> platform \<Rightarrow> runner \<Rightarrow> bool" where
  "rest_ok t p s \<longleftrightarrow> (let c = rn_client s in
     if shaking_hands (rn_place s) then \<not> cl_closed c \<and> at_rest t p (cl_power c)
     else if rn_place s = Online then power_tame t p (cl_power c) \<and> (cl_closed c \<longrightarrow> at_rest t p (cl_power c))
     else at_rest t p (cl_power c))"

lemma rest_link:
  "rest_ok t p s \<Longrightarrow> same_link (rn_client s) c \<Longrightarrow> rest_ok t p (s\<lparr>rn_client := c\<rparr>)"
  by (simp add: rest_ok_def same_link_def Let_def)

lemma rest_tame: "at_rest t p pw \<Longrightarrow> power_tame t p pw"
  by (simp add: at_rest_def)

lemmas release_tame = tame_release [THEN rest_tame]
lemmas inhibit_tame = rest_tame [THEN tame_inhibit]

lemma rest_run:
  assumes "rest_ok t p s" and "run_step ev s = Some s'" and "served t p (Main ev)"
  shows "rest_ok t p s'"
proof (cases ev)
  case (SaidHello werr)
  with assms show ?thesis
    by (auto simp: rest_ok_def client_simps same_link_def split: place.splits prod.splits option.splits
        dest!: link_sendD)
qed (use assms in \<open>auto simp: served_io rest_ok_def client_simps Let_def sleepBackoff_def link_kept at_rest_release
      intro: tame_release inhibit_tame rest_tame split: if_splits option.splits place.splits sum.splits\<close>)

lemma rest_env:
  assumes "rest_ok t p s" and "env_step ev s = Some s'" and "served t p (Env ev)"
    and "\<not> (interferes (Env ev) \<and> shaking_hands (rn_place s))"
  shows "rest_ok t p s'"
proof (cases ev)
  case (Ping ts werr io)
  with assms show ?thesis
    by (auto simp: served_io rest_ok_def client_simps same_link_def Let_def at_rest_release split: if_splits prod.splits option.splits
        dest!: link_sendD intro: tame_release release_tame rest_tame)
next
  case (Forwarding j fev)
  with assms show ?thesis by (auto dest!: link_forward_step intro: rest_link)
qed (use assms in \<open>auto simp: served_io rest_ok_def client_simps link_kept Let_def at_rest_release
  intro: tame_release release_tame rest_tame split: if_splits\<close>)

interpretation rest: stable "calm_step t p" "rest_ok t p" for t p
  by unfold_locales
    (auto simp: calm_step_def elim!: client_step.elims intro: rest_run rest_env split: if_splits)

lemma rest_init: "at_rest t p (cl_power c) \<Longrightarrow> rest_ok t p (run_init c)"
  by (simp add: rest_ok_def run_init_def)

lemma init_at_rest: "at_rest t p (power_init p)"
  using power_init_ok [of p]
  by (cases p) (simp_all add: at_rest_def power_tame_def only_thread_def engaged_def held_def power_init_def
      newSleepInhibitor_def win_inhibitor_def)

lemma at_rest_free: "at_rest t p pw \<Longrightarrow> \<not> engaged pw \<and> \<not> held pw"
  by (auto simp: at_rest_def power_tame_def)

text \<open>C34.  If no \<open>Stop\<close> or \<open>Reconnect\<close> falls between a successful dial and the end of the handshake, nothing
  keeps the machine awake whenever the client is not online: while it connects, while it backs off,
  and after \<open>Run\<close> has returned, no helper process runs and no thread asks the system to stay awake.
  On Windows this takes that the system serves the calls and that they come from one thread.\<close>

theorem sleep_allowed_offline:
  assumes "run_opt (calm_step t p) evs (run_init (New load dk (power_init p) cfg opts)) = Some s"
    and "rn_place s \<noteq> Online"
  shows "\<not> held (cl_power (rn_client s)) \<and> \<not> engaged (cl_power (rn_client s))"
proof -
  have "rest_ok t p (run_init (New load dk (power_init p) cfg opts))"
    by (rule rest_init) (simp add: New_def init_at_rest)
  from rest.run_keeps [OF this assms(1)] assms(2) at_rest_free show ?thesis
    by (auto simp: rest_ok_def Let_def split: if_splits)
qed

text \<open>A \<open>Stop\<close> in that window leaves the machine awake for good: \<open>close\<close> has been used up, and \<open>Run\<close>
  returns with the inhibitor engaged.\<close>

lemma stop_in_handshake_leaks:
  assumes "rn_place s = Engaging" and "power_ok (cl_power (rn_client s))"
    and "\<not> engaged (cl_power (rn_client s))" and "works io (cl_power (rn_client s))"
    and "cl_closed (rn_client s)" and "cl_stop (rn_client s)"
    and "run_opt client_step [Main (Engaged io), Main (ReadMessage (Inl e) None io1), Main (Check io2 r)] s = Some s'"
  shows "rn_place s' = RunReturned None \<and> engaged (cl_power (rn_client s'))"
  using assms pw.inhibit_works [OF assms(2,3,4)] by (auto simp: client_simps Let_def)

section \<open>Requests across a reconnect\<close>

lemma fwds_kept [client_simps]:
  "cl_fwds (adopt_conn c) = cl_fwds c" "cl_fwds (drop_conn c) = cl_fwds c"
  "cl_fwds (store_ack cio ack c) = cl_fwds c" "cl_wire (adopt_conn c) = cl_wire c"
  "cl_wire (store_ack cio ack c) = cl_wire c"
  by (auto simp: adopt_conn_def drop_conn_def store_ack_def Let_def log_line_def split: prod.splits)

definition reconnecting :: "power_io \<Rightarrow> int \<Rightarrow> json option \<Rightarrow> cfg_io \<Rightarrow> event list" where
  "reconnecting io r data cio = [Main (Check io r), Main (Woke True), Main (Loop io), Main (Dialed None),
     Main (SaidHello None), Main (GotAck (Inr data) cio), Main (Engaged io)]"

lemma reconnecting_effect:
  assumes "rn_place s = Leaving" and "run_opt client_step (reconnecting io r data cio) s = Some s'"
  shows "rn_place s' = Online \<and> cl_fwds (rn_client s') = cl_fwds (rn_client s) \<and>
    cl_conn (rn_client s') = Some (cl_dials (rn_client s)) \<and> cl_conn_open (rn_client s')"
proof -
  obtain s1 s2 s3 where s1: "run_step (Check io r) s = Some s1" and s2: "run_step (Woke True) s1 = Some s2"
    and s3: "run_step (Loop io) s2 = Some s3"
    and rest: "run_opt client_step [Main (Dialed None), Main (SaidHello None), Main (GotAck (Inr data) cio),
      Main (Engaged io)] s3 = Some s'"
    using assms(2) by (auto simp: reconnecting_def bind_eq_Some_conv)
  have "cl_fwds (rn_client s1) = cl_fwds (rn_client s) \<and> cl_dials (rn_client s1) = cl_dials (rn_client s) \<and>
      (\<exists>d. rn_place s1 = Sleeping d)"
    using s1 s2 assms(1)
    by (auto simp: client_simps sleepBackoff_def Let_def split: if_splits)
  with s2 s3 have s3': "cl_fwds (rn_client s3) = cl_fwds (rn_client s)"
      "cl_dials (rn_client s3) = cl_dials (rn_client s)"
    by (auto simp: client_simps Let_def split: option.splits)
  obtain s4 s5 s6 where s4: "run_step (Dialed None) s3 = Some s4" and s5: "run_step (SaidHello None) s4 = Some s5"
    and s6: "run_step (GotAck (Inr data) cio) s5 = Some s6" and s7: "run_step (Engaged io) s6 = Some s'"
    using rest by (auto simp: bind_eq_Some_conv)
  have a: "cl_conn_open (rn_client s4)" "cl_conn (rn_client s4) = Some (cl_dials (rn_client s))"
      "cl_fwds (rn_client s4) = cl_fwds (rn_client s)"
    using s4 s3' by (auto simp: client_simps split: place.splits)
  have b: "cl_conn_open (rn_client s5)" "cl_conn (rn_client s5) = Some (cl_dials (rn_client s))"
      "cl_fwds (rn_client s5) = cl_fwds (rn_client s)"
    using s5 a by (auto simp: sendFrame_def split: place.splits)
  have "cl_conn_open (rn_client s6)" "cl_conn (rn_client s6) = Some (cl_dials (rn_client s))"
      "cl_fwds (rn_client s6) = cl_fwds (rn_client s)"
    using s6 s7 b by (auto simp: client_simps link_kept split: if_splits sum.splits)
  with s7 show ?thesis by (auto simp: client_simps split: if_splits)
qed

text \<open>C25.  Nothing ends a request when its connection is lost: after the client has reconnected, the answer
  of the target goes to the new connection under the old request's number, where the server, which
  numbers the requests of every session from 1, may have given that number to another caller.\<close>

theorem stale_answer_on_new_connection:
  assumes "rn_place s = Leaving" and "j < length (cl_fwds (rn_client s))"
    and "fw_phase (cl_fwds (rn_client s) ! j) = FwRequesting req"
    and "run_opt client_step (reconnecting io r data cio) s = Some s'"
  shows "\<exists>s''. env_step (Forwarding j (Do (Inr (st, hs)) None None)) s' = Some s'' \<and>
    cl_wire (rn_client s'') = cl_wire (rn_client s') @
      [(cl_dials (rn_client s), response_start (fw_req (cl_fwds (rn_client s) ! j)) st hs)]"
  using reconnecting_effect [OF assms(1,4)] assms(2,3)
  by (auto simp: fw_do_def fw_send_def sendFrame_def fw_goto_def Let_def)

section \<open>The semaphore\<close>

lemma slots_kept:
  "slots_ok (close_conn io reason c) = slots_ok c" "slots_ok (Client_Stop io c) = slots_ok c"
  "slots_ok (Client_Reconnect io c) = slots_ok c" "slots_ok (adopt_conn c) = slots_ok c"
  "slots_ok (drop_conn c) = slots_ok c" "slots_ok (store_ack cio ack c) = slots_ok c"
  "slots_ok (engage io c) = slots_ok c" "slots_ok (setStatus st c) = slots_ok c"
  "slots_ok (log_line l m c) = slots_ok c" "slots_ok (debugLog m c) = slots_ok c"
  "slots_ok (SetTarget tgt c) = slots_ok c" "slots_ok (c\<lparr>cl_recon := b\<rparr>) = slots_ok c"
  "slots_ok (c\<lparr>cl_backoff := d\<rparr>) = slots_ok c"
  by (rule slots_ok_cong; simp add: close_conn_def Client_Stop_def Client_Reconnect_def adopt_conn_def drop_conn_def
      store_ack_def engage_def setStatus_def log_line_def debugLog_def SetTarget_def Let_def split: prod.split)+

lemma slots_sendD: "sendFrame werr f c = (e, c') \<Longrightarrow> slots_ok c' = slots_ok c"
  using slots_send [of werr f c] by simp

lemma slots_run:
  assumes "slots_ok (rn_client s)" and "run_step ev s = Some s'"
  shows "slots_ok (rn_client s')"
proof (cases ev)
  case (SaidHello werr)
  with assms show ?thesis
    by (auto simp: slots_kept connect_failed_def split: place.splits prod.splits option.splits dest!: slots_sendD)
qed (use assms in \<open>auto simp: slots_kept slots_handle_message connect_failed_def sleepBackoff_def Let_def
  split: if_splits option.splits place.splits sum.splits\<close>)

lemma slots_env:
  assumes "slots_ok (rn_client s)" and "env_step ev s = Some s'"
  shows "slots_ok (rn_client s')"
proof (cases ev)
  case (Ping ts werr io)
  with assms show ?thesis by (auto simp: slots_kept split: if_splits prod.splits option.splits dest!: slots_sendD)
next
  case (Forwarding j fev)
  with assms show ?thesis by (auto intro: slots_step)
qed (use assms in \<open>auto simp: slots_kept split: if_splits\<close>)

interpretation slots: stable client_step "\<lambda>s. slots_ok (rn_client s)"
  by unfold_locales (auto elim!: client_step.elims intro: slots_run slots_env)

text \<open>C24.  Through all connections of the client, whatever frames arrive and however the goroutines are
  scheduled, at most eight requests are between the taking of a slot and the end of their response,
  streaming included, and a request waits only while eight others are.\<close>

theorem at_most_eight:
  assumes "run_opt client_step evs (run_init (New load dk pw cfg opts)) = Some s"
  defines "fws \<equiv> cl_fwds (rn_client s)"
  shows "length (filter (\<lambda>fw. fw_phase fw \<noteq> FwWaiting \<and> fw_phase fw \<noteq> FwDone) fws) \<le> 8 \<and>
    (j < length fws \<and> fw_phase (fws ! j) = FwWaiting \<longrightarrow>
       (client_step (Env (Forwarding j Acquire)) s = None \<longleftrightarrow>
          length (filter (\<lambda>fw. fw_phase fw \<noteq> FwWaiting \<and> fw_phase fw \<noteq> FwDone) fws) = 8))"
proof -
  have "slots_ok (rn_client (run_init (New load dk pw cfg opts)))" by (simp add: run_init_def New_slots)
  from slots.run_keeps [OF this assms(1)] show ?thesis
    by (auto simp: slots_ok_def maxConcurrent_def holds_def [abs_def] fws_def)
qed

section \<open>A session of the client\<close>

definition online_ack :: json where
  "online_ack = JObj [(''type'', JStr ''hello_ack''), (''ok'', JBool True), (''tunnelID'', JStr ''ab12cd34''),
     (''secret'', JStr ''s3cret'')]"

definition cio_good :: cfg_io where
  "cio_good = \<lparr>ci_mkdir = None, ci_write = CfgWritten, ci_rename = None\<rparr>"

definition ack_frame :: frame where
  "ack_frame = zero_frame\<lparr>f_Type := ''hello_ack'', f_Ok := True, f_TunnelID := ''ab12cd34'',
     f_Secret := ''s3cret''\<rparr>"

lemma online_ack_frame: "read_ack (Inr (Some online_ack)) = Inr ack_frame"
  by (simp add: read_ack_def online_ack_def ack_frame_def set_field_def zero_frame_def)

definition up_events :: "event list" where
  "up_events = [Main (Loop pio_good), Main (Dialed None), Main (SaidHello None),
     Main (GotAck (Inr (Some online_ack)) cio_good), Main (Engaged pio_good)]"

lemmas loop_eval = Let_def run_init_def setStatus_def adopt_conn_def drop_conn_def sendFrame_def store_ack_def
  engage_def log_line_def debugLog_def close_conn_def connect_failed_def sleepBackoff_def adopt_ack_def
  Client_Server_def Client_CustomID_def

definition up_state :: runner where
  "up_state = the (run_opt client_step up_events (run_init fresh_client))"

lemma pio_good_inhibits:
  "PreventSleep pio_good (power_init Linux) =
     (None, (power_init Linux)\<lparr>pw_inh := CmdInhibitor (argv_of (newSleepInhibitor Linux)) (Some 0),
        pw_helpers := [(0, argv_of (newSleepInhibitor Linux))], pw_next := 1\<rparr>)"
  by (simp add: PreventSleep_def power_init_def newSleepInhibitor_def pio_good_def argv_of_def Let_def)

lemma up_run:
  "run_opt client_step up_events (run_init fresh_client) = Some up_state \<and> rn_place up_state = Online \<and>
   cl_conn_open (rn_client up_state) \<and> cl_conn (rn_client up_state) = Some 0 \<and>
   cl_fwds (rn_client up_state) = [] \<and> rn_ctx up_state = None \<and> \<not> cl_stop (rn_client up_state) \<and>
   cl_dials (rn_client up_state) = 1 \<and> \<not> cl_recon (rn_client up_state) \<and> cl_sem (rn_client up_state) = 0 \<and>
   cl_pending (rn_client up_state) = [] \<and> Client_Target (rn_client up_state) = ''http://10.0.0.5:80/''"
proof -
  have "\<exists>s. run_opt client_step up_events (run_init fresh_client) = Some s \<and> rn_place s = Online \<and>
     cl_conn_open (rn_client s) \<and> cl_conn (rn_client s) = Some 0 \<and> cl_fwds (rn_client s) = [] \<and>
     rn_ctx s = None \<and> \<not> cl_stop (rn_client s) \<and> cl_dials (rn_client s) = 1 \<and> \<not> cl_recon (rn_client s) \<and>
     cl_sem (rn_client s) = 0 \<and> cl_pending (rn_client s) = [] \<and>
     Client_Target (rn_client s) = ''http://10.0.0.5:80/''"
    by (simp add: Client_Target_def up_events_def online_ack_frame fresh_client_def New_def client_opts_def client_cfg_def
        loop_eval pio_good_inhibits)
  then show ?thesis by (auto simp: up_state_def)
qed

definition stop_events :: "event list" where
  "stop_events = [Main (ReadMessage (Inr (Some demo_msg)) None pio_good), Env (ReconnectCalled pio_good),
     Main (ReadMessage (Inl ''closed'') None pio_good), Main (Check pio_good 0)]"

lemma demo_msg_keeps:
  "cl_stop (handle_message None (Some demo_msg) c) = cl_stop c" "cl_closed (handle_message None (Some demo_msg) c) = cl_closed c"
  by (simp_all add: link_handle_message [THEN same_link_sel(4)] link_handle_message [THEN same_link_sel(6)])

theorem stop_returns_witness:
  "\<exists>s1 s2. env_step (StopCalled pio_good) up_state = Some s1 \<and> run_opt client_step stop_events s1 = Some s2 \<and>
    rn_place s2 = RunReturned None \<and> cl_wire (rn_client s2) = cl_wire (rn_client up_state)"
proof -
  obtain s1 where s1: "env_step (StopCalled pio_good) up_state = Some s1" by simp
  then obtain s2 where s2: "run_opt client_step stop_events s1 = Some s2"
    using up_run by (auto simp: stop_events_def client_simps demo_msg_keeps Let_def bind_eq_Some_conv)
  have "rn_place s2 = RunReturned None \<and> cl_wire (rn_client s2) = cl_wire (rn_client up_state)"
    using stop_returns [OF conjunct1 [OF up_run, unfolded fresh_client_def] conjunct1 [OF conjunct2 [OF up_run]] s1 s2]
    by (simp add: stop_events_def)
  with s1 s2 show ?thesis by blast
qed

definition busy_events :: "event list" where
  "busy_events = [Main (ReadMessage (Inr (Some demo_msg)) None pio_good), Env (Forwarding 0 Acquire),
     Env (Forwarding 0 (Build None None None)), Env (Forwarding 0 (Do (Inr (200, [])) None None))]"

lemma demo_msg_starts:
  assumes "cl_pending c = []"
  shows "cl_fwds (handle_message None (Some demo_msg) c) = cl_fwds c @
      [new_forward 3 (zero_frame\<lparr>f_Type := ''request_start'', f_ReqID := 3\<rparr>) []]"
    and "cl_sem (handle_message None (Some demo_msg) c) = cl_sem c" 
    and "Client_Target (handle_message None (Some demo_msg) c) = Client_Target c"
  using assms
  by (simp_all add: handle_message_def demo_msg_frame handle_frame_def handleRequestStart_def Client_Target_def,
    simp_all add: zero_frame_def dispatch_def assemble_def)

lemma forwarding_run:
  "run_opt (\<lambda>ev. forward_step ev j) evs c = Some c' \<Longrightarrow> rn_client s = c \<Longrightarrow>
   run_opt client_step (map (\<lambda>ev. Env (Forwarding j ev)) evs) s = Some (s\<lparr>rn_client := c'\<rparr>)"
proof (induction evs arbitrary: c s)
  case (Cons ev evs)
  obtain c1 where c1: "forward_step ev j c = Some c1" "run_opt (\<lambda>ev. forward_step ev j) evs c1 = Some c'"
    using Cons.prems(1) by (auto simp: bind_eq_Some_conv simp del: forward_step.simps)
  have "run_opt client_step (map (\<lambda>ev. Env (Forwarding j ev)) evs) (s\<lparr>rn_client := c1\<rparr>) =
      Some (s\<lparr>rn_client := c1\<rparr>\<lparr>rn_client := c'\<rparr>)" by (rule Cons.IH [OF c1(2)]) simp
  with c1(1) Cons.prems(2) show ?case by (simp del: forward_step.simps)
qed simp

lemma busy_run:
  "\<exists>s. run_opt client_step (up_events @ busy_events) (run_init fresh_client) = Some s \<and>
     map fw_phase (cl_fwds (rn_client s)) = [FwStreaming 0]"
proof -
  define c where "c = handle_message None (Some demo_msg) (rn_client up_state)"
  have c: "cl_fwds c = [new_forward 3 (zero_frame\<lparr>f_Type := ''request_start'', f_ReqID := 3\<rparr>) []]" "cl_sem c = 0"
      "c_Target (cl_cfg c) = ''http://10.0.0.5:80/''" "cl_conn c = Some 0" "cl_conn_open c"
    using demo_msg_starts up_run
    by (simp_all add: c_def Client_Target_def link_handle_message [THEN same_link_sel(1)] link_handle_message [THEN same_link_sel(2)])
  have "\<exists>c'. run_opt (\<lambda>ev. forward_step ev 0) [Acquire, Build None None None, Do (Inr (200, [])) None None] c = Some c' \<and>
      map fw_phase (cl_fwds c') = [FwStreaming 0]"
  proof -
    let ?fw = "new_forward 3 (zero_frame\<lparr>f_Type := ''request_start'', f_ReqID := 3\<rparr>) []"
    have "fw_phase ?fw = FwWaiting" by (simp add: new_forward_def)
    with c show ?thesis by (simp add: maxConcurrent_def demo_target fw_eval del: list_update.simps, simp)
  qed
  then obtain c' where c': "run_opt (\<lambda>ev. forward_step ev 0) [Acquire, Build None None None, Do (Inr (200, [])) None None] c = Some c'"
      "map fw_phase (cl_fwds c') = [FwStreaming 0]" by (elim exE conjE) (rule that)
  have r: "run_step (ReadMessage (Inr (Some demo_msg)) None pio_good) up_state = Some (up_state\<lparr>rn_client := c\<rparr>)"
    using up_run by (simp add: c_def Let_def)
  have "run_opt client_step busy_events up_state = Some (up_state\<lparr>rn_client := c'\<rparr>)"
    using r forwarding_run [OF c'(1), of "up_state\<lparr>rn_client := c\<rparr>"] by (simp add: busy_events_def del: run_step.simps env_step.simps)
  moreover have "run_opt client_step up_events (run_init fresh_client) = Some up_state" using up_run by (rule conjunct1)
  ultimately have "run_opt client_step (up_events @ busy_events) (run_init fresh_client) = Some (up_state\<lparr>rn_client := c'\<rparr>)"
    by (simp only: run_opt_append bind.bind_lunit)
  with c'(2) show ?thesis by auto
qed

theorem at_most_eight_witness:
  "\<exists>s :: runner. map fw_phase (cl_fwds (rn_client s)) = [FwStreaming 0] \<and>
     length (filter (\<lambda>fw. fw_phase fw \<noteq> FwWaiting \<and> fw_phase fw \<noteq> FwDone) (cl_fwds (rn_client s))) \<le> 8"
proof -
  obtain s where s: "run_opt client_step (up_events @ busy_events) (run_init fresh_client) = Some s"
      "map fw_phase (cl_fwds (rn_client s)) = [FwStreaming 0]"
    using busy_run by (elim exE conjE) (rule that)
  have "length (filter (\<lambda>fw. fw_phase fw \<noteq> FwWaiting \<and> fw_phase fw \<noteq> FwDone) (cl_fwds (rn_client s))) \<le> 8"
    using at_most_eight [OF s(1) [unfolded fresh_client_def]] by (rule conjunct1)
  with s(2) show ?thesis by (intro exI conjI)
qed

lemma cancelled_run:
  "\<exists>s. run_opt client_step [Env (CtxDone ''context canceled''), Main (Loop pio_good)] (run_init fresh_client) = Some s \<and>
     rn_place s = RunReturned (Some ''context canceled'')"
  by (simp add: run_init_def)

theorem run_returns_only_on_request_witness:
  "\<exists>s :: runner. rn_place s = RunReturned (Some ''context canceled'') \<and> Some ''context canceled'' = rn_ctx s"
proof -
  obtain s where s: "run_opt client_step [Env (CtxDone ''context canceled''), Main (Loop pio_good)]
      (run_init fresh_client) = Some s" "rn_place s = RunReturned (Some ''context canceled'')"
    using cancelled_run by blast
  from run_returns_only_on_request [OF s] have "Some ''context canceled'' = rn_ctx s" by simp
  with s(2) show ?thesis by (intro exI [of _ s]) simp
qed

definition down_events :: "event list" where
  "down_events = [Main (Loop pio_good), Main (Dialed (Some ''connection refused'')), Main (Check pio_good 0)]"

lemma down_run:
  "\<exists>s. run_opt client_step down_events (run_init fresh_client) = Some s \<and> rn_place s = Sleeping 1600000000"
  by (simp add: down_events_def fresh_client_def New_def client_opts_def client_cfg_def loop_eval
      jitter_range_def next_backoff_def backoff_delay_def initialBackoff_def maxBackoff_def second_def)

theorem backoff_bounds_witness:
  "\<exists>s :: runner. rn_place s = Sleeping 1600000000 \<and> 0 < rn_failures s \<and>
    delay_within (min (2 ^ rn_failures s * second) maxBackoff) 1600000000"
proof -
  obtain s where s: "run_opt client_step down_events (run_init fresh_client) = Some s"
      "rn_place s = Sleeping 1600000000"
    using down_run by blast
  from backoff_bounds [OF s(1) [unfolded fresh_client_def] s(2)] s(2) show ?thesis
    by (intro exI [of _ s]) simp
qed

lemma calm_down_run:
  "\<exists>s. run_opt (calm_step 0 Linux) down_events (run_init fresh_client) = Some s \<and> rn_place s = Sleeping 1600000000"
  by (simp add: down_events_def calm_step_def served_def fresh_client_def New_def client_opts_def client_cfg_def loop_eval
      jitter_range_def next_backoff_def backoff_delay_def initialBackoff_def maxBackoff_def second_def)

theorem sleep_allowed_offline_witness:
  "\<exists>s :: runner. rn_place s = Sleeping 1600000000 \<and> \<not> held (cl_power (rn_client s))"
proof -
  obtain s where s: "run_opt (calm_step 0 Linux) down_events (run_init fresh_client) = Some s"
      "rn_place s = Sleeping 1600000000"
    using calm_down_run by blast
  from sleep_allowed_offline [OF s(1) [unfolded fresh_client_def]] s(2) show ?thesis
    by (intro exI [of _ s]) simp
qed

definition stale_fwd :: forwarding where
  "stale_fwd = (new_forward 1 demo_fetch [])
     \<lparr>fw_phase := FwRequesting (build_request ''http://10.0.0.5:80'' demo_fetch [])\<rparr>"

definition stale_state :: runner where
  "stale_state = \<lparr>rn_place = Leaving, rn_client = fresh_client\<lparr>cl_conn := Some 0, cl_closed := True,
     cl_fwds := [stale_fwd], cl_dials := 1\<rparr>, rn_ctx = None, rn_failures = 0\<rparr>"

lemma stale_run:
  "\<exists>s'. run_opt client_step (reconnecting pio_good 0 (Some online_ack) cio_good) stale_state = Some s'"
  by (simp add: stale_state_def reconnecting_def online_ack_frame fresh_client_def New_def client_opts_def
      client_cfg_def loop_eval pio_good_inhibits jitter_range_def next_backoff_def backoff_delay_def
      initialBackoff_def maxBackoff_def second_def)

theorem stale_answer_on_new_connection_witness:
  "\<exists>s' s'' :: runner. env_step (Forwarding 0 (Do (Inr (200, [])) None None)) s' = Some s'' \<and>
    cl_wire (rn_client s'') = cl_wire (rn_client s') @ [(1, response_start 1 200 [])]"
proof -
  obtain s' where r: "run_opt client_step (reconnecting pio_good 0 (Some online_ack) cio_good) stale_state = Some s'"
    using stale_run by blast
  have f: "cl_fwds (rn_client stale_state) = [stale_fwd]" "rn_place stale_state = Leaving"
      "cl_dials (rn_client stale_state) = 1"
      "fw_phase stale_fwd = FwRequesting (build_request ''http://10.0.0.5:80'' demo_fetch [])" "fw_req stale_fwd = 1"
    by (simp_all add: stale_state_def stale_fwd_def new_forward_def)
  then have j: "0 < length (cl_fwds (rn_client stale_state))"
      "fw_phase (cl_fwds (rn_client stale_state) ! 0) =
         FwRequesting (build_request ''http://10.0.0.5:80'' demo_fetch [])"
    by simp_all
  from stale_answer_on_new_connection [OF f(2) j r, of 200 "[]"] show ?thesis
    unfolding f nth_Cons_0 by blast
qed

end
