(* ===== verification/System.thy ===== *)
theory System
  imports Relay ClientLoop
begin

text \<open>
  The two ends together: what the frames of a request and of a response are to both of them, what the
  caller gets when the target cannot be reached, and the identity of a tunnel across reconnects and
  restarts.  The theories \<open>Wire\<close> to \<open>Target\<close> have the two programs and the connection between them.
\<close>

section \<open>The request\<close>

lemma request_chunk_is_chunk: "f \<in> set (chunk_frames (request_chunk k) bss) \<Longrightarrow> is_chunk f"
  using up.map_chunk_frames(3) [of f k bss] up.decodable [of f k bss] by (auto simp: is_chunk_def)

lemma chunk_pairs:
  "map (\<lambda>f. (f_Seq f, payload f)) (chunk_frames (request_chunk k) bss) = numbered bss"
proof -
  have "map (\<lambda>f. (f_Seq f, payload f)) cs = zip (map f_Seq cs) (map payload cs)" for cs
    by (induction cs) simp_all
  then show ?thesis using up.map_chunk_frames(1,2) [of k bss] by (simp add: numbered_def)
qed

lemma relay_open_start:
  assumes "relay_open q rw w = Some (Inr r, w')"
  shows "rl_start r = request_start (rl_req r) (snd (splitTunnelPath (q_path q))) q \<and>
    f_HasBody (rl_start r) = q_hasBody q \<and> f_Type (rl_start r) = ''request_start''"
  using assms by (auto simp: relay_open_def request_start_def split: prod.splits if_splits option.splits)

section \<open>The response\<close>

lemma streamed_good: "list_all good_chunk (chunk_frames (response_chunk k) bss)"
  using down.map_chunk_frames(3) [of _ k bss] down.decodable [of _ k bss]
  by (auto simp: list_all_iff good_chunk_def)

lemma takeWhile_streamed:
  "takeWhile good_chunk (chunk_frames (response_chunk k) bss @ [response_end k e]) =
     chunk_frames (response_chunk k) bss"
  using streamed_good [of k bss] by (simp add: list_all_iff response_end_def good_chunk_def)

text \<open>When the client cannot execute a request, the caller gets a 502 with an empty body: the error
  text comes in the end frame, after the start frame has fixed the status, and is dropped.\<close>

theorem target_error_is_silent:
  assumes "opened r0" and "relay_run r0 evs r" and "rl_got r = error_frames k e"
  shows "rw_status (rl_rw r) = Some 502 \<and> rw_header (rl_rw r) = rw_header (rl_rw r0) \<and> rw_body (rl_rw r) = []"
  using answer_to_caller [OF assms(1,2), of "response_start k 502 []" "[response_end k e]"] assms(3)
  by (simp add: error_frames_def response_start_def response_end_def good_chunk_def zero_frame_def)

section \<open>The identity of a tunnel\<close>

text \<open>What the registry makes of the hello of a client with this configuration.\<close>

definition register_client ::
    "(tunnels \<Rightarrow> tunnels) \<Rightarrow> save_io \<Rightarrow> int \<Rightarrow> draw list \<Rightarrow> Config \<Rightarrow> Registry \<Rightarrow> disk
       \<Rightarrow> (reg_result \<times> Registry \<times> disk) option" where
  "register_client iter io now draws cfg r dk =
     (let h = hello_frame (c_CustomID cfg) (c_Secret cfg)
      in Register iter io now draws (f_DesiredId h) (f_Secret h) r dk)"

text \<open>The configuration after the acknowledgement, and what a restarted client finds of it.\<close>

definition acked :: "string \<Rightarrow> bool \<Rightarrow> bool \<Rightarrow> string \<Rightarrow> Config \<Rightarrow> Config" where
  "acked i reused denied s = adopt_ack (hello_ack i reused denied s)"

lemma acked_sel [simp]:
  "c_TunnelID (acked i reused dn s cfg) = i" "c_CustomID (acked i reused dn s cfg) = c_CustomID cfg"
  "c_Secret (acked i reused dn s cfg) = (if \<not> reused \<and> s \<noteq> [] then s else c_Secret cfg)"
  by (simp_all add: acked_def adopt_ack_def hello_ack_def zero_frame_def)

lemma register_client_eq:
  "register_client iter io now draws cfg r dk =
     Register iter io now draws (c_CustomID cfg) (c_Secret cfg) r dk"
  by (simp add: register_client_def hello_frame_def)

lemma issued_secret:
  assumes "Register iter io now draws desired secret r dk = Some (Inr (i, False, dn, s), r', dk')"
  shows "s \<noteq> [] \<and> valid_utf8 s"
proof -
  have *: "s \<noteq> [] \<and> valid_utf8 s" if "issueSecret iter io j d ds r0 dk = Some (Inr (i, False, dn, s), r', dk')"
    for j d ds r0
    using that by (cases rule: issueSecret_cases)
      (auto simp: generateSecret_nonempty generateSecret_def valid_utf8_ascii RawURLEncode_ascii split: sum.splits)
  from assms show ?thesis
  proof (cases rule: Register_cases)
    case (custom ds)
    then show ?thesis by (intro *)
  next
    case (random j d ds)
    then show ?thesis by (intro *)
  qed simp_all
qed

lemma normalizeDesired_Nil: "normalizeDesired [] = []"
  by (simp add: normalizeDesired_def Let_def TrimSpace_def ToLower_ascii)

text \<open>C16.  A client that asks for a custom ID and gets it as a new tunnel keeps it: after it has stored the
  acknowledgement, after any history of the server, and also after a restart from the file it has
  saved, the next hello gets the same ID back.\<close>

theorem custom_id_kept:
  assumes "idRe (c_CustomID cfg)"
    and "register_client iter io now draws cfg r dk = Some (Inr (c_CustomID cfg, False, dn, s), r1, dk1)"
    and "run_opt (reg_step iter) ops (r1, dk1) = Some (r2, dk2)"
    and "SaveConfig cio path (acked (c_CustomID cfg) False dn s cfg) files = (None, files')"
    and "cfg2 = acked (c_CustomID cfg) False dn s cfg \<or> LoadConfig None files' path = Inr cfg2"
  shows "register_client iter' io' now' draws' cfg2 r2 dk3 =
      Some (Inr (c_CustomID cfg, True, False, []), r2, dk3) \<and>
    c_Secret (acked (c_CustomID cfg) True False [] cfg2) = c_Secret cfg2"
proof -
  have reg: "Register iter io now draws (c_CustomID cfg) (c_Secret cfg) r dk =
      Some (Inr (c_CustomID cfg, False, dn, s), r1, dk1)"
    using assms(2) by (simp add: register_client_eq)
  have o: "owned (c_CustomID cfg) s (r2, dk2)"
    using Register_fresh_owned [OF reg] own.run_keeps [OF _ assms(3)] by blast
  have s: "s \<noteq> []" "valid_utf8 s" using issued_secret [OF reg] by simp_all
  have "LoadConfig None files' path = Inr (coerce_config (acked (c_CustomID cfg) False dn s cfg))"
    by (rule SaveConfig_loads [OF assms(4)])
  with assms(5) s valid_utf8_ascii [OF idRe_ascii [OF assms(1)]]
  have "c_CustomID cfg2 = c_CustomID cfg \<and> c_Secret cfg2 = s"
    by (auto simp: coerce_config_def)
  with Register_owned [OF assms(1) o] show ?thesis by (simp add: register_client_eq)
qed

text \<open>C31.  Without a custom ID the tunnel is lost with the connection: the hello of the next connection
  does not name the ID that the client has stored, and the server hands out another one and a new
  secret.\<close>

theorem default_id_lost:
  assumes "c_CustomID cfg = []"
    and "register_client iter io now draws cfg r dk = Some (Inr (i, reused, dn, s), r1, dk1)"
    and "run_opt (reg_step iter) ops (r1, dk1) = Some (r2, dk2)"
    and "register_client iter' io' now' draws' (acked i reused dn s cfg) r2 dk2 =
      Some (Inr (i', reused', dn', s'), r3, dk3)"
  shows "c_TunnelID (acked i reused dn s cfg) = i \<and> i' \<noteq> i \<and> \<not> reused' \<and> s' \<noteq> []"
proof -
  have reg: "Register iter io now draws [] (c_Secret cfg) r dk = Some (Inr (i, reused, dn, s), r1, dk1)"
    and reg': "Register iter' io' now' draws' [] (c_Secret (acked i reused dn s cfg)) r2 dk2 =
      Some (Inr (i', reused', dn', s'), r3, dk3)"
    using assms(1,2,4) by (simp_all add: register_client_eq)
  have fresh: "\<not> ru \<and> Get ra j = None"
    if "Register it io nw dr [] sc ra d = Some (Inr (j, ru, de, se), rb, d')"
    for it io nw dr sc ra d j ru de se rb d'
    using that
  proof (cases rule: Register_cases)
    case (random j' dn ds)
    from random(5) show ?thesis by (cases rule: issueSecret_cases) (use random(1) in auto)
  qed (auto simp: normalizeDesired_Nil dest: idRe_nonempty)
  have "\<not> reused" using fresh [OF reg] by simp
  then have "owned i s (r1, dk1)" using Register_fresh_owned [of iter io now draws "[]"] reg by simp
  then have "owned i s (r2, dk2)" by (rule own.run_keeps [OF _ assms(3)])
  then have "Get r2 i \<noteq> None" by (auto simp: owned_def)
  moreover have "\<not> reused'" "Get r2 i' = None" using fresh [OF reg'] by simp_all
  moreover from this have "s' \<noteq> []" using issued_secret [of iter' io' now' draws' "[]"] reg' by simp
  ultimately show ?thesis by auto
qed

section \<open>Witnesses\<close>

definition custom_cfg :: Config where
  "custom_cfg = client_cfg\<lparr>c_CustomID := ''zzzz0000''\<rparr>"

theorem custom_id_kept_witness:
  "\<exists>r1 dk1 files' cfg2.
     register_client id demo_io 5 [Inr []] custom_cfg demo_registry Map.empty
       = Some (Inr (''zzzz0000'', False, False, demo_secret), r1, dk1) \<and>
     LoadConfig None files' ''config.json'' = Inr cfg2 \<and>
     register_client id demo_io 9 [] cfg2 r1 dk1 = Some (Inr (''zzzz0000'', True, False, []), r1, dk1)"
proof -
  have c: "c_CustomID custom_cfg = ''zzzz0000''" "c_Secret custom_cfg = []"
    by (simp_all add: custom_cfg_def client_cfg_def empty_config_def)
  obtain r1 dk1 where r: "register_client id demo_io 5 [Inr []] custom_cfg demo_registry Map.empty
      = Some (Inr (''zzzz0000'', False, False, demo_secret), r1, dk1)"
    using demo_custom [of Map.empty] c by (auto simp: register_client_eq)
  let ?cfg = "acked ''zzzz0000'' False False demo_secret custom_cfg"
  obtain files' where f: "SaveConfig cio_good ''config.json'' ?cfg Map.empty = (None, files')"
    by (simp add: SaveConfig_def cio_good_def Let_def)
  then have l: "LoadConfig None files' ''config.json'' = Inr (coerce_config ?cfg)"
    by (rule SaveConfig_loads)
  have "register_client id demo_io 9 [] (coerce_config ?cfg) r1 dk1
      = Some (Inr (''zzzz0000'', True, False, []), r1, dk1)"
    using custom_id_kept [of custom_cfg id demo_io 5 "[Inr []]" demo_registry Map.empty False demo_secret r1 dk1
        "[]" r1 dk1 cio_good "''config.json''" Map.empty files' "coerce_config ?cfg" id demo_io 9 "[]" dk1] c r f l
    by simp
  with r l show ?thesis by blast
qed

lemma demo_generate2: "generateID (Inr [1]) = Inr ''baaaaaaa''"
  by code_simp

lemma demo_secret_nonempty: "demo_secret \<noteq> []"
  by (rule generateSecret_nonempty [of "Inr []"]) (simp add: generateSecret_def demo_secret_def)

lemma client_cfg_sel: "c_CustomID client_cfg = []" "c_Secret client_cfg = []"
  by (simp_all add: client_cfg_def empty_config_def)

lemma demo_random:
  assumes "Get r j = None" and "generateID d = Inr j"
  shows "\<exists>dk'. Register iter demo_io now [d, Inr []] [] sc r dk = Some (Inr (j, False, False, demo_secret),
    modify_tunnel j (setSecretHash (hashSecret demo_secret)) (put_tunnel j (newTunnel now j) r), dk')"
  using demo_issue [of iter j False "put_tunnel j (newTunnel now j) r" dk] assms
  by (simp add: Register_def claimDesired_def normalizeDesired_Nil)

theorem default_id_lost_witness:
  "\<exists>r1 dk1 r3 dk3.
     register_client id demo_io 5 [Inr [], Inr []] client_cfg demo_registry Map.empty
       = Some (Inr (''aaaaaaaa'', False, False, demo_secret), r1, dk1) \<and>
     register_client id demo_io 9 [Inr [1], Inr []] (acked ''aaaaaaaa'' False False demo_secret client_cfg) r1 dk1
       = Some (Inr (''baaaaaaa'', False, False, demo_secret), r3, dk3) \<and>
     c_TunnelID (acked ''aaaaaaaa'' False False demo_secret client_cfg) = ''aaaaaaaa'' \<and>
     ''baaaaaaa'' \<noteq> ''aaaaaaaa'' \<and> demo_secret \<noteq> []"
proof -
  let ?r1 = "modify_tunnel ''aaaaaaaa'' (setSecretHash (hashSecret demo_secret))
    (put_tunnel ''aaaaaaaa'' (newTunnel 5 ''aaaaaaaa'') demo_registry)"
  obtain dk1 where 1: "register_client id demo_io 5 [Inr [], Inr []] client_cfg demo_registry Map.empty
      = Some (Inr (''aaaaaaaa'', False, False, demo_secret), ?r1, dk1)"
    using demo_random [OF demo_get(2) demo_generate, of id 5 "[]" Map.empty]
    by (auto simp: register_client_eq client_cfg_sel)
  have "Get ?r1 ''baaaaaaa'' = None" by (simp add: reg_simps) (simp add: Get_def demo_registry_def)
  from demo_random [OF this demo_generate2, of id 9 demo_secret dk1]
  obtain r3 dk3 where 2: "register_client id demo_io 9 [Inr [1], Inr []]
      (acked ''aaaaaaaa'' False False demo_secret client_cfg) ?r1 dk1
       = Some (Inr (''baaaaaaa'', False, False, demo_secret), r3, dk3)"
    by (auto simp: register_client_eq client_cfg_sel demo_secret_nonempty)
  from default_id_lost [OF client_cfg_sel(1) 1 _ 2, of "[]"] 1 2 show ?thesis by auto
qed

subsection \<open>A response\<close>

lemma run_first:
  assumes "relay_run r0 evs r" and "rl_phase r = Awaiting" and "rl_box r = 0" and "on_first f (rl_rw r) = GoOn rw"
  shows "relay_run r0 (evs @ [RecvFrame]) (r\<lparr>rl_got := rl_got r @ [f], rl_phase := Streaming, rl_rw := rw\<rparr>)"
proof -
  have "\<exists>w'. relay_step RecvFrame (r, boxed [f] False) =
      Some (Inr (r\<lparr>rl_got := rl_got r @ [f], rl_phase := Streaming, rl_rw := rw\<rparr>, w'))"
    using assms(2-4) by (simp add: receive_def on_got_def)
  then show ?thesis using relay_run.snoc [OF assms(1)] by blast
qed

lemma run_next:
  assumes "relay_run r0 evs r" and "rl_phase r = Streaming" and "rl_box r = 0" and "good_chunk f"
  shows "relay_run r0 (evs @ [RecvFrame]) (r\<lparr>rl_got := rl_got r @ [f], rl_phase := Streaming,
    rl_rw := Flush_part (Write_part (Raw (payload f)) (rl_rw r))\<rparr>)"
proof -
  have "\<exists>w'. relay_step RecvFrame (r, boxed [f] False) =
      Some (Inr (r\<lparr>rl_got := rl_got r @ [f], rl_phase := Streaming,
        rl_rw := Flush_part (Write_part (Raw (payload f)) (rl_rw r))\<rparr>, w'))"
    using assms(2-4) by (simp add: receive_def on_got_def on_frame_good)
  then show ?thesis using relay_run.snoc [OF assms(1)] by blast
qed

lemma run_last:
  assumes "relay_run r0 evs r" and "rl_phase r = Streaming" and "rl_box r = 0" and "rl_sess r = 0"
    and "rl_req r = 1" and "\<not> good_chunk f"
  shows "\<exists>r'. relay_run r0 (evs @ [RecvFrame]) r' \<and> rl_got r' = rl_got r @ [f]"
proof -
  have "\<exists>r' w'. relay_step RecvFrame (r, boxed [f] False) = Some (Inr (r', w')) \<and> rl_got r' = rl_got r @ [f]"
    using assms(2-6) by (simp add: receive_def on_got_def on_frame_good leave_def UnregisterPending_def
        close_done_def sess_simps)
  then show ?thesis using relay_run.snoc [OF assms(1)] by blast
qed

lemma demo_awaiting_sel:
  "rl_phase demo_awaiting = Awaiting" "rl_box demo_awaiting = 0" "rl_got demo_awaiting = []"
  "rl_sess demo_awaiting = 0" "rl_req demo_awaiting = 1"
  by (simp_all add: demo_awaiting_def demo_relay_def)

lemma start_goes_on:
  "200 \<le> st \<Longrightarrow> st \<le> 999 \<Longrightarrow> \<exists>rw'. on_first (response_start k st hs) rw = GoOn rw'"
  by (simp add: on_first_def response_start_def writeResponseHeaders_def WriteHeader_def)

lemma response_end_bad: "\<not> good_chunk (response_end k e)"
  by (simp add: good_chunk_def response_end_def)

lemma response_chunk_good: "good_chunk (response_chunk k s bs)"
  by (simp add: good_chunk_def response_chunk_def b64.dec_enc)

lemma demo_exchange:
  assumes "200 \<le> st" and "st \<le> 999"
  shows "\<exists>evs r. relay_run demo_relay evs r \<and>
    rl_got r = response_start k st hs # map (\<lambda>(s, bs). response_chunk k s bs) cs @ [response_end k e]"
proof -
  obtain rw where rw: "on_first (response_start k st hs) (rl_rw demo_awaiting) = GoOn rw"
    using start_goes_on [OF assms] by blast
  have "\<exists>evs r. relay_run demo_relay evs r \<and> rl_phase r = Streaming \<and> rl_box r = 0 \<and> rl_sess r = 0 \<and>
      rl_req r = 1 \<and> rl_got r = response_start k st hs # map (\<lambda>(s, bs). response_chunk k s bs) cs"
  proof (induction cs rule: rev_induct)
    case Nil
    from run_first [OF demo_run_await demo_awaiting_sel(1,2) rw] show ?case
      by (intro exI conjI) (assumption, simp_all add: demo_awaiting_sel)
  next
    case (snoc c cs)
    then obtain evs r where r: "relay_run demo_relay evs r" "rl_phase r = Streaming" "rl_box r = 0"
        "rl_sess r = 0" "rl_req r = 1"
        "rl_got r = response_start k st hs # map (\<lambda>(s, bs). response_chunk k s bs) cs" by blast
    from run_next [OF r(1-3) response_chunk_good [of k "fst c" "snd c"]] r show ?case
      by (intro exI conjI) (assumption, simp_all add: case_prod_unfold)
  qed
  then obtain evs r where r: "relay_run demo_relay evs r" "rl_phase r = Streaming" "rl_box r = 0" "rl_sess r = 0"
      "rl_req r = 1" "rl_got r = response_start k st hs # map (\<lambda>(s, bs). response_chunk k s bs) cs" by blast
  from run_last [OF r(1-5) response_end_bad] r(6) show ?thesis by fastforce
qed

theorem target_error_is_silent_witness:
  "\<exists>evs r. relay_run demo_relay evs r \<and> rw_status (rl_rw r) = Some 502 \<and> rw_body (rl_rw r) = []"
proof -
  obtain evs r where r: "relay_run demo_relay evs r" "rl_got r = error_frames 1 ''connection refused''"
    using demo_exchange [of 502 1 "[]" "[]" "''connection refused''"] by (auto simp: error_frames_def)
  from target_error_is_silent [OF demo_opened r] r(1) show ?thesis by blast
qed

end
