(* ===== verification/Wire.thy ===== *)
theory Wire
  imports System
begin

text \<open>
  The transition system of a request across the connection: one relay handler, the server around it,
  the two directions of the tunnel's WebSocket, and the client at the other end, all moving at their
  own pace.  The state \<open>link\<close> holds the whole server (\<open>World\<close>), the handler of one request, and
  the client with its connection loop.  What the server's writer has put on the wire is what the
  client reads, in JSON, and what the client has written to this connection is what the session's
  read loop reads; each side has read some prefix so far (\<open>lk_down\<close>, \<open>lk_up\<close>).  Everything else
  the two programs do goes on in between: other connections and requests, polls, pings, disconnects,
  closing, goroutines of other requests, stops and reconnect requests.  The last section says which
  of the messages are about one request.
\<close>

section \<open>The state\<close>

text \<open>\<open>lk_conn\<close> is the number that the client gives to this connection.\<close>

record link =
  lk_r :: relay
  lk_w :: World
  lk_c :: runner
  lk_conn :: nat
  lk_down :: nat
  lk_up :: nat

definition downlink :: "link \<Rightarrow> json list" where
  "downlink l = s_wire (w_sess (lk_w l) (rl_sess (lk_r l)))"

definition sent_on :: "nat \<Rightarrow> client \<Rightarrow> frame list" where
  "sent_on g c = map snd (filter (\<lambda>m. fst m = g) (cl_wire c))"

definition uplink :: "link \<Rightarrow> frame list" where
  "uplink l = sent_on (lk_conn l) (rn_client (lk_c l))"

section \<open>The moves\<close>

text \<open>A move of the rest of the server: it does not read this session's messages (\<open>ServerReads\<close> does)
  and leaves the handler's request identifier and mailbox to the handler.\<close>

fun others :: "sid \<Rightarrow> reqid \<Rightarrow> addr \<Rightarrow> server_op \<Rightarrow> bool" where
  "others i k a (Read en rp data j) \<longleftrightarrow> j \<noteq> i"
| "others i k a (RelayRegister j k') \<longleftrightarrow> (j, k') \<noteq> (i, k)"
| "others i k a (RelayUnregister j k') \<longleftrightarrow> (j, k') \<noteq> (i, k)"
| "others i k a (RelaySend pick j f) \<longleftrightarrow> (j, f_ReqID f) \<noteq> (i, k)"
| "others i k a (RelayReceive b) \<longleftrightarrow> b \<noteq> a"
| "others i k a _ \<longleftrightarrow> True"

text \<open>A move of the client that neither reads a message nor opens another connection.\<close>

fun apart :: "event \<Rightarrow> bool" where
  "apart (Main (ReadMessage (Inr data) werr io)) \<longleftrightarrow> False"
| "apart (Main (GotAck (Inr data) io)) \<longleftrightarrow> False"
| "apart (Main (Dialed None)) \<longleftrightarrow> False"
| "apart _ \<longleftrightarrow> True"

datatype link_op =
    Handler relay_event
  | Serve server_op
  | ServerReads env route_pick
  | ClientReads "go_error option" power_io
  | ClientMoves event

definition no_panic :: "(panic + 'a) option \<Rightarrow> 'a option" where
  "no_panic res = (case res of Some (Inr x) \<Rightarrow> Some x | _ \<Rightarrow> None)"

fun link_step :: "link_op \<Rightarrow> link \<Rightarrow> link option" where
  "link_step (Handler ev) l =
     map_option (\<lambda>(r, w). l\<lparr>lk_r := r, lk_w := w\<rparr>) (no_panic (relay_step ev (lk_r l, lk_w l)))"
| "link_step (Serve q) l =
     (if others (rl_sess (lk_r l)) (rl_req (lk_r l)) (rl_box (lk_r l)) q
      then map_option (\<lambda>w. l\<lparr>lk_w := w\<rparr>) (no_panic (server_exec q (lk_w l))) else None)"
| "link_step (ServerReads en rp) l =
     (if lk_up l < length (uplink l)
      then map_option (\<lambda>w. l\<lparr>lk_w := w, lk_up := Suc (lk_up l)\<rparr>)
             (no_panic (server_exec (Read en rp (Some (Marshal (uplink l ! lk_up l))) (rl_sess (lk_r l))) (lk_w l)))
      else None)"
| "link_step (ClientReads werr io) l =
     (if lk_down l < length (downlink l) \<and> cl_conn (rn_client (lk_c l)) = Some (lk_conn l)
      then map_option (\<lambda>c. l\<lparr>lk_c := c, lk_down := Suc (lk_down l)\<rparr>)
             (client_step (Main (ReadMessage (Inr (Some (downlink l ! lk_down l))) werr io)) (lk_c l))
      else None)"
| "link_step (ClientMoves ev) l =
     (if apart ev then map_option (\<lambda>c. l\<lparr>lk_c := c\<rparr>) (client_step ev (lk_c l)) else None)"

text \<open>The handler's events of a run, and those of the client's goroutine \<open>j\<close>.\<close>

fun handler_event :: "link_op \<Rightarrow> relay_event list" where
  "handler_event (Handler ev) = [ev]"
| "handler_event _ = []"

definition handler_events :: "link_op list \<Rightarrow> relay_event list" where
  "handler_events ops = concat (map handler_event ops)"

fun fw_event_of :: "nat \<Rightarrow> link_op \<Rightarrow> fw_event list" where
  "fw_event_of j (ClientMoves (Env (Forwarding i ev))) = (if i = j then [ev] else [])"
| "fw_event_of j _ = []"

definition fw_events :: "nat \<Rightarrow> link_op list \<Rightarrow> fw_event list" where
  "fw_events j ops = concat (map (fw_event_of j) ops)"

section \<open>Messages about a request\<close>

text \<open>The frames that a peer makes of messages: those that do not decode are skipped.\<close>

fun frames_in :: "json list \<Rightarrow> frame list" where
  "frames_in [] = []"
| "frames_in (b # bs) =
     (case Unmarshal (Some b) zero_frame of None \<Rightarrow> frames_in bs | Some f \<Rightarrow> f # frames_in bs)"

definition concerns :: "reqid \<Rightarrow> json \<Rightarrow> bool" where
  "concerns k b \<longleftrightarrow> (case Unmarshal (Some b) zero_frame of None \<Rightarrow> False | Some f \<Rightarrow> about k f)"

text \<open>What the other end sees of a frame: the headers are sorted by the encoding of the map.\<close>

definition on_wire :: "frame \<Rightarrow> frame" where
  "on_wire f = f\<lparr>f_Headers := sort_key fst (f_Headers f)\<rparr>"

lemma frames_in_append [simp]: "frames_in (bs @ cs) = frames_in bs @ frames_in cs"
  by (induction bs) (simp_all split: option.split)

lemma frames_in_concerns: "filter (about k) (frames_in bs) = frames_in (filter (concerns k) bs)"
  by (induction bs) (auto simp: concerns_def split: option.splits)

lemma frames_in_Marshal: "list_all valid_frame fs \<Longrightarrow> frames_in (map Marshal fs) = map on_wire fs"
  by (induction fs) (simp_all add: decode_Marshal on_wire_def)

lemma on_wire_sel [simp]:
  "f_Type (on_wire f) = f_Type f" "f_ReqID (on_wire f) = f_ReqID f" "f_Seq (on_wire f) = f_Seq f"
  "f_Data (on_wire f) = f_Data f" "f_HasBody (on_wire f) = f_HasBody f" "f_Status (on_wire f) = f_Status f"
  "f_Headers (on_wire f) = sort_key fst (f_Headers f)" "f_Error (on_wire f) = f_Error f"
  by (simp_all add: on_wire_def)

lemma payload_on_wire [simp]: "payload (on_wire f) = payload f"
  by (simp add: payload_def)

lemma concerns_Marshal:
  assumes "concerns k (Marshal f)"
  shows "f_ReqID f = k" and "utf8_coerce (f_Type f) \<in> {''request_start'', ''request_chunk'', ''request_end'', ''cancel''}"
proof -
  obtain f' where f': "Unmarshal (Some (Marshal f)) zero_frame = Some f'" "about k f'"
    using assms unfolding concerns_def by (auto split: option.splits)
  note ids = Marshal_ids [OF f'(1)]
  from f'(2) show "f_ReqID f = k" "utf8_coerce (f_Type f) \<in> {''request_start'', ''request_chunk'', ''request_end'', ''cancel''}"
    unfolding about_def ids by blast+
qed

lemma plain_unconcerned:
  assumes "is_ascii (f_Type f)"
    and "f_Type f \<notin> {''request_start'', ''request_chunk'', ''request_end'', ''cancel''}"
  shows "\<not> concerns k (Marshal f)"
proof
  assume "concerns k (Marshal f)"
  from concerns_Marshal(2) [OF this] assms(2) show False
    by (simp only: utf8_coerce_valid [OF valid_utf8_ascii [OF assms(1)]])
qed

text \<open>The frames of the server that are not about any request.\<close>

lemma unconcerned:
  "\<not> concerns k (Marshal (frame_ping now))" "\<not> concerns k (Marshal (hello_ack t ru de s))"
  "\<not> concerns k (Marshal (hello_nack e))" "\<not> concerns k (Marshal (zero_frame\<lparr>f_Type := ''get_stats''\<rparr>))"
  by (rule plain_unconcerned; simp add: frame_ping_def hello_ack_def hello_nack_def)+

text \<open>The answers about \<open>k\<close> that the server makes of what the client has written.\<close>

definition heard :: "reqid \<Rightarrow> frame list \<Rightarrow> frame list" where
  "heard k fs = filter (\<lambda>f. is_response f \<and> f_ReqID f = k) (frames_in (map Marshal fs))"

lemma heard_append [simp]: "heard k (fs @ gs) = heard k fs @ heard k gs"
  by (simp add: heard_def)

lemma heard_Nil [simp]: "heard k [] = []"
  by (simp add: heard_def)

lemma is_response_decoded:
  assumes "Unmarshal (Some (Marshal f)) zero_frame = Some f'" and "is_ascii (f_Type f)"
  shows "is_response f' = is_response f"
  using Marshal_ids(2) [OF assms(1)] valid_utf8_ascii [OF assms(2)] by (simp add: is_response_def)

lemma heard_none:
  assumes "\<And>f. f \<in> set fs \<Longrightarrow> f_ReqID f \<noteq> k \<or> is_ascii (f_Type f) \<and> \<not> is_response f"
  shows "heard k fs = []"
  using assms
proof (induction fs)
  case (Cons f fs)
  have "heard k [f] = []"
  proof (cases "Unmarshal (Some (Marshal f)) zero_frame")
    case (Some f')
    with Cons.prems [of f] Marshal_ids(1) [OF Some] is_response_decoded [OF Some] show ?thesis
      by (auto simp: heard_def)
  qed (simp add: heard_def)
  then show ?case using Cons heard_append [of k "[f]" fs] by simp
qed simp

lemma heard_own:
  assumes "list_all valid_frame fs" and "\<And>f. f \<in> set fs \<Longrightarrow> is_response f \<and> f_ReqID f = k"
  shows "heard k fs = map on_wire fs"
proof -
  have "\<forall>f \<in> set (map on_wire fs). is_response f \<and> f_ReqID f = k"
    using assms(2) by (auto simp: is_response_def)
  then show ?thesis using frames_in_Marshal [OF assms(1)] by (simp add: heard_def)
qed
end
