(* ===== verification/LinkServer.thy ===== *)
theory LinkServer
  imports Wire
begin

text \<open>
  The server's end of a link: what has been queued about a request is on the wire, lost with the
  writer, or still in the queue, in this order, and what its mailbox holds, after what the handler
  has taken from it, is the first part of the answers that the read loop has got.  Every move of the
  server (\<open>lane\<close>) and of the handler (\<open>server_inv\<close>) keeps this.
\<close>

section \<open>The server's half\<close>

text \<open>\<open>log\<close> is what has been queued about the request and \<open>rd\<close> what the client has read.  What is queued
  about the request is on the wire, lost with the writer, or still in the queue, in this order.\<close>

definition stream :: "reqid \<Rightarrow> json list \<Rightarrow> json list \<Rightarrow> Session \<Rightarrow> bool" where
  "stream k log rd s \<longleftrightarrow> (\<exists>lost rest. s_wire s = rd @ rest \<and>
     log = filter (concerns k) (s_wire s) @ lost @ filter (concerns k) (s_sendQ s) \<and>
     (lost = [] \<or> s_writeDone s))"

lemma stream_cong:
  "s_wire s' = s_wire s \<Longrightarrow> s_sendQ s' = s_sendQ s \<Longrightarrow> s_writeDone s' = s_writeDone s \<Longrightarrow>
   stream k log rd s' = stream k log rd s"
  by (simp add: stream_def)

lemma stream_queue:
  "stream k log rd s \<Longrightarrow> stream k (log @ filter (concerns k) [b]) rd (s\<lparr>s_sendQ := s_sendQ s @ [b]\<rparr>)"
  by (force simp: stream_def)

lemma stream_write:
  assumes "stream k log rd s" and "\<not> s_writeDone s" and "s_sendQ s = b # q"
  shows "stream k log rd (s\<lparr>s_sendQ := q, s_wire := s_wire s @ [b]\<rparr>)"
    and "stream k log rd (s\<lparr>s_sendQ := q, s_writeDone := True\<rparr>)"
  using assms unfolding stream_def by force+

lemma stream_exit: "stream k log rd s \<Longrightarrow> stream k log rd (s\<lparr>s_writeDone := True\<rparr>)"
  by (force simp: stream_def)

text \<open>\<open>box\<close> is what waits in the handler's mailbox, to which only the request's own identifier leads;
  \<open>live\<close> bounds whether it still does.\<close>

definition lane :: "sid \<Rightarrow> reqid \<Rightarrow> addr \<Rightarrow> json list \<Rightarrow> json list \<Rightarrow> frame list \<Rightarrow> bool \<Rightarrow> World \<Rightarrow> bool" where
  "lane i k a log rd box live w \<longleftrightarrow> i < w_nsess w \<and> a < w_nbox w \<and> pr_ch (w_box w a) = box \<and>
     stream k log rd (w_sess w i) \<and>
     (\<forall>j k'. (k', a) \<in> set (s_pending (w_sess w j)) \<longrightarrow> j = i \<and> k' = k) \<and>
     (map_of (s_pending (w_sess w i)) k = Some a \<longrightarrow> live \<and> \<not> pr_done (w_box w a))"

lemma lane_cong:
  assumes "lane i k a log rd box live w"
    and "w_nsess w \<le> w_nsess w'" and "w_nbox w \<le> w_nbox w'" and "pr_ch (w_box w' a) = pr_ch (w_box w a)"
    and "s_wire (w_sess w' i) = s_wire (w_sess w i)" and "s_sendQ (w_sess w' i) = s_sendQ (w_sess w i)"
    and "s_writeDone (w_sess w' i) = s_writeDone (w_sess w i)"
    and "\<And>j k'. (k', a) \<in> set (s_pending (w_sess w' j)) \<Longrightarrow> (k', a) \<in> set (s_pending (w_sess w j))"
    and "map_of (s_pending (w_sess w' i)) k = Some a \<Longrightarrow>
      map_of (s_pending (w_sess w i)) k = Some a \<and> (pr_done (w_box w' a) \<longrightarrow> pr_done (w_box w a))"
  shows "lane i k a log rd box live w'"
  using assms(1-3,8,9) unfolding lane_def assms(4) stream_cong [OF assms(5-7)] by auto

lemma lane_same:
  assumes "lane i k a log rd box live w"
    and "\<And>j. s_pending (w_sess w' j) = s_pending (w_sess w j)" and "w_box w' = w_box w"
    and "w_nsess w' = w_nsess w" and "w_nbox w' = w_nbox w"
    and "s_wire (w_sess w' i) = s_wire (w_sess w i)" and "s_sendQ (w_sess w' i) = s_sendQ (w_sess w i)"
    and "s_writeDone (w_sess w' i) = s_writeDone (w_sess w i)"
  shows "lane i k a log rd box live w'"
  by (rule lane_cong [OF assms(1)]) (simp_all add: assms)

lemma lane_modify_sess:
  assumes "lane i k a log rd box live w"
    and "\<And>s. s_pending (g s) = s_pending s" and "\<And>s. s_wire (g s) = s_wire s"
    and "\<And>s. s_sendQ (g s) = s_sendQ s" and "\<And>s. s_writeDone (g s) = s_writeDone s"
  shows "lane i k a log rd box live (modify_sess j g w)"
  by (rule lane_same [OF assms(1)]) (simp_all add: sess_simps assms)

lemma lane_modify_stream:
  assumes "lane i k a log rd box live w" and "\<And>s. s_pending (g s) = s_pending s"
    and "j = i \<Longrightarrow> stream k log' rd (g (w_sess w i))" and "j \<noteq> i \<Longrightarrow> log' = log"
  shows "lane i k a log' rd box live (modify_sess j g w)"
proof -
  have "stream k log' rd (w_sess (modify_sess j g w) i)"
    using assms by (cases "j = i") (simp_all add: sess_simps lane_def)
  moreover have "s_pending (w_sess (modify_sess j g w) n) = s_pending (w_sess w n)" for n
    using assms(2) by (simp add: sess_simps)
  ultimately show ?thesis using assms(1) by (simp add: lane_def sess_simps(2-4))
qed

lemma lane_modify_reg: "lane i k a log rd box live w \<Longrightarrow> lane i k a log rd box live (modify_reg g w)"
  by (rule lane_same) (simp_all add: sess_simps)

lemma lane_rest:
  "lane i k a log rd box live (w\<lparr>w_reg := r\<rparr>) = lane i k a log rd box live w"
  "lane i k a log rd box live (w\<lparr>w_disk := dk\<rparr>) = lane i k a log rd box live w"
  "lane i k a log rd box live (w\<lparr>w_online := n\<rparr>) = lane i k a log rd box live w"
  by (simp_all add: lane_def)

lemma lane_queue:
  assumes "lane i k a log rd box live w"
  shows "lane i k a (log @ (if j = i then filter (concerns k) [b] else [])) rd box live
    (modify_sess j (\<lambda>s. s\<lparr>s_sendQ := s_sendQ s @ [b]\<rparr>) w)"
  by (rule lane_modify_stream [OF assms]) (use assms stream_queue [of k log rd "w_sess w i" b] in
    \<open>simp_all add: lane_def\<close>)

lemma lane_sendWithContext:
  assumes "lane i k a log rd box live w" and "sendWithContext pick j f w = Some (e, w')"
    and "j = i \<Longrightarrow> \<not> concerns k (Marshal f)"
  shows "lane i k a log rd box live w'"
  using assms(2)
proof (cases rule: sendWithContext_cases)
  case queued
  then show ?thesis using lane_queue [OF assms(1), of j "Marshal f"] assms(3) by (cases "j = i") auto
qed (use assms(1) in simp)

lemma lane_send:
  assumes "lane i k a log rd box live w" and "send pick j f w = Some (e, w')"
    and "j = i \<Longrightarrow> \<not> concerns k (Marshal f)"
  shows "lane i k a log rd box live w'"
  using lane_sendWithContext [OF assms(1) _ assms(3)] assms(2) unfolding send_def by blast

lemmas lane_plain = lane_send [OF _ _ unconcerned(1)] lane_send [OF _ _ unconcerned(2)]
  lane_send [OF _ _ unconcerned(3)] lane_send [OF _ _ unconcerned(4)]

lemma lane_writer_exit:
  "lane i k a log rd box live w \<Longrightarrow> lane i k a log rd box live (writer_exit j w)"
  unfolding writer_exit_def by (rule lane_modify_stream) (auto simp: lane_def stream_exit)

lemma lane_writeTurn:
  assumes l: "lane i k a log rd box live w" and "\<not> s_writeDone (w_sess w j)"
    and t: "writeTurn turn j w = Some (b, w')"
  shows "lane i k a log rd box live w'"
proof (cases turn)
  case (Dequeue ok)
  obtain m q where q: "s_sendQ (w_sess w j) = m # q"
    using t Dequeue by (auto simp: writeTurn_def Let_def split: list.splits)
  have w': "w' = modify_sess j (if ok then (\<lambda>s. s\<lparr>s_sendQ := q, s_wire := s_wire s @ [m]\<rparr>)
      else (\<lambda>s. s\<lparr>s_sendQ := q, s_writeDone := True\<rparr>)) w"
    using t Dequeue q by (auto simp: writeTurn_def writer_exit_def modify_sess_def Let_def split: if_splits)
  show ?thesis
    unfolding w'
    by (rule lane_modify_stream [OF l])
      (use stream_write [of k log rd "w_sess w i" m q] l assms(2) q in \<open>auto simp: lane_def\<close>)
next
  case SeeDone
  with t l show ?thesis by (auto simp: writeTurn_def Let_def split: if_splits intro: lane_writer_exit)
next
  case (Tick pick now)
  have "lane i k a log rd box live w1" if "send pick j (frame_ping now) w = Some (e, w1)" for e w1
    using lane_plain(1) [OF l that] .
  with t l Tick show ?thesis
    by (auto simp: writeTurn_def Let_def split: if_splits option.splits intro: lane_writer_exit)
qed

lemma lane_newSession: "lane i k a log rd box live w \<Longrightarrow> lane i k a log rd box live (snd (newSession now remote w))"
  by (rule lane_cong) (auto simp: newSession_def fresh_session_def lane_def split: if_splits)

lemma set_update_alist: "set (AList.update k v d) \<subseteq> insert (k, v) (set d)"
  by (induction d) auto

lemma lane_RegisterPending:
  assumes "lane i k a log rd box live w" and "(j, k') \<noteq> (i, k)"
  shows "lane i k a log rd box live (snd (RegisterPending j k' w))"
proof (rule lane_cong [OF assms(1)])
  have a: "a \<noteq> w_nbox w" using assms(1) by (simp add: lane_def)
  then show "(n, a) \<in> set (s_pending (w_sess w l))"
    if "(n, a) \<in> set (s_pending (w_sess (snd (RegisterPending j k' w)) l))" for l n
    using that set_update_alist [of k' "w_nbox w" "s_pending (w_sess w j)"]
    by (auto simp: RegisterPending_def Let_def sess_simps split: if_splits)
  show "map_of (s_pending (w_sess w i)) k = Some a \<and>
      (pr_done (w_box (snd (RegisterPending j k' w)) a) \<longrightarrow> pr_done (w_box w a))"
    if "map_of (s_pending (w_sess (snd (RegisterPending j k' w)) i)) k = Some a"
    using that assms(2) a by (auto simp: RegisterPending_def Let_def sess_simps split: if_splits)
  show "pr_ch (w_box (snd (RegisterPending j k' w)) a) = pr_ch (w_box w a)"
    using a by (simp add: RegisterPending_def Let_def sess_simps)
qed (simp_all add: RegisterPending_def Let_def sess_simps)

lemma close_boxes_rest:
  "close_boxes bs w = Inr w' \<Longrightarrow> w_sess w' = w_sess w \<and> w_nbox w' = w_nbox w \<and> w_nsess w' = w_nsess w \<and>
     pr_ch (w_box w' a) = pr_ch (w_box w a) \<and> (pr_done (w_box w' a) \<longrightarrow> pr_done (w_box w a) \<or> a \<in> set bs)"
proof (induction bs arbitrary: w)
  case (Cons b bs)
  then show ?case by (fastforce simp: close_done_def sess_simps split: if_splits)
qed simp

lemma lane_close_offline: "lane i k a log rd box live (close_offline j w) = lane i k a log rd box live w"
  by (simp add: lane_def close_offline_sel)

lemma lane_close:
  assumes l: "lane i k a log rd box live w" and c: "close j w = Inr w'"
  shows "lane i k a log rd box live w'"
proof (cases "s_closed (w_sess w j)")
  case False
  define w1 where "w1 = modify_sess j (\<lambda>s. s\<lparr>s_closed := True, s_connClosed := True, s_done := True\<rparr>) w"
  obtain w2 where w2: "close_boxes (map snd (s_pending (w_sess w1 j))) w1 = Inr w2"
      "w' = close_offline j (modify_sess j (\<lambda>s. s\<lparr>s_pending := []\<rparr>) w2)"
    using c False by (auto simp: close_def close_signal_def close_pending_def w1_def modify_sess_def
        split: if_splits sum.splits)
  note b = close_boxes_rest [OF w2(1)]
  have "lane i k a log rd box live (modify_sess j (\<lambda>s. s\<lparr>s_pending := []\<rparr>) w2)"
  proof (rule lane_cong [OF l])
    fix n k'
    assume "(k', a) \<in> set (s_pending (w_sess (modify_sess j (\<lambda>s. s\<lparr>s_pending := []\<rparr>) w2) n))"
    with b show "(k', a) \<in> set (s_pending (w_sess w n))"
      by (auto simp: sess_simps w1_def split: if_splits)
  next
    assume "map_of (s_pending (w_sess (modify_sess j (\<lambda>s. s\<lparr>s_pending := []\<rparr>) w2) i)) k = Some a"
    with b have ij: "i \<noteq> j" and m: "map_of (s_pending (w_sess w i)) k = Some a"
      by (auto simp: sess_simps w1_def split: if_splits)
    have "a \<notin> snd ` set (s_pending (w_sess w1 j))"
      using l ij by (auto simp: lane_def w1_def sess_simps)
    with b m show "map_of (s_pending (w_sess w i)) k = Some a \<and>
        (pr_done (w_box (modify_sess j (\<lambda>s. s\<lparr>s_pending := []\<rparr>) w2) a) \<longrightarrow> pr_done (w_box w a))"
      by (auto simp: sess_simps w1_def)
  qed (use b in \<open>simp_all add: sess_simps w1_def\<close>)
  then show ?thesis by (simp add: w2(2) lane_close_offline)
qed (use assms in \<open>simp add: close_def\<close>)

lemma lane_kick:
  "lane i k a log rd box live w \<Longrightarrow> kick old j w = Inr w' \<Longrightarrow> lane i k a log rd box live w'"
  by (auto simp: kick_def split: option.splits if_splits intro: lane_close)

text \<open>Leaving the mailbox: any other handler's does not matter; the handler's own ends the delivery.\<close>

lemma lane_UnregisterPending:
  assumes l: "lane i k a log rd box live w" and u: "UnregisterPending j k' w = Inr w'"
  shows "lane i k a log rd box live w'"
proof (cases "map_of (s_pending (w_sess w j)) k'")
  case (Some b)
  then have w': "w' = modify_sess j (\<lambda>s. s\<lparr>s_pending := AList.delete k' (s_pending s)\<rparr>)
      (modify_box b (\<lambda>p. p\<lparr>pr_done := True\<rparr>) w)"
    using u by (auto simp: UnregisterPending_def close_done_def split: if_splits)
  have b: "b = a \<Longrightarrow> j = i \<and> k' = k" using l map_of_SomeD [OF Some] by (auto simp: lane_def)
  show ?thesis
  proof (rule lane_cong [OF l])
    assume "map_of (s_pending (w_sess w' i)) k = Some a"
    then have m: "map_of (s_pending (w_sess w i)) k = Some a" and n: "(j, k') \<noteq> (i, k)"
      by (auto simp: w' sess_simps map_of_delete_cases split: if_splits)
    with b show "map_of (s_pending (w_sess w i)) k = Some a \<and>
        (pr_done (w_box w' a) \<longrightarrow> pr_done (w_box w a))"
      by (auto simp: w' sess_simps)
  qed (auto simp: w' sess_simps AList.delete_eq split: if_splits)
qed (use assms in \<open>simp add: UnregisterPending_def\<close>)

lemma lane_modify_box:
  assumes "lane i k a log rd box live w" and "b \<noteq> a"
  shows "lane i k a log rd box live (modify_box b h w)"
  by (rule lane_cong [OF assms(1)]) (use assms(2) in \<open>simp_all add: sess_simps\<close>)

lemma lane_receive_other:
  "lane i k a log rd box live w \<Longrightarrow> receive b w = Some (f, w') \<Longrightarrow> b \<noteq> a \<Longrightarrow> lane i k a log rd box live w'"
  by (auto simp: receive_def split: list.splits intro: lane_modify_box)

lemma lane_NextReqID:
  "lane i k a log rd box live w \<Longrightarrow> NextReqID j w = Some (n, w') \<Longrightarrow> lane i k a log rd box live w'"
  by (auto simp: NextReqID_def split: option.splits intro: lane_modify_sess)

lemma lane_poll:
  "lane i k a log rd box live w \<Longrightarrow> poll picks ts w = Some w' \<Longrightarrow> lane i k a log rd box live w'"
  by (induction ts arbitrary: w) (auto split: option.splits dest: lane_plain(4))

lemma lane_touch: "lane i k a log rd box live w \<Longrightarrow> lane i k a log rd box live (touch now j w)"
  unfolding touch_def by (rule lane_modify_sess) simp_all

lemma lane_onHello:
  assumes l: "lane i k a log rd box live w" and h: "onHello en j f w = Some (Inr (out, w'))"
  shows "lane i k a log rd box live w'"
proof -
  have rej: "lane i k a log rd box live v'"
    if "lane i k a log rd box live v" "reject en j reason v = Some (Inr (out, v'))" for v v' reason
    using that by (auto simp: reject_def dest: lane_plain(3))
  have hello: "lane i k a log rd box live v" if hh: "handleHello en j f w = Some (Inr (e, v))" for e v
  proof -
    obtain x where x: "Register (e_iter en) (e_io en) (e_now en) (e_draws en) (f_DesiredId f)
        (f_Secret f) (w_reg w) (w_disk w) = Some x"
      using hh unfolding handleHello_def
      by (cases "Register (e_iter en) (e_io en) (e_now en) (e_draws en) (f_DesiredId f) (f_Secret f) (w_reg w) (w_disk w)")
        simp_all
    obtain res r' dk' where r: "Register (e_iter en) (e_io en) (e_now en) (e_draws en) (f_DesiredId f)
        (f_Secret f) (w_reg w) (w_disk w) = Some (res, r', dk')"
      using x by (cases x) simp
    let ?w = "w\<lparr>w_reg := r', w_disk := dk'\<rparr>"
    have lw: "lane i k a log rd box live ?w" using l by (simp add: lane_rest)
    show ?thesis
    proof (cases res)
      case (Inl x)
      with hh r lw show ?thesis by (simp add: handleHello_def)
    next
      case (Inr q)
      obtain tid ru de sec where q: "q = (tid, ru, de, sec)" by (cases q)
      obtain old w1 where s: "swap_session j tid ?w = (old, w1)" by (cases "swap_session j tid ?w")
      have l1: "lane i k a log rd box live w1"
        using lw s by (auto simp: swap_session_def intro!: lane_modify_reg lane_modify_sess)
      obtain w2 where w2: "kick old j w1 = Inr w2"
          "send (e_ack en) j (hello_ack tid ru de sec) (w2\<lparr>w_online := w_online w2 + 1\<rparr>) = Some (e, v)"
        using hh r s Inr q by (auto simp: handleHello_def split: sum.splits)
      have "lane i k a log rd box live (w2\<lparr>w_online := w_online w2 + 1\<rparr>)"
        using lane_kick [OF l1 w2(1)] by (simp add: lane_rest)
      then show ?thesis by (rule lane_plain(2) [OF _ w2(2)])
    qed
  qed
  show ?thesis
    using l h hello rej
    by (auto simp: onHello_def split: if_splits option.splits sum.splits intro!: lane_modify_sess)
qed

lemma lane_onStats: "lane i k a log rd box live w \<Longrightarrow> lane i k a log rd box live (onStats en j f w)"
  by (auto simp: onStats_def Let_def lane_rest lane_modify_reg split: option.split)

text \<open>What a message of session \<open>j\<close> puts into the mailbox.\<close>

definition arriving :: "sid \<Rightarrow> reqid \<Rightarrow> addr \<Rightarrow> World \<Rightarrow> frame \<Rightarrow> frame list" where
  "arriving i k a w f = (if is_response f \<and> f_ReqID f = k \<and> map_of (s_pending (w_sess w i)) k = Some a then [f] else [])"

lemma lane_box_snoc:
  "lane i k a log rd box live w \<Longrightarrow> lane i k a log rd (box @ [f]) live (modify_box a (\<lambda>p. p\<lparr>pr_ch := pr_ch p @ [f]\<rparr>) w)"
  by (simp add: lane_def sess_simps)

lemma lane_routeResponse:
  assumes l: "lane i k a log rd box live w" and r: "routeResponse rp j f w = Some w'"
  shows "lane i k a log rd (box @ (if j = i \<and> f_ReqID f = k \<and> map_of (s_pending (w_sess w i)) k = Some a
    then [f] else [])) live w'"
proof (cases "map_of (s_pending (w_sess w j)) (f_ReqID f)")
  case None
  with assms show ?thesis by (auto simp: routeResponse_def)
next
  case (Some b)
  have ba: "b = a \<Longrightarrow> j = i \<and> f_ReqID f = k" using l map_of_SomeD [OF Some] by (auto simp: lane_def)
  show ?thesis
  proof (cases "b = a")
    case True
    then have "\<not> pr_done (w_box w a)" using l Some ba by (auto simp: lane_def)
    with True Some r ba have "w' = modify_box a (\<lambda>p. p\<lparr>pr_ch := pr_ch p @ [f]\<rparr>) w"
      by (auto simp: routeResponse_def split: route_pick.splits if_splits)
    with True Some ba lane_box_snoc [OF l, of f] show ?thesis by simp
  next
    case False
    then have "lane i k a log rd box live w'"
      using r Some l by (auto simp: routeResponse_def split: route_pick.splits if_splits intro: lane_modify_box)
    with False Some show ?thesis by auto
  qed
qed

lemma lane_readTurn:
  assumes l: "lane i k a log rd box live w" and r: "readTurn en rp data j w = Some (Inr (out, w'))"
  shows "lane i k a log rd
    (box @ (if j = i then concat (map (arriving i k a w) (case Unmarshal data zero_frame of None \<Rightarrow> [] | Some f \<Rightarrow> [f])) else []))
    live w'"
proof -
  let ?w = "touch (e_now en) j w"
  have lt: "lane i k a log rd box live ?w" by (rule lane_touch [OF l])
  have p: "map_of (s_pending (w_sess ?w i)) k = map_of (s_pending (w_sess w i)) k"
    by (simp add: touch_def sess_simps)
  show ?thesis
  proof (cases "Unmarshal data zero_frame")
    case None
    with r lt show ?thesis by (simp add: readTurn_def Let_def)
  next
    case (Some f)
    consider "f_Type f = ''hello''" | "f_Type f = ''stats''" | "is_response f"
      | "f_Type f \<noteq> ''hello''" "f_Type f \<noteq> ''stats''" "\<not> is_response f" by blast
    then show ?thesis
    proof cases
      case 1
      then have "onHello en j f ?w = Some (Inr (out, w'))"
        using r Some by (simp add: readTurn_def Let_def)
      from lane_onHello [OF lt this] 1 Some show ?thesis by (simp add: arriving_def is_response_def)
    next
      case 2
      with r Some lane_onStats [OF lt] show ?thesis
        by (auto simp: readTurn_def Let_def arriving_def is_response_def)
    next
      case 3
      then have "routeResponse rp j f ?w = Some w'"
        using r Some by (auto simp: readTurn_def Let_def is_response_def)
      from lane_routeResponse [OF lt this] p 3 Some show ?thesis
        by (cases "j = i"; cases "f_ReqID f = k") (auto simp: arriving_def split: if_splits)
    next
      case 4
      with r Some lt show ?thesis by (simp add: readTurn_def Let_def arriving_def)
    qed
  qed
qed

lemma lane_readEnd:
  assumes "lane i k a log rd box live w" and "readEnd j w = Inr w'"
  shows "lane i k a log rd box live w'"
proof -
  obtain w1 where w1: "close j w = Inr w1" "close j (modify_sess j (\<lambda>s. s\<lparr>s_reading := False\<rparr>) w1) = Inr w'"
    using assms(2) by (auto simp: readEnd_def split: sum.splits)
  have "lane i k a log rd box live (modify_sess j (\<lambda>s. s\<lparr>s_reading := False\<rparr>) w1)"
    by (rule lane_modify_sess [OF lane_close [OF assms(1) w1(1)]]) simp_all
  then show ?thesis by (rule lane_close [OF _ w1(2)])
qed

lemma lane_readStep:
  assumes l: "lane i k a log rd box live w" and r: "readStep en rp data j w = Some (Inr w')"
  shows "lane i k a log rd
    (box @ (if j = i then concat (map (arriving i k a w) (case Unmarshal data zero_frame of None \<Rightarrow> [] | Some f \<Rightarrow> [f])) else []))
    live w'"
proof -
  obtain out w1 where "readTurn en rp data j w = Some (Inr (out, w1))"
      "out = Continue \<and> w' = w1 \<or> readEnd j w1 = Inr w'"
    using r by (auto simp: readStep_def split: option.splits sum.splits loop_out.splits)
  with lane_readTurn [OF l this(1)] lane_readEnd show ?thesis by blast
qed

text \<open>The rest of the server leaves the lane as it is.\<close>

lemma lane_others:
  assumes l: "lane i k a log rd box live w" and o: "others i k a q" and s: "server_exec q w = Some (Inr w')"
  shows "lane i k a log rd box live w'"
proof (cases q)
  case (Connect now remote)
  with s lane_newSession [OF l] show ?thesis by auto
next
  case (Read en rp data j)
  with s o lane_readStep [OF l, of en rp data j w'] show ?thesis by (auto split: if_splits)
next
  case (ReadFail j)
  with s lane_readEnd [OF l] show ?thesis by (auto split: if_splits)
next
  case (Pong now j)
  with s lane_touch [OF l] show ?thesis by (auto split: if_splits)
next
  case (Write turn j)
  with s lane_writeTurn [OF l] show ?thesis by (auto split: if_splits)
next
  case (RelayID j)
  with s lane_NextReqID [OF l] show ?thesis by auto
next
  case (RelayRegister j k')
  with s o lane_RegisterPending [OF l, of j k'] show ?thesis by auto
next
  case (RelayUnregister j k')
  with s lane_UnregisterPending [OF l] show ?thesis by auto
next
  case (RelaySend pick j f)
  with o concerns_Marshal(1) [of k f] have "j = i \<Longrightarrow> \<not> concerns k (Marshal f)" by auto
  with s RelaySend lane_sendWithContext [OF l, of pick j f] show ?thesis by auto
next
  case (RelayCount tid)
  with s lane_modify_reg [OF l] show ?thesis by auto
next
  case (RelayReceive b)
  with s o lane_receive_other [OF l] show ?thesis by auto
next
  case (Poll iter picks)
  with s lane_poll [OF l] show ?thesis by (auto simp: PollStats_def)
next
  case (Disconnect j)
  with s lane_close [OF l] show ?thesis by (auto split: if_splits)
qed

section \<open>The handler's moves\<close>

abbreviation noted :: "reqid \<Rightarrow> frame list \<Rightarrow> json list" where
  "noted k fs \<equiv> filter (concerns k) (map Marshal fs)"

lemma lane_own_send:
  assumes "lane i k a (noted k fs) rd box live w" and "sendWithContext pick i f w = Some (e, w')"
  shows "lane i k a (noted k (fs @ (if e = None then [f] else []))) rd box live w'"
  using assms(2)
proof (cases rule: sendWithContext_cases)
  case queued
  then show ?thesis using lane_queue [OF assms(1), of i "Marshal f"] by simp
qed (use assms(1) in simp)

lemma lane_leave:
  assumes "lane (rl_sess r) (rl_req r) a log rd box live w" and "leave e rw r w = Inr (r', w')"
  shows "lane (rl_sess r) (rl_req r) a log rd box live w'"
  using assms by (auto simp: leave_def split: sum.splits intro: lane_UnregisterPending)

text \<open>A frame that tells the client to give up may follow the handler's last frame.\<close>

definition parting :: "relay \<Rightarrow> frame list \<Rightarrow> bool" where
  "parting r cs \<longleftrightarrow> cs = [] \<or> cs = [frame_cancel (rl_req r)] \<and> (\<exists>e. rl_phase r = Finished e)"

lemma lane_cancel_and_leave:
  assumes l: "lane (rl_sess r) (rl_req r) a (noted (rl_req r) fs) rd box live w"
    and c: "cancel_and_leave cpick e rw r w = Some (Inr (r', w'))"
  shows "\<exists>cs. parting r' cs \<and> lane (rl_sess r) (rl_req r) a (noted (rl_req r) (fs @ cs)) rd box live w'"
proof -
  obtain x w1 where s: "sendWithContext (with_deadline cpick) (rl_sess r) (frame_cancel (rl_req r)) w = Some (x, w1)"
    and v: "leave e rw r w1 = Inr (r', w')"
    using c by (auto simp: cancel_and_leave_def maybeSendCancel_def send_def)
  have "parting r' (if x = None then [frame_cancel (rl_req r)] else [])"
    using leave_Inr [OF v] by (auto simp: parting_def)
  with lane_leave [OF lane_own_send [OF l s] v] show ?thesis by blast
qed

lemma lane_upload_read:
  assumes l: "lane i k a (noted k fs) rd box live w"
    and u: "upload_read bs rdr pick epick i k s w = Some (out, gs, w')"
  shows "lane i k a (noted k (fs @ gs)) rd box live w'"
proof -
  let ?c = "request_chunk k s bs"
  obtain e w1 where 1: "(if bs = [] then Some (None, w) else sendWithContext pick i ?c w) = Some (e, w1)"
    using u by (auto simp: upload_read_def Let_def split: if_splits option.splits)
  have l1: "lane i k a (noted k (fs @ (if e = None \<and> bs \<noteq> [] then [?c] else []))) rd box live w1"
    using 1 l lane_own_send [OF l, of pick ?c e w1] by (cases "bs = []") auto
  show ?thesis
  proof (cases e)
    case (Some x)
    with u 1 l1 show ?thesis by (auto simp: upload_read_def Let_def)
  next
    case None
    let ?cs = "if bs = [] then [] else [?c]"
    have l2: "lane i k a (noted k (fs @ ?cs)) rd box live w1"
      using l1 None by (cases "bs = []") (simp_all)
    have u2: "(case rdr of
           More \<Rightarrow> Some (UploadMore (if bs = [] then s else s + 1), ?cs, w1)
         | ReadErr e \<Rightarrow> Some (UploadFailed, ?cs, w1)
         | EOF \<Rightarrow>
             (case sendWithContext epick i (request_end k) w1 of
                None \<Rightarrow> None
              | Some (Some e, w2) \<Rightarrow> Some (UploadFailed, ?cs, w2)
              | Some (None, w2) \<Rightarrow> Some (UploadDone, ?cs @ [request_end k], w2))) = Some (out, gs, w')"
      using u 1 None by (simp add: upload_read_def Let_def)
    show ?thesis
    proof (cases rdr)
      case EOF
      then obtain x w2 where x: "sendWithContext epick i (request_end k) w1 = Some (x, w2)"
        "gs = ?cs @ (if x = None then [request_end k] else [])" "w' = w2"
        using u2 by (auto split: option.splits)
      from lane_own_send [OF l2 x(1)] x show ?thesis by simp
    qed (use u2 l2 in auto)
  qed
qed

lemma lane_receive:
  assumes "lane i k a log rd box live w" and "receive a w = Some (f, w')"
  shows "lane i k a log rd (tl box) live w' \<and> box = f # tl box"
  using assms by (auto simp: receive_def lane_def sess_simps split: list.splits)

text \<open>The handler has moved on to \<open>r'\<close>: what it has sent, its farewell included, is queued, and what it
  has got comes from its mailbox.\<close>

definition lane_goes :: "relay \<Rightarrow> json list \<Rightarrow> frame list \<Rightarrow> bool \<Rightarrow> relay \<Rightarrow> World \<Rightarrow> bool" where
  "lane_goes r rd box live r' w' \<longleftrightarrow> (\<exists>cs box'. parting r' cs \<and> rl_got r' @ box' = rl_got r @ box \<and>
     lane (rl_sess r) (rl_req r) (rl_box r) (noted (rl_req r) (rl_sent r' @ cs)) rd box' live w')"

lemma parting_Nil [simp]: "parting r []"
  by (simp add: parting_def)

lemma lane_goesI:
  assumes "rl_got r' @ box' = rl_got r @ box"
    and "lane (rl_sess r) (rl_req r) (rl_box r) (noted (rl_req r) (rl_sent r')) rd box' live w'"
  shows "lane_goes r rd box live r' w'"
  using assms unfolding lane_goes_def by (intro exI [of _ "[]"] exI [of _ box']) simp

lemma lane_goes_cancel:
  assumes "cancel_and_leave c e rw q v = Some (Inr (r', w'))"
    and "rl_sess q = rl_sess r" and "rl_req q = rl_req r" and "rl_got q = rl_got r"
    and "lane (rl_sess r) (rl_req r) (rl_box r) (noted (rl_req r) (rl_sent q)) rd box live v"
  shows "lane_goes r rd box live r' w'"
proof -
  have "r' = q\<lparr>rl_phase := Finished e, rl_rw := rw\<rparr>" by (rule cancel_and_leave_Inr [OF assms(1)])
  with lane_cancel_and_leave [of q "rl_box r" "rl_sent q" rd box live v c e rw r' w'] assms
  show ?thesis by (auto simp: lane_goes_def)
qed

lemma lane_goes_leave:
  assumes "leave e rw q v = Inr (r', w')" and "rl_sess q = rl_sess r" and "rl_req q = rl_req r"
    and "rl_sent q = rl_sent r" and "rl_got q @ box1 = rl_got r @ box"
    and "lane (rl_sess r) (rl_req r) (rl_box r) (noted (rl_req r) (rl_sent r)) rd box1 live v"
  shows "lane_goes r rd box live r' w'"
proof -
  have "r' = q\<lparr>rl_phase := Finished e, rl_rw := rw\<rparr>" by (rule leave_Inr [OF assms(1)])
  with lane_leave [of q "rl_box r" _ rd box1 live v e rw r' w'] assms show ?thesis
    by (intro lane_goesI [of _ box1]) simp_all
qed

lemma lane_goes_SendStart:
  assumes l: "lane (rl_sess r) (rl_req r) (rl_box r) (noted (rl_req r) (rl_sent r)) rd box live w"
    and s: "relay_step (SendStart pick cpick) (r, w) = Some (Inr (r', w'))"
    and st: "rl_phase r = Starting \<Longrightarrow> rl_sent r = []"
  shows "lane_goes r rd box live r' w'"
proof -
  obtain e w1 where e: "sendWithContext pick (rl_sess r) (rl_start r) w = Some (e, w1)"
    and p: "rl_phase r = Starting" using s by (auto split: if_splits option.splits)
  note l1 = lane_own_send [OF l e]
  show ?thesis
  proof (cases e)
    case None
    with s e p l1 st [OF p] lane_modify_reg show ?thesis
      by (intro lane_goesI [of _ box]) (auto simp: count_request_def)
  next
    case (Some x)
    with s e p l1 show ?thesis
      using lane_goes_cancel [of cpick Returned "writeJSON 502 ''tunnel unreachable'' (rl_rw r)" r w1] by simp
  qed
qed

lemma lane_goes_ReadBody:
  assumes l: "lane (rl_sess r) (rl_req r) (rl_box r) (noted (rl_req r) (rl_sent r)) rd box live w"
    and s: "relay_step (ReadBody bs rdr pick epick cpick) (r, w) = Some (Inr (r', w'))"
  shows "lane_goes r rd box live r' w'"
proof -
  obtain sq out gs w1 where u: "rl_phase r = Uploading sq"
      "upload_read bs rdr pick epick (rl_sess r) (rl_req r) sq w = Some (out, gs, w1)"
    using s by (auto split: phase.splits option.splits)
  note l1 = lane_upload_read [OF l u(2)]
  show ?thesis
  proof (cases out)
    case UploadFailed
    with s u l1 lane_goes_cancel [of cpick Returned _ "r\<lparr>rl_sent := rl_sent r @ gs\<rparr>" w1] show ?thesis
      by (simp add: Let_def)
  next
    case (UploadMore s1)
    with s u l1 show ?thesis by (intro lane_goesI [of _ box]) (auto simp: Let_def)
  next
    case UploadDone
    with s u l1 show ?thesis by (intro lane_goesI [of _ box]) (auto simp: Let_def)
  qed
qed

lemma lane_goes_RecvFrame:
  assumes l: "lane (rl_sess r) (rl_req r) (rl_box r) (noted (rl_req r) (rl_sent r)) rd box live w"
    and s: "relay_step RecvFrame (r, w) = Some (Inr (r', w'))"
  shows "lane_goes r rd box live r' w'"
proof -
  obtain f w1 res where f: "receive (rl_box r) w = Some (f, w1)" "on_got res f r w1 = Inr (r', w')"
    using s by (auto split: option.splits phase.splits)
  note l1 = lane_receive [OF l f(1)]
  show ?thesis
  proof (cases res)
    case (GoOn rw)
    with f l1 show ?thesis by (intro lane_goesI [of _ "tl box"]) (auto simp: on_got_def Let_def)
  next
    case (Leave e rw)
    with f l1 show ?thesis
      by (intro lane_goes_leave [of e rw "r\<lparr>rl_got := rl_got r @ [f]\<rparr>" w1 r' w' r "tl box"])
        (auto simp: on_got_def Let_def)
  qed
qed

lemma lane_relay_step:
  assumes l: "lane (rl_sess r) (rl_req r) (rl_box r) (noted (rl_req r) (rl_sent r)) rd box live w"
    and s: "relay_step ev (r, w) = Some (Inr (r', w'))"
    and st: "rl_phase r = Starting \<Longrightarrow> rl_sent r = []"
  shows "lane_goes r rd box live r' w'"
proof (cases ev)
  case (SendStart pick cpick)
  with l s st show ?thesis by (intro lane_goes_SendStart) simp_all
next
  case (ReadBody bs rdr pick epick cpick)
  with l s show ?thesis by (intro lane_goes_ReadBody) simp_all
next
  case RecvFrame
  with l s show ?thesis by (intro lane_goes_RecvFrame) simp_all
next
  case RecvDone
  with s l lane_goes_leave [of Returned _ r w] show ?thesis by (auto split: if_splits phase.splits)
next
  case (TimedOut cpick)
  with s l lane_goes_cancel [of cpick _ _ r w] show ?thesis by (auto split: phase.splits)
next
  case (CallerGone cpick)
  with s l lane_goes_cancel [of cpick _ _ r w] show ?thesis by (auto split: phase.splits)
qed

lemma relay_step_box: "relay_step ev (r, w) = Some (Inr (r', w')) \<Longrightarrow> rl_box r' = rl_box r"
  by (cases rule: relay_step_cases) (auto split: upload_out.splits)

lemma relay_step_finished: "rl_phase r = Finished e \<Longrightarrow> relay_step ev (r, w) = None"
  by (cases ev) (auto split: option.splits)

section \<open>The server and the handler\<close>

definition server_inv :: "link \<Rightarrow> bool" where
  "server_inv l \<longleftrightarrow> (\<exists>cs box m. parting (lk_r l) cs \<and>
     lane (rl_sess (lk_r l)) (rl_req (lk_r l)) (rl_box (lk_r l))
       (noted (rl_req (lk_r l)) (rl_sent (lk_r l) @ cs)) (take (lk_down l) (downlink l)) box (m = lk_up l) (lk_w l) \<and>
     lk_down l \<le> length (downlink l) \<and> m \<le> lk_up l \<and> lk_up l \<le> length (uplink l) \<and>
     rl_got (lk_r l) @ box = heard (rl_req (lk_r l)) (take m (uplink l)))"

lemma lane_read:
  assumes "lane i k a log rd box live w"
  shows "take (length rd) (s_wire (w_sess w i)) = rd" and "length rd \<le> length (s_wire (w_sess w i))"
  using assms by (auto simp: lane_def stream_def)

lemma lane_read_on:
  assumes "lane i k a log rd box live w"
  shows "lane i k a log (take d (s_wire (w_sess w i))) box live w"
proof -
  have "stream k log (take d (s_wire (w_sess w i))) (w_sess w i)"
    using assms unfolding lane_def stream_def by (metis append_take_drop_id)
  with assms show ?thesis by (simp add: lane_def)
qed

lemma lane_live: "lane i k a log rd box live w \<Longrightarrow> (live \<Longrightarrow> live') \<Longrightarrow> lane i k a log rd box live' w"
  by (auto simp: lane_def)

lemma lane_dead:
  "lane i k a log rd box live w \<Longrightarrow> map_of (s_pending (w_sess w i)) k \<noteq> Some a \<Longrightarrow> lane i k a log rd box False w"
  by (simp add: lane_def)

text \<open>What the client still has to read does not change behind its back.\<close>

lemma no_panic_Some [simp]: "no_panic res = Some x \<longleftrightarrow> res = Some (Inr x)"
  by (auto simp: no_panic_def split: option.splits sum.splits)

lemma server_inv_Handler:
  assumes inv: "server_inv l" and s: "link_step (Handler ev) l = Some l'"
    and st: "rl_phase (lk_r l) = Starting \<Longrightarrow> rl_sent (lk_r l) = []"
  shows "server_inv l' \<and> take (lk_down l') (downlink l') = take (lk_down l) (downlink l)"
proof -
  let ?r = "lk_r l" and ?rd = "take (lk_down l) (downlink l)"
  obtain r' w' where s': "relay_step ev (?r, lk_w l) = Some (Inr (r', w'))"
      and l': "l' = l\<lparr>lk_r := r', lk_w := w'\<rparr>" using s by auto
  obtain cs box m where i: "parting ?r cs" "lane (rl_sess ?r) (rl_req ?r) (rl_box ?r)
      (noted (rl_req ?r) (rl_sent ?r @ cs)) ?rd box (m = lk_up l) (lk_w l)"
      "lk_down l \<le> length (downlink l)" "m \<le> lk_up l" "lk_up l \<le> length (uplink l)"
      "rl_got ?r @ box = heard (rl_req ?r) (take m (uplink l))"
    using inv by (auto simp: server_inv_def)
  have "cs = []" using i(1) relay_step_finished [of ?r] s' by (auto simp: parting_def)
  with i(2) have "lane (rl_sess ?r) (rl_req ?r) (rl_box ?r) (noted (rl_req ?r) (rl_sent ?r)) ?rd box (m = lk_up l) (lk_w l)"
    by simp
  from lane_relay_step [OF this s' st] obtain cs' box' where b: "parting r' cs'"
      "rl_got r' @ box' = rl_got ?r @ box" "lane (rl_sess ?r) (rl_req ?r) (rl_box ?r)
        (noted (rl_req ?r) (rl_sent r' @ cs')) ?rd box' (m = lk_up l) w'"
    by (auto simp: lane_goes_def)
  note same = relay_step_same [OF s'] relay_step_box [OF s']
  have d: "take (lk_down l') (downlink l') = ?rd" "lk_down l' \<le> length (downlink l')"
    using lane_read [OF b(3)] i(3) same by (simp_all add: l' downlink_def)
  have u: "uplink l' = uplink l" by (simp add: l' uplink_def)
  have "server_inv l'"
    unfolding server_inv_def
    by (rule exI [of _ cs'], rule exI [of _ box'], rule exI [of _ m])
      (use b i d u same in \<open>simp add: l'\<close>)
  with d show ?thesis by simp
qed

lemma server_inv_Serve:
  assumes inv: "server_inv l" and s: "link_step (Serve q) l = Some l'"
  shows "server_inv l' \<and> take (lk_down l') (downlink l') = take (lk_down l) (downlink l)"
proof -
  let ?r = "lk_r l" and ?rd = "take (lk_down l) (downlink l)"
  obtain w' where w': "others (rl_sess ?r) (rl_req ?r) (rl_box ?r) q" "server_exec q (lk_w l) = Some (Inr w')"
      "l' = l\<lparr>lk_w := w'\<rparr>" using s by (auto split: if_splits)
  obtain cs box m where i: "parting ?r cs" "lane (rl_sess ?r) (rl_req ?r) (rl_box ?r)
      (noted (rl_req ?r) (rl_sent ?r @ cs)) ?rd box (m = lk_up l) (lk_w l)"
      "lk_down l \<le> length (downlink l)" "m \<le> lk_up l" "lk_up l \<le> length (uplink l)"
      "rl_got ?r @ box = heard (rl_req ?r) (take m (uplink l))"
    using inv by (auto simp: server_inv_def)
  note b = lane_others [OF i(2) w'(1,2)]
  have d: "take (lk_down l') (downlink l') = ?rd" "lk_down l' \<le> length (downlink l')"
    using lane_read [OF b] i(3) by (simp_all add: w'(3) downlink_def)
  have u: "uplink l' = uplink l" by (simp add: w'(3) uplink_def)
  have "server_inv l'"
    unfolding server_inv_def
    by (rule exI [of _ cs], rule exI [of _ box], rule exI [of _ m]) (use b i d u in \<open>simp add: w'(3)\<close>)
  with d show ?thesis by simp
qed

lemma server_inv_ServerReads:
  assumes inv: "server_inv l" and s: "link_step (ServerReads en rp) l = Some l'"
  shows "server_inv l' \<and> take (lk_down l') (downlink l') = take (lk_down l) (downlink l)"
proof -
  let ?r = "lk_r l" and ?rd = "take (lk_down l) (downlink l)"
  let ?i = "rl_sess ?r" and ?k = "rl_req ?r" and ?a = "rl_box ?r"
  let ?f = "uplink l ! lk_up l"
  obtain w' where w': "lk_up l < length (uplink l)" "l' = l\<lparr>lk_w := w', lk_up := Suc (lk_up l)\<rparr>"
      "readStep en rp (Some (Marshal ?f)) ?i (lk_w l) = Some (Inr w')"
    using s by (auto split: if_splits)
  obtain cs box m where i: "parting ?r cs" "lane ?i ?k ?a
      (noted ?k (rl_sent ?r @ cs)) ?rd box (m = lk_up l) (lk_w l)"
      "lk_down l \<le> length (downlink l)" "m \<le> lk_up l" "lk_up l \<le> length (uplink l)"
      "rl_got ?r @ box = heard ?k (take m (uplink l))"
    using inv by (auto simp: server_inv_def)
  have u: "uplink l' = uplink l" by (simp add: w'(2) uplink_def)
  have "\<exists>box' m'. lane ?i ?k ?a (noted ?k (rl_sent ?r @ cs)) ?rd box' (m' = Suc (lk_up l)) w' \<and>
      m' \<le> Suc (lk_up l) \<and> rl_got ?r @ box' = heard ?k (take m' (uplink l))"
  proof (cases "map_of (s_pending (w_sess (lk_w l) ?i)) ?k = Some ?a")
    case True
    then have m: "m = lk_up l" using i(2) by (simp add: lane_def)
    let ?box = "box @ heard ?k [?f]"
    have "concat (map (arriving ?i ?k ?a (lk_w l))
        (case Unmarshal (Some (Marshal ?f)) zero_frame of None \<Rightarrow> [] | Some f \<Rightarrow> [f])) = heard ?k [?f]"
      using True by (auto simp: heard_def arriving_def split: option.split)
    with lane_readStep [OF i(2) w'(3)] have "lane ?i ?k ?a (noted ?k (rl_sent ?r @ cs)) ?rd ?box (m = lk_up l) w'"
      by simp
    then have "lane ?i ?k ?a (noted ?k (rl_sent ?r @ cs)) ?rd ?box (Suc (lk_up l) = Suc (lk_up l)) w'"
      by (rule lane_live) simp
    moreover have "rl_got ?r @ ?box = heard ?k (take (Suc (lk_up l)) (uplink l))"
      using i(6) m w'(1) by (simp add: take_Suc_conv_app_nth)
    ultimately show ?thesis by blast
  next
    case False
    have "concat (map (arriving ?i ?k ?a (lk_w l))
        (case Unmarshal (Some (Marshal ?f)) zero_frame of None \<Rightarrow> [] | Some f \<Rightarrow> [f])) = []"
      using False by (auto simp: arriving_def split: option.split)
    with lane_readStep [OF lane_dead [OF i(2) False] w'(3)]
    have "lane ?i ?k ?a (noted ?k (rl_sent ?r @ cs)) ?rd box False w'" by simp
    then have "lane ?i ?k ?a (noted ?k (rl_sent ?r @ cs)) ?rd box (m = Suc (lk_up l)) w'"
      by (rule lane_live) simp
    with i(4,6) show ?thesis by (intro exI [of _ box] exI [of _ m]) simp
  qed
  then obtain box' m' where b: "lane ?i ?k ?a (noted ?k (rl_sent ?r @ cs)) ?rd box' (m' = Suc (lk_up l)) w'"
      "m' \<le> Suc (lk_up l)" "rl_got ?r @ box' = heard ?k (take m' (uplink l))" by blast
  have d: "take (lk_down l') (downlink l') = ?rd" "lk_down l' \<le> length (downlink l')"
    using lane_read [OF b(1)] i(3) by (simp_all add: w'(2) downlink_def)
  have "server_inv l'"
    unfolding server_inv_def
    by (rule exI [of _ cs], rule exI [of _ box'], rule exI [of _ m']) (use b i(1) d u w'(1) in \<open>simp add: w'(2)\<close>)
  with d show ?thesis by simp
qed

lemma server_inv_client:
  assumes inv: "server_inv l" and u: "uplink l' = uplink l @ fs" and "lk_r l' = lk_r l" "lk_w l' = lk_w l"
    "lk_up l' = lk_up l" "lk_down l' \<le> length (downlink l)"
  shows "server_inv l'"
proof -
  obtain cs box m where i: "parting (lk_r l) cs" "lane (rl_sess (lk_r l)) (rl_req (lk_r l)) (rl_box (lk_r l))
      (noted (rl_req (lk_r l)) (rl_sent (lk_r l) @ cs)) (take (lk_down l) (downlink l)) box (m = lk_up l) (lk_w l)"
      "m \<le> lk_up l" "lk_up l \<le> length (uplink l)"
      "rl_got (lk_r l) @ box = heard (rl_req (lk_r l)) (take m (uplink l))"
    using inv by (auto simp: server_inv_def)
  have d: "downlink l' = downlink l" using assms(3,4) by (simp add: downlink_def)
  show ?thesis
    unfolding server_inv_def d assms(3-5) u
    by (rule exI [of _ cs], rule exI [of _ box], rule exI [of _ m])
      (use i lane_read_on [OF i(2), of "lk_down l'"] assms(6) in \<open>simp add: downlink_def\<close>)
qed
end
