(* ===== verification/LinkClient.thy ===== *)
theory LinkClient
  imports Wire
begin

text \<open>
  The client's end of a link: every move but the reading of a message leaves the requests that are
  being collected as they are, only a message starts a goroutine, and what the client has written
  about a request is what the goroutine of that request has sent (\<open>fw_inv\<close>).
\<close>

section \<open>The client's half\<close>

text \<open>What a move of the client does to the connection's frames and to the goroutines, when no goroutine
  moves: no response frame is written, goroutines may be cancelled, and new ones may appear.\<close>

definition idle_move :: "client \<Rightarrow> client \<Rightarrow> bool" where
  "idle_move c c' \<longleftrightarrow> cl_conn c' = cl_conn c \<and>
     (\<exists>ms. cl_wire c' = cl_wire c @ ms \<and> (\<forall>m \<in> set ms. is_ascii (f_Type (snd m)) \<and> \<not> is_response (snd m))) \<and>
     length (cl_fwds c) \<le> length (cl_fwds c') \<and>
     (\<forall>j < length (cl_fwds c). cl_fwds c' ! j = cl_fwds c ! j \<or>
        cl_fwds c' ! j = (cl_fwds c ! j)\<lparr>fw_cancelled := True\<rparr>) \<and>
     (\<forall>j < length (cl_fwds c'). length (cl_fwds c) \<le> j \<longrightarrow>
        (\<exists>k st body. cl_fwds c' ! j = new_forward k st body))"

lemma idle_same:
  "cl_conn c' = cl_conn c \<Longrightarrow> cl_wire c' = cl_wire c \<Longrightarrow> cl_fwds c' = cl_fwds c \<Longrightarrow> idle_move c c'"
  by (simp add: idle_move_def)

lemma idle_trans:
  assumes "idle_move a b" and "cl_conn c = cl_conn b" and "cl_wire c = cl_wire b" and "cl_fwds c = cl_fwds b"
  shows "idle_move a c"
  using assms unfolding idle_move_def assms(2-4) by blast

lemma idle_trans':
  assumes "idle_move b c" and "cl_conn b = cl_conn a" and "cl_wire b = cl_wire a" and "cl_fwds b = cl_fwds a"
  shows "idle_move a c"
  using assms(1) unfolding idle_move_def assms(2-4) by blast

lemma idle_send:
  assumes "is_ascii (f_Type f)" and "\<not> is_response f"
  shows "idle_move c (snd (sendFrame werr f c))"
  by (cases rule: sendFrame_cases [of werr f c]) (use assms in \<open>auto simp: idle_move_def\<close>)

lemma plain_answers:
  "is_ascii (f_Type (frame_pong ts)) \<and> \<not> is_response (frame_pong ts)"
  "is_ascii (f_Type (set_target_ack ok)) \<and> \<not> is_response (set_target_ack ok)"
  "is_ascii (f_Type (stats_frame t)) \<and> \<not> is_response (stats_frame t)"
  "is_ascii (f_Type (hello_frame de se)) \<and> \<not> is_response (hello_frame de se)"
  "is_ascii (f_Type (client_ping ts)) \<and> \<not> is_response (client_ping ts)"
  by (simp_all add: frame_pong_def set_target_ack_def stats_frame_def hello_frame_def client_ping_def is_response_def)

lemma idle_dispatch: "idle_move c (dispatch k c)"
proof (cases "map_of (cl_pending c) k")
  case None
  then show ?thesis by (simp add: dispatch_def idle_same)
next
  case (Some p)
  have "(cl_fwds c @ [new_forward k (p_start p) (assemble (p_chunks p))]) ! j =
      (if j < length (cl_fwds c) then cl_fwds c ! j else new_forward k (p_start p) (assemble (p_chunks p)))"
    if "j < Suc (length (cl_fwds c))" for j
    using that by (auto simp: nth_append less_Suc_eq)
  with Some show ?thesis unfolding idle_move_def by (auto simp: dispatch_def)
qed

lemma idle_handleCancel: "idle_move c (handleCancel k c)"
proof (cases "map_of (cl_active c) k")
  case (Some i)
  let ?fw = "(cl_fwds c ! i)\<lparr>fw_cancelled := True\<rparr>"
  have "(cl_fwds c)[i := ?fw] ! j = cl_fwds c ! j \<or> (cl_fwds c)[i := ?fw] ! j = (cl_fwds c ! j)\<lparr>fw_cancelled := True\<rparr>"
    if "j < length (cl_fwds c)" for j
    using that by (cases "i = j") simp_all
  with Some show ?thesis by (simp add: idle_move_def handleCancel_def Let_def)
qed (simp add: idle_move_def handleCancel_def Let_def)

lemma idle_handle_frame: "idle_move c (handle_frame werr f c)"
proof -
  have st: "idle_move c (handleRequestStart f c)"
    using idle_trans' [OF idle_dispatch, of "c\<lparr>cl_pending := p\<rparr>" c for p]
    by (auto simp: handleRequestStart_def Let_def intro: idle_same)
  have ch: "idle_move c (handleRequestChunk f c)"
    by (auto simp: handleRequestChunk_def intro: idle_same split: option.split)
  have en: "idle_move c (handleRequestEnd f c)"
    by (auto simp: handleRequestEnd_def intro: idle_same idle_dispatch split: option.split)
  have tg: "idle_move c (snd (sendFrame werr (set_target_ack ok) (SetTarget t c)))" for ok t
    by (rule idle_trans' [OF idle_send]) (simp_all add: plain_answers SetTarget_def)
  show ?thesis
    using st ch en tg idle_handleCancel idle_send plain_answers idle_same [of c c]
    by (auto simp: handle_frame_def)
qed

lemma idle_handle_message: "idle_move c (handle_message werr data c)"
  by (auto simp: handle_message_def idle_handle_frame idle_same split: option.split)

text \<open>The moves of the loop and of the other goroutines of the client.\<close>

lemma close_conn_requests [client_simps]: "cl_pending (close_conn io reason c) = cl_pending c"
  by (auto simp: close_conn_def Let_def log_line_def split: prod.splits)

lemma loop_requests [client_simps]:
  "cl_pending (setStatus st c) = cl_pending c" "cl_pending (log_line l m c) = cl_pending c"
  "cl_pending (debugLog m c) = cl_pending c" "cl_pending (engage io c) = cl_pending c"
  "cl_pending (drop_conn c) = cl_pending c" "cl_pending (store_ack cio ack c) = cl_pending c"
  "cl_fwds (drop_conn c) = cl_fwds c" "cl_wire (drop_conn c) = cl_wire c"
  "cl_fwds (store_ack cio ack c) = cl_fwds c" "cl_wire (store_ack cio ack c) = cl_wire c"
  by (auto simp: setStatus_def log_line_def debugLog_def engage_def drop_conn_def store_ack_def Let_def
      split: prod.splits)

lemma failed_requests [client_simps]:
  "cl_pending (rn_client (connect_failed s)) = cl_pending (rn_client s)"
  "cl_fwds (rn_client (connect_failed s)) = cl_fwds (rn_client s)"
  "cl_wire (rn_client (connect_failed s)) = cl_wire (rn_client s)"
  by (simp_all add: connect_failed_def client_simps)

definition calm :: "client \<Rightarrow> client \<Rightarrow> bool" where
  "calm c c' \<longleftrightarrow> idle_move c c' \<and> cl_pending c' = cl_pending c \<and> cl_fwds c' = cl_fwds c"

lemma calm_same:
  "cl_conn c' = cl_conn c \<Longrightarrow> cl_wire c' = cl_wire c \<Longrightarrow> cl_fwds c' = cl_fwds c \<Longrightarrow> cl_pending c' = cl_pending c \<Longrightarrow> calm c c'"
  by (simp add: calm_def idle_same)

lemma calm_send:
  assumes "sendFrame werr f c = (e, c')" and "is_ascii (f_Type f) \<and> \<not> is_response f"
  shows "calm c c'"
proof -
  have "same_core c c'" using assms(1) by (rule same_core_send)
  with idle_send [of f c werr] assms show ?thesis by (simp add: calm_def same_core_def)
qed

lemma calm_then:
  "calm a b \<Longrightarrow> cl_conn c = cl_conn b \<Longrightarrow> cl_wire c = cl_wire b \<Longrightarrow> cl_fwds c = cl_fwds b \<Longrightarrow>
   cl_pending c = cl_pending b \<Longrightarrow> calm a c"
  using idle_trans [of a b c] by (simp add: calm_def)

lemma calm_run:
  assumes "run_step ev s = Some s'" and "apart (Main ev)"
  shows "calm (rn_client s) (rn_client s')"
proof (cases ev)
  case (Loop io)
  with assms show ?thesis by (auto simp: client_simps Let_def intro!: calm_same split: if_splits option.splits)
next
  case (Dialed err)
  with assms show ?thesis by (cases err) (auto simp: client_simps intro!: calm_same split: place.splits)
next
  case (SaidHello werr)
  then obtain de se where p: "rn_place s = Greeting de se" using assms by (auto split: place.splits)
  obtain e c where c: "sendFrame werr (hello_frame de se) (rn_client s) = (e, c)"
    by (cases "sendFrame werr (hello_frame de se) (rn_client s)")
  have "calm (rn_client s) c" by (rule calm_send [OF c plain_answers(4)])
  with SaidHello assms p c show ?thesis
    by (cases e) (auto simp: client_simps elim: calm_then)
next
  case (GotAck res cio)
  with assms obtain x where "res = Inl x" by (cases res) auto
  with GotAck assms show ?thesis
    by (auto simp: read_ack_def client_simps intro!: calm_same split: if_splits)
next
  case (Engaged io)
  with assms show ?thesis by (auto simp: client_simps intro!: calm_same split: if_splits)
next
  case (LoopCtx io)
  with assms show ?thesis by (auto simp: client_simps intro!: calm_same split: if_splits)
next
  case (ReadMessage res werr io)
  with assms obtain x where "res = Inl x" by (cases res) auto
  with ReadMessage assms show ?thesis
    by (auto simp: client_simps Let_def intro!: calm_same split: if_splits)
next
  case (Check io r)
  with assms show ?thesis
    by (auto simp: client_simps sleepBackoff_def Let_def intro!: calm_same split: if_splits)
next
  case (Woke timer)
  with assms show ?thesis by (auto intro!: calm_same split: place.splits if_splits option.splits)
qed

lemma calm_env:
  assumes "env_step ev s = Some s'" and "\<And>j fev. ev \<noteq> Forwarding j fev"
  shows "calm (rn_client s) (rn_client s')"
proof (cases ev)
  case (Ping ts werr io)
  obtain e c where c: "sendFrame werr (client_ping ts) (rn_client s) = (e, c)"
    by (cases "sendFrame werr (client_ping ts) (rn_client s)")
  have "calm (rn_client s) c" by (rule calm_send [OF c plain_answers(5)])
  with Ping assms c show ?thesis by (cases e) (auto simp: client_simps elim: calm_then split: if_splits)
qed (use assms in \<open>auto simp: client_simps Client_Stop_def Client_Reconnect_def SetTarget_def
  intro!: calm_same split: if_splits\<close>)

text \<open>A move of the goroutine \<open>j\<close>: what it adds to its output is what is written to the connection.\<close>

definition tells :: "nat \<Rightarrow> nat \<Rightarrow> client \<Rightarrow> client \<Rightarrow> bool" where
  "tells g j c c' \<longleftrightarrow> cl_conn c = Some g \<and> cl_conn c' = Some g \<and> cl_pending c' = cl_pending c \<and>
     (\<exists>fw. cl_fwds c' = (cl_fwds c)[j := fw] \<and> fw_req fw = fw_req (cl_fwds c ! j) \<and>
        (\<exists>fs. fw_out fw = fw_out (cl_fwds c ! j) @ fs \<and> cl_wire c' = cl_wire c @ map (Pair g) fs \<and>
           (\<forall>f \<in> set fs. is_ascii (f_Type f) \<and> is_response f \<and> f_ReqID f = fw_req fw)))"

lemma tells_trans:
  assumes "tells g j a b" and "tells g j b c" and "j < length (cl_fwds a)"
  shows "tells g j a c"
proof -
  obtain fw fs where 1: "cl_fwds b = (cl_fwds a)[j := fw]" "fw_req fw = fw_req (cl_fwds a ! j)"
      "fw_out fw = fw_out (cl_fwds a ! j) @ fs" "cl_wire b = cl_wire a @ map (Pair g) fs"
      "\<forall>f \<in> set fs. is_ascii (f_Type f) \<and> is_response f \<and> f_ReqID f = fw_req fw"
    using assms(1) by (auto simp: tells_def)
  obtain fx gs where 2: "cl_fwds c = (cl_fwds b)[j := fx]" "fw_req fx = fw_req (cl_fwds b ! j)"
      "fw_out fx = fw_out (cl_fwds b ! j) @ gs" "cl_wire c = cl_wire b @ map (Pair g) gs"
      "\<forall>f \<in> set gs. is_ascii (f_Type f) \<and> is_response f \<and> f_ReqID f = fw_req fx"
    using assms(2) by (auto simp: tells_def)
  have "cl_fwds c = (cl_fwds a)[j := fx] \<and> fw_req fx = fw_req (cl_fwds a ! j) \<and>
      fw_out fx = fw_out (cl_fwds a ! j) @ (fs @ gs) \<and> cl_wire c = cl_wire a @ map (Pair g) (fs @ gs) \<and>
      (\<forall>f \<in> set (fs @ gs). is_ascii (f_Type f) \<and> is_response f \<and> f_ReqID f = fw_req fx)"
    using 1 2 assms(3) by auto
  then show ?thesis using assms(1,2) unfolding tells_def by metis
qed

text \<open>A step that only rewrites the record of the goroutine, or nothing of it.\<close>

lemma tells_quiet:
  assumes "cl_conn c = Some g" and "cl_conn c' = cl_conn c" and "cl_pending c' = cl_pending c"
    and "cl_wire c' = cl_wire c" and "cl_fwds c' = (cl_fwds c)[j := fw]"
    and "fw_req fw = fw_req (cl_fwds c ! j)" and "fw_out fw = fw_out (cl_fwds c ! j)"
  shows "tells g j c c'"
  using assms unfolding tells_def by (auto intro!: exI [of _ "[]"])

lemma tells_goto: "cl_conn c = Some g \<Longrightarrow> tells g j c (fw_goto j ph c)"
  by (rule tells_quiet [where fw = "(cl_fwds c ! j)\<lparr>fw_phase := ph\<rparr>"]) (simp_all add: fw_goto_def)

lemma tells_finish: "cl_conn c = Some g \<Longrightarrow> tells g j c (fw_finish j c)"
  by (rule tells_quiet [where fw = "(cl_fwds c ! j)\<lparr>fw_phase := FwDone, fw_cancelled := True\<rparr>"])
    (simp_all add: fw_finish_def Let_def)

lemma tells_log: "cl_conn c = Some g \<Longrightarrow> tells g j c (debugLog m c)"
  by (rule tells_quiet [where fw = "cl_fwds c ! j"]) (simp_all add: client_simps)

lemma tells_send:
  assumes "cl_conn c = Some g" and "is_ascii (f_Type f) \<and> is_response f" and "f_ReqID f = fw_req (cl_fwds c ! j)"
  shows "tells g j c (snd (fw_send werr f j c))"
proof (cases rule: sendFrame_cases [of werr f c])
  case (failed e)
  then show ?thesis using assms(1) by (simp add: fw_send_def tells_quiet [where fw = "cl_fwds c ! j"])
next
  case (sent h)
  let ?fw = "(cl_fwds c ! j)\<lparr>fw_out := fw_out (cl_fwds c ! j) @ [f]\<rparr>"
  have "cl_fwds (snd (fw_send werr f j c)) = (cl_fwds c)[j := ?fw]"
      "cl_wire (snd (fw_send werr f j c)) = cl_wire c @ map (Pair g) [f]"
      "cl_conn (snd (fw_send werr f j c)) = Some g" "cl_pending (snd (fw_send werr f j c)) = cl_pending c"
    using sent assms(1) by (simp_all add: fw_send_def)
  then show ?thesis using assms unfolding tells_def by (intro conjI exI [of _ ?fw] exI [of _ "[f]"]) simp_all
qed

lemma response_frames:
  "is_ascii (f_Type (response_start k st hs)) \<and> is_response (response_start k st hs)"
  "is_ascii (f_Type (response_chunk k s bs)) \<and> is_response (response_chunk k s bs)"
  "is_ascii (f_Type (response_end k e)) \<and> is_response (response_end k e)"
  "f_ReqID (response_start k st hs) = k" "f_ReqID (response_chunk k s bs) = k" "f_ReqID (response_end k e) = k"
  by (simp_all add: response_start_def response_chunk_def response_end_def is_response_def)

text \<open>Chains of such steps.\<close>

lemma tells_sel:
  "tells g j c c' \<Longrightarrow> cl_conn c' = Some g \<and> length (cl_fwds c') = length (cl_fwds c) \<and>
     (j < length (cl_fwds c) \<longrightarrow> fw_req (cl_fwds c' ! j) = fw_req (cl_fwds c ! j))"
  by (auto simp: tells_def)

lemma tells_then_finish: "tells g j a b \<Longrightarrow> j < length (cl_fwds a) \<Longrightarrow> tells g j a (fw_finish j b)"
  using tells_trans tells_finish tells_sel by metis

lemma tells_then_goto: "tells g j a b \<Longrightarrow> j < length (cl_fwds a) \<Longrightarrow> tells g j a (fw_goto j ph b)"
  using tells_trans tells_goto tells_sel by metis

lemma tells_then_log: "tells g j a b \<Longrightarrow> j < length (cl_fwds a) \<Longrightarrow> tells g j a (debugLog m b)"
  using tells_trans tells_log tells_sel by metis

lemma tells_then_send:
  "tells g j a b \<Longrightarrow> j < length (cl_fwds a) \<Longrightarrow> is_ascii (f_Type f) \<and> is_response f \<Longrightarrow>
   f_ReqID f = fw_req (cl_fwds a ! j) \<Longrightarrow> tells g j a (snd (fw_send werr f j b))"
  using tells_trans tells_send tells_sel by metis

lemma tells_then_error:
  "tells g j a b \<Longrightarrow> j < length (cl_fwds a) \<Longrightarrow> k = fw_req (cl_fwds a ! j) \<Longrightarrow>
   tells g j a (sendError w1 w2 k e j b)"
  unfolding sendError_def
  by (intro tells_then_send response_frames(1,3)) (simp_all add: response_frames)

lemmas tells_chain = tells_then_finish tells_then_goto tells_then_log tells_then_send tells_then_error

lemma forward_step_tells:
  assumes s: "forward_step ev j c = Some c'" and g: "cl_conn c = Some g"
  shows "tells g j c c'"
proof -
  have j: "j < length (cl_fwds c)" by (rule forward_step_length [OF s])
  have refl: "tells g j c c" by (rule tells_quiet [where fw = "cl_fwds c ! j"]) (use g in simp_all)
  note chain = tells_chain [OF _ j]
  show ?thesis
  proof (cases ev)
    case Acquire
    have "tells g j c (c\<lparr>cl_sem := n, cl_active := d\<rparr>)" for n d
      by (rule tells_quiet [where fw = "cl_fwds c ! j"]) (use g in simp_all)
    from tells_then_goto [OF this j] s Acquire show ?thesis by (auto split: if_splits)
  next
    case (Build err w1 w2)
    have "tells g j c (fw_build err w1 w2 j c)"
      by (auto simp: fw_build_def Let_def intro!: chain refl split: option.split)
    with s Build show ?thesis by (auto split: if_splits)
  next
    case (Do res w1 w2)
    have "tells g j c (fw_do res w1 w2 j c)"
    proof (cases res)
      case (Inl e)
      then show ?thesis by (auto simp: fw_do_def intro!: chain refl)
    next
      case (Inr p)
      have "tells g j c (snd (fw_send w1 (response_start (fw_req (cl_fwds c ! j)) (fst p) (snd p)) j c))"
        by (rule tells_send [OF g response_frames(1) response_frames(4)])
      with Inr show ?thesis
        by (auto simp: fw_do_def Let_def split: prod.splits intro!: chain)
    qed
    with s Do show ?thesis by (auto split: if_splits fw_phase.splits)
  next
    case (ReadResp bs rd w1 w2)
    then obtain q where q: "fw_phase (cl_fwds c ! j) = FwStreaming q" and c': "c' = fw_read bs rd w1 w2 q j c"
      using s by (auto split: if_splits fw_phase.splits)
    define sent where "sent = (if bs = [] then (False, c)
      else fw_send w1 (response_chunk (fw_req (cl_fwds c ! j)) q bs) j c)"
    have t: "tells g j c (snd sent)"
      using refl tells_send [OF g response_frames(2) response_frames(5)] by (simp add: sent_def)
    have fin: "tells g j c (fw_finish j (snd (fw_send w2 (response_end (fw_req (cl_fwds c ! j)) e) j b)))"
      if "tells g j c b" for e b
      by (intro chain that response_frames(3)) (simp add: response_frames)
    show ?thesis
      unfolding c' using t
      by (auto simp: fw_read_def Let_def sent_def [symmetric] response_frames
          split: prod.splits read_end.splits intro!: fin chain)
  qed
qed

lemma view_tells: "tells g j c c' \<Longrightarrow> forward_step ev j c = Some c' \<Longrightarrow> view k c' = view k c"
proof -
  assume "tells g j c c'" and s: "forward_step ev j c = Some c'"
  obtain fw' where t: "fw_trans (Client_Target c) ev (cl_fwds c ! j) fw'"
      and f: "cl_fwds c' = (cl_fwds c)[j := fw']" and p: "cl_pending c' = cl_pending c"
    using forward_step_moves [OF s] by (auto simp: fwd_moves_def)
  have same: "fw_req fw' = fw_req (cl_fwds c ! j) \<and> fw_start fw' = fw_start (cl_fwds c ! j) \<and>
      fw_body fw' = fw_body (cl_fwds c ! j)"
    using t by cases simp_all
  define h where "h = (\<lambda>fw :: forwarding. fw\<lparr>fw_phase := fw_phase fw', fw_cancelled := fw_cancelled fw', fw_out := fw_out fw'\<rparr>)"
  have h: "h (cl_fwds c ! j) = fw'" using same by (simp add: h_def)
  have "started_for k ((cl_fwds c)[j := h (cl_fwds c ! j)]) = started_for k (cl_fwds c)"
    by (rule started_for_update) (simp add: h_def)
  then have "started_for k (cl_fwds c') = started_for k (cl_fwds c)" by (simp only: f h)
  with p show ?thesis by (simp add: view_def)
qed

section \<open>The goroutines\<close>

text \<open>The goroutines started for \<open>k\<close> since there were \<open>n\<close> of them, and what they have sent.\<close>

definition since :: "reqid \<Rightarrow> nat \<Rightarrow> forwarding list \<Rightarrow> forwarding list" where
  "since k n fws = filter (\<lambda>fw. fw_req fw = k) (drop n fws)"

definition outs :: "reqid \<Rightarrow> nat \<Rightarrow> forwarding list \<Rightarrow> frame list" where
  "outs k n fws = concat (map fw_out (since k n fws))"

definition signature :: "forwarding \<Rightarrow> reqid \<times> frame list" where
  "signature fw = (fw_req fw, fw_out fw)"

lemma since_signature:
  "map signature (since k n fws) = filter (\<lambda>p. fst p = k) (drop n (map signature fws))"
  by (simp add: since_def drop_map filter_map comp_def signature_def)

lemma outs_signature: "outs k n fws = concat (map snd (filter (\<lambda>p. fst p = k) (drop n (map signature fws))))"
  unfolding since_signature [symmetric] by (simp add: outs_def signature_def comp_def)

lemma idle_signature:
  assumes "idle_move c c'"
  obtains new where "map signature (cl_fwds c') = map signature (cl_fwds c) @ map signature new"
    and "\<And>fw. fw \<in> set new \<Longrightarrow> fw_out fw = []"
proof
  let ?n = "length (cl_fwds c)"
  have "signature (cl_fwds c' ! j) = signature (cl_fwds c ! j)" if "j < ?n" for j
    using assms that by (auto simp: idle_move_def signature_def)
  moreover have "?n \<le> length (cl_fwds c')" using assms by (simp add: idle_move_def)
  ultimately have "map signature (take ?n (cl_fwds c')) = map signature (cl_fwds c)"
    by (intro nth_equalityI) simp_all
  then show "map signature (cl_fwds c') = map signature (cl_fwds c) @ map signature (drop ?n (cl_fwds c'))"
    by (metis append_take_drop_id map_append)
  show "fw_out fw = []" if "fw \<in> set (drop ?n (cl_fwds c'))" for fw
  proof -
    obtain j where "j < length (cl_fwds c') - ?n" "fw = cl_fwds c' ! (?n + j)"
      using \<open>fw \<in> _\<close> by (auto simp: in_set_conv_nth)
    then have "?n + j < length (cl_fwds c')" "?n \<le> ?n + j" "fw = cl_fwds c' ! (?n + j)" by simp_all
    with assms obtain k st body where "fw = new_forward k st body" unfolding idle_move_def by blast
    then show ?thesis by (simp add: new_forward_def)
  qed
qed

lemma idle_outs:
  assumes "idle_move c c'" and "n \<le> length (cl_fwds c)"
  shows "outs k n (cl_fwds c') = outs k n (cl_fwds c)"
    and "length (since k n (cl_fwds c)) \<le> length (since k n (cl_fwds c'))"
proof -
  obtain new where new: "map signature (cl_fwds c') = map signature (cl_fwds c) @ map signature new"
      "\<And>fw. fw \<in> set new \<Longrightarrow> fw_out fw = []"
    using idle_signature [OF assms(1)] by blast
  have "filter (\<lambda>p. fst p = k) (drop n (map signature (cl_fwds c'))) =
      filter (\<lambda>p. fst p = k) (drop n (map signature (cl_fwds c))) @ filter (\<lambda>p. fst p = k) (map signature new)"
    using assms(2) by (simp add: new(1))
  note f = this
  moreover have "concat (map snd (filter (\<lambda>p. fst p = k) (map signature new))) = []"
    using new(2) by (auto simp: signature_def)
  ultimately show "outs k n (cl_fwds c') = outs k n (cl_fwds c)" by (simp add: outs_signature)
  have "length (since k n fws) = length (filter (\<lambda>p. fst p = k) (drop n (map signature fws)))" for fws
    using arg_cong [OF since_signature, of length] by simp
  then show "length (since k n (cl_fwds c)) \<le> length (since k n (cl_fwds c'))" by (simp add: f)
qed

lemma nth_in_drop: "n \<le> j \<Longrightarrow> j < length xs \<Longrightarrow> xs ! j \<in> set (drop n xs)"
  using nth_mem [of "j - n" "drop n xs"] by simp

lemma length_since: "length (since k n fws) = length (filter (\<lambda>x. x = k) (drop n (map fw_req fws)))"
  by (simp add: since_def drop_map filter_map comp_def)

lemma since_update_one:
  assumes "n \<le> j" and "j < length fws" and "fw_req fw = fw_req (fws ! j)"
    and "length (since k n fws) \<le> 1" and "fw_req fw = k"
  shows "since k n fws = [fws ! j]" and "since k n (fws[j := fw]) = [fw]"
proof -
  have "fws ! j \<in> set (since k n fws)"
    using nth_in_drop [OF assms(1,2)] assms(3,5) by (simp add: since_def)
  with assms(4) show s: "since k n fws = [fws ! j]"
    by (cases "since k n fws") (auto simp: le_Suc_eq)
  have "fw \<in> set (since k n (fws[j := fw]))"
    using nth_in_drop [of n j "fws[j := fw]"] assms by (simp add: since_def)
  moreover have "length (since k n (fws[j := fw])) = length (since k n fws)"
  proof -
    have "map fw_req (fws[j := fw]) = map fw_req fws"
      using assms(2,3) by (simp add: map_update list_update_same_conv)
    then show ?thesis by (simp only: length_since)
  qed
  ultimately show "since k n (fws[j := fw]) = [fw]"
    using s by (cases "since k n (fws[j := fw])") auto
qed

text \<open>At first there were \<open>n\<close> goroutines, for the identifiers \<open>rs\<close>.  These have nothing more to say about
  \<open>k\<close>; each newer one has made the moves that the run records for it; and if at most one of these is
  for \<open>k\<close>, what the server can hear about \<open>k\<close> is what that one has sent.\<close>

definition fw_inv :: "reqid \<Rightarrow> nat \<Rightarrow> reqid list \<Rightarrow> link_op list \<Rightarrow> nat \<Rightarrow> client \<Rightarrow> bool" where
  "fw_inv k n rs ops g c \<longleftrightarrow>
     cl_conn c = Some g \<and> n \<le> length (cl_fwds c) \<and> map fw_req (take n (cl_fwds c)) = rs \<and>
     (\<forall>j < n. fw_req (cl_fwds c ! j) = k \<longrightarrow> fw_phase (cl_fwds c ! j) = FwDone) \<and>
     (\<forall>j < length (cl_fwds c). n \<le> j \<longrightarrow>
        (\<exists>k' st body. fw_run (new_forward k' st body) (fw_events j ops) (cl_fwds c ! j))) \<and>
     (\<forall>j. length (cl_fwds c) \<le> j \<longrightarrow> fw_events j ops = []) \<and>
     (length (since k n (cl_fwds c)) \<le> 1 \<longrightarrow> heard k (sent_on g c) = heard k (outs k n (cl_fwds c)))"

lemma fw_events_snoc [simp]: "fw_events j (ops @ [p]) = fw_events j ops @ fw_event_of j p"
  by (simp add: fw_events_def)

lemma sent_on_append:
  "cl_wire c' = cl_wire c @ ms \<Longrightarrow> sent_on g c' = sent_on g c @ map snd (filter (\<lambda>m. fst m = g) ms)"
  by (simp add: sent_on_def)

lemma sent_on_own: "map snd (filter (\<lambda>m. fst m = g) (map (Pair g) fs)) = fs"
  by (induction fs) simp_all

lemma idle_heard:
  assumes "idle_move c c'"
  shows "heard k (sent_on g c') = heard k (sent_on g c)" and "\<exists>fs. sent_on g c' = sent_on g c @ fs"
proof -
  obtain ms where ms: "cl_wire c' = cl_wire c @ ms"
      "\<forall>m \<in> set ms. is_ascii (f_Type (snd m)) \<and> \<not> is_response (snd m)"
    using assms by (auto simp: idle_move_def)
  have "heard k (map snd (filter (\<lambda>m. fst m = g) ms)) = []"
    by (rule heard_none) (use ms(2) in auto)
  then show "heard k (sent_on g c') = heard k (sent_on g c)" "\<exists>fs. sent_on g c' = sent_on g c @ fs"
    by (simp_all add: sent_on_append [OF ms(1)])
qed

lemma fw_inv_idle:
  assumes inv: "fw_inv k n rs ops g c" and i: "idle_move c c'" and p: "\<And>j. fw_event_of j p = []"
  shows "fw_inv k n rs (ops @ [p]) g c'"
proof -
  let ?L = "length (cl_fwds c)"
  have n: "n \<le> ?L" "?L \<le> length (cl_fwds c')" and g: "cl_conn c' = Some g"
    using inv i by (simp_all add: fw_inv_def idle_move_def)
  have old: "cl_fwds c' ! j = cl_fwds c ! j \<or> cl_fwds c' ! j = (cl_fwds c ! j)\<lparr>fw_cancelled := True\<rparr>"
    if "j < ?L" for j using i that by (simp add: idle_move_def)
  have reqs: "map fw_req (take n (cl_fwds c')) = rs"
  proof -
    have r: "fw_req (cl_fwds c' ! j) = fw_req (cl_fwds c ! j)" if "j < ?L" for j using old [OF that] by auto
    have "map fw_req (take n (cl_fwds c')) = map fw_req (take n (cl_fwds c))"
      using n(1,2) by (intro nth_equalityI) (simp_all add: r)
    then show ?thesis using inv by (simp add: fw_inv_def)
  qed
  have over: "fw_phase (cl_fwds c' ! j) = FwDone" if "j < n" "fw_req (cl_fwds c' ! j) = k" for j
    using old [of j] that n inv by (auto simp: fw_inv_def)
  have run: "\<exists>k' st body. fw_run (new_forward k' st body) (fw_events j ops) (cl_fwds c' ! j)"
    if j: "j < length (cl_fwds c')" "n \<le> j" for j
  proof (cases "j < ?L")
    case True
    then obtain k' st body where "fw_run (new_forward k' st body) (fw_events j ops) (cl_fwds c ! j)"
      using inv j(2) by (auto simp: fw_inv_def)
    with old [OF True] fw_run.cancelled show ?thesis by metis
  next
    case False
    then have "fw_events j ops = []" using inv by (simp add: fw_inv_def)
    moreover obtain k' st body where "cl_fwds c' ! j = new_forward k' st body"
      using i j(1) False by (auto simp: idle_move_def)
    ultimately show ?thesis using fw_run.nil by metis
  qed
  have none: "fw_events j ops = []" if "length (cl_fwds c') \<le> j" for j
    using inv n(2) that by (simp add: fw_inv_def)
  have "heard k (sent_on g c') = heard k (outs k n (cl_fwds c'))" if "length (since k n (cl_fwds c')) \<le> 1"
  proof -
    have "length (since k n (cl_fwds c)) \<le> 1" using idle_outs(2) [OF i n(1), of k] that by linarith
    with idle_heard(1) [OF i] idle_outs(1) [OF i n(1)] inv show ?thesis by (simp add: fw_inv_def)
  qed
  with n g reqs over run none show ?thesis by (simp add: fw_inv_def p)
qed

lemma since_update_other:
  assumes "fw_req fw = fw_req (fws ! j)" and "fw_req fw \<noteq> k"
  shows "since k n (fws[j := fw]) = since k n fws"
proof -
  have e: "filter (\<lambda>fw. fw_req fw = k) (xs[m := fw]) = filter (\<lambda>fw. fw_req fw = k) xs"
    if "m < length xs \<Longrightarrow> fw_req (xs ! m) \<noteq> k" for xs m
    using that assms(2) by (induction xs arbitrary: m) (auto split: nat.split)
  show ?thesis
  proof (cases "n \<le> j")
    case True
    then show ?thesis
      unfolding since_def using e [of "j - n" "drop n fws"] assms by (simp add: drop_update_swap)
  qed (simp add: since_def)
qed

text \<open>A move of goroutine \<open>j\<close>: what it sends goes out, and the other goroutines stay as they are.\<close>

lemma fw_inv_heard:
  assumes inv: "fw_inv k n rs ops g c" and j: "j < length (cl_fwds c)"
    and alive: "fw_phase (cl_fwds c ! j) \<noteq> FwDone"
    and fw: "fw_req fw = fw_req (cl_fwds c ! j)" "fw_out fw = fw_out (cl_fwds c ! j) @ fs"
    and own: "\<And>f. f \<in> set fs \<Longrightarrow> f_ReqID f = fw_req fw"
    and one: "length (since k n ((cl_fwds c)[j := fw])) \<le> 1"
  shows "heard k (sent_on g c @ fs) = heard k (outs k n ((cl_fwds c)[j := fw]))"
proof -
  have all: "map fw_req ((cl_fwds c)[j := fw]) = map fw_req (cl_fwds c)"
    using fw(1) j by (simp add: map_update list_update_same_conv)
  have one': "length (since k n (cl_fwds c)) \<le> 1" using one by (simp only: length_since all)
  show ?thesis
  proof (cases "n \<le> j \<and> fw_req fw = k")
    case True
    note u = since_update_one [OF conjunct1 [OF True] j fw(1) one' conjunct2 [OF True]]
    with one' inv show ?thesis by (simp add: fw_inv_def outs_def fw(2))
  next
    case False
    then have k: "fw_req fw \<noteq> k" using inv alive fw(1) j by (auto simp: fw_inv_def)
    then have "heard k fs = []" using own by (intro heard_none) auto
    with since_update_other [OF fw(1) k, of n] one' inv show ?thesis by (simp add: fw_inv_def outs_def)
  qed
qed

lemma fw_inv_move:
  assumes inv: "fw_inv k n rs ops g c" and s: "forward_step ev j c = Some c'"
  shows "fw_inv k n rs (ops @ [ClientMoves (Env (Forwarding j ev))]) g c'"
    and "\<exists>fs. sent_on g c' = sent_on g c @ fs"
proof -
  let ?p = "ClientMoves (Env (Forwarding j ev))"
  have g: "cl_conn c = Some g" using inv by (simp add: fw_inv_def)
  obtain fw fs where t: "cl_conn c' = Some g" "cl_fwds c' = (cl_fwds c)[j := fw]"
      "fw_req fw = fw_req (cl_fwds c ! j)" "fw_out fw = fw_out (cl_fwds c ! j) @ fs"
      "cl_wire c' = cl_wire c @ map (Pair g) fs" "\<And>f. f \<in> set fs \<Longrightarrow> f_ReqID f = fw_req fw"
    using forward_step_tells [OF s g] by (auto simp: tells_def)
  have j: "j < length (cl_fwds c)" by (rule forward_step_length [OF s])
  have so: "sent_on g c' = sent_on g c @ fs"
    using sent_on_append [OF t(5)] by (simp only: sent_on_own)
  then show "\<exists>fs. sent_on g c' = sent_on g c @ fs" by blast
  have L: "length (cl_fwds c') = length (cl_fwds c)" by (simp add: t(2))
  have alive: "fw_phase (cl_fwds c ! j) \<noteq> FwDone"
    using s by (cases ev) (auto split: if_splits)
  have "map fw_req (cl_fwds c') = map fw_req (cl_fwds c)"
    using t(2,3) j by (simp add: map_update list_update_same_conv)
  then have reqs: "map fw_req (take n (cl_fwds c')) = rs" using inv by (simp add: fw_inv_def take_map [symmetric])
  have over: "fw_phase (cl_fwds c' ! i) = FwDone" if "i < n" "fw_req (cl_fwds c' ! i) = k" for i
  proof -
    have "i \<noteq> j" using inv alive that t(3) j by (auto simp: fw_inv_def t(2))
    with that inv show ?thesis by (simp add: fw_inv_def t(2))
  qed
  have run: "\<exists>k' st body. fw_run (new_forward k' st body) (fw_events i (ops @ [?p])) (cl_fwds c' ! i)"
    if i: "i < length (cl_fwds c')" "n \<le> i" for i
  proof -
    obtain k' st body where r: "fw_run (new_forward k' st body) (fw_events i ops) (cl_fwds c ! i)"
      using inv i L by (auto simp: fw_inv_def)
    show ?thesis
    proof (cases "i = j")
      case True
      with fw_run.snoc [OF r [unfolded True] s] show ?thesis by (auto simp: True)
    next
      case False
      with r show ?thesis by (auto simp: t(2))
    qed
  qed
  have none: "fw_events i (ops @ [?p]) = []" if "length (cl_fwds c') \<le> i" for i
    using inv L that j by (auto simp: fw_inv_def)
  have "heard k (sent_on g c') = heard k (outs k n (cl_fwds c'))" if "length (since k n (cl_fwds c')) \<le> 1"
    using fw_inv_heard [OF inv j alive t(3,4,6)] that by (simp add: so t(2))
  with t(1) L inv reqs over run none show "fw_inv k n rs (ops @ [?p]) g c'"
    by (simp add: fw_inv_def del: fw_events_snoc)
qed

lemma fw_inv_other:
  "fw_inv k n rs ops g c \<Longrightarrow> (\<And>j. fw_event_of j p = []) \<Longrightarrow> fw_inv k n rs (ops @ [p]) g c"
  by (simp add: fw_inv_def)
end
