(* ===== verification/Link.thy ===== *)
theory Link
  imports LinkServer LinkClient
begin

text \<open>
  A request across the connection, in every interleaving of the moves of \<open>Wire\<close>.  The theory
  \<open>System\<close> joins the ends by assuming what arrives; here it is derived: \<open>link_inv\<close> puts the
  invariants of the two ends together, and every move keeps it.
\<close>

section \<open>The invariant\<close>

definition link_inv :: "link \<Rightarrow> link_op list \<Rightarrow> link \<Rightarrow> bool" where
  "link_inv l0 ops l \<longleftrightarrow> (let k = rl_req (lk_r l0); c0 = rn_client (lk_c l0); c = rn_client (lk_c l) in
     rl_req (lk_r l) = k \<and> lk_conn l = lk_conn l0 \<and> relay_run (lk_r l0) (handler_events ops) (lk_r l) \<and>
     upload_ok (handler_events ops) (lk_r l) \<and> server_inv l \<and>
     fw_inv k (length (cl_fwds c0)) (map fw_req (cl_fwds c0)) ops (lk_conn l0) c \<and>
     view k c = fold view_step (filter (about k) (frames_in (take (lk_down l) (downlink l)))) (view k c0))"

lemma handler_events_snoc [simp]: "handler_events (ops @ [p]) = handler_events ops @ handler_event p"
  by (simp add: handler_events_def)

lemma link_inv_server:
  assumes inv: "link_inv l0 ops l" and s: "server_inv l'" "take (lk_down l') (downlink l') = take (lk_down l) (downlink l)"
    and same: "lk_c l' = lk_c l" "lk_conn l' = lk_conn l" "lk_r l' = lk_r l"
    and p: "handler_event p = []" "\<And>j. fw_event_of j p = []"
  shows "link_inv l0 (ops @ [p]) l'"
proof -
  have "fw_inv (rl_req (lk_r l0)) (length (cl_fwds (rn_client (lk_c l0)))) (map fw_req (cl_fwds (rn_client (lk_c l0)))) (ops @ [p]) (lk_conn l0) (rn_client (lk_c l'))"
    using inv same p(2) by (intro fw_inv_other) (simp_all add: link_inv_def Let_def)
  with inv s same p(1) show ?thesis by (simp add: link_inv_def Let_def)
qed

lemma link_inv_client:
  assumes inv: "link_inv l0 ops l" and l': "l' = l\<lparr>lk_c := s', lk_down := d\<rparr>" and d: "d \<le> length (downlink l)"
    and fw: "fw_inv (rl_req (lk_r l0)) (length (cl_fwds (rn_client (lk_c l0)))) (map fw_req (cl_fwds (rn_client (lk_c l0)))) (ops @ [p]) (lk_conn l0) (rn_client s')"
    and grow: "\<exists>fs. sent_on (lk_conn l) (rn_client s') = sent_on (lk_conn l) (rn_client (lk_c l)) @ fs"
    and view: "view (rl_req (lk_r l0)) (rn_client s') =
      fold view_step (filter (about (rl_req (lk_r l0))) (frames_in (take d (downlink l)))) (view (rl_req (lk_r l0)) (rn_client (lk_c l0)))"
    and p: "handler_event p = []"
  shows "link_inv l0 (ops @ [p]) l'"
proof -
  obtain fs where u: "uplink l' = uplink l @ fs" using grow by (auto simp: uplink_def l')
  have "server_inv l" using inv by (simp add: link_inv_def Let_def)
  then have "server_inv l'" by (rule server_inv_client [OF _ u]) (use d in \<open>simp_all add: l'\<close>)
  moreover have "downlink l' = downlink l" "lk_down l' = d" "lk_c l' = s'" "lk_r l' = lk_r l" "lk_conn l' = lk_conn l"
    by (simp_all add: l' downlink_def)
  ultimately show ?thesis using inv fw view p by (simp add: link_inv_def Let_def)
qed

lemma view_message:
  "view k (handle_message werr (Some b) c) = fold view_step (filter (about k) (frames_in [b])) (view k c)"
  by (simp add: handle_message_def view_handle_frame split: option.split)

lemma calm_view: "calm c c' \<Longrightarrow> view k c' = view k c"
  by (simp add: calm_def view_def)

lemma server_inv_down: "server_inv l \<Longrightarrow> lk_down l \<le> length (downlink l)"
  by (auto simp: server_inv_def)

lemma no_fw_event:
  "(\<And>i fev. eev \<noteq> Forwarding i fev) \<Longrightarrow> fw_event_of j (ClientMoves (Env eev)) = []"
  by (cases eev) auto

lemma link_inv_sides:
  assumes "link_inv l0 ops l"
  shows "server_inv l" and "lk_conn l = lk_conn l0" and "lk_down l \<le> length (downlink l)"
    and "fw_inv (rl_req (lk_r l0)) (length (cl_fwds (rn_client (lk_c l0)))) (map fw_req (cl_fwds (rn_client (lk_c l0))))
      ops (lk_conn l0) (rn_client (lk_c l))"
    and "view (rl_req (lk_r l0)) (rn_client (lk_c l)) =
      fold view_step (filter (about (rl_req (lk_r l0))) (frames_in (take (lk_down l) (downlink l))))
        (view (rl_req (lk_r l0)) (rn_client (lk_c l0)))"
  using assms by (simp_all add: link_inv_def Let_def server_inv_down)

lemma link_inv_Handler:
  assumes inv: "link_inv l0 ops l" and s: "link_step (Handler ev) l = Some l'"
  shows "link_inv l0 (ops @ [Handler ev]) l'"
proof -
  obtain r' w' where r: "relay_step ev (lk_r l, lk_w l) = Some (Inr (r', w'))"
      and l': "l' = l\<lparr>lk_r := r', lk_w := w'\<rparr>" using s by auto
  have u: "upload_ok (handler_events ops) (lk_r l)" and run: "relay_run (lk_r l0) (handler_events ops) (lk_r l)"
    using inv by (auto simp: link_inv_def Let_def)
  have st: "rl_phase (lk_r l) = Starting \<Longrightarrow> rl_sent (lk_r l) = []" using u by (simp add: upload_ok_def)
  have "fw_inv (rl_req (lk_r l0)) (length (cl_fwds (rn_client (lk_c l0)))) (map fw_req (cl_fwds (rn_client (lk_c l0))))
      (ops @ [Handler ev]) (lk_conn l0) (rn_client (lk_c l))"
    by (rule fw_inv_other [OF link_inv_sides(4) [OF inv]]) simp
  with server_inv_Handler [OF link_inv_sides(1) [OF inv] s st] relay_run.snoc [OF run r] upload_ok_step [OF u r]
    relay_step_same [OF r] inv link_inv_sides(5) [OF inv]
  show ?thesis by (simp add: link_inv_def Let_def l')
qed

lemma link_inv_ClientReads:
  assumes inv: "link_inv l0 ops l" and s: "link_step (ClientReads werr io) l = Some l'"
  shows "link_inv l0 (ops @ [ClientReads werr io]) l'"
proof -
  let ?b = "downlink l ! lk_down l" and ?k = "rl_req (lk_r l0)"
  obtain s' where c: "lk_down l < length (downlink l)" "run_step (ReadMessage (Inr (Some ?b)) werr io) (lk_c l) = Some s'"
      and l': "l' = l\<lparr>lk_c := s', lk_down := Suc (lk_down l)\<rparr>"
    using s by (auto split: if_splits)
  have s': "rn_client s' = handle_message werr (Some ?b) (rn_client (lk_c l))"
    using c(2) by (auto simp: Let_def split: if_splits)
  have i: "idle_move (rn_client (lk_c l)) (rn_client s')" unfolding s' by (rule idle_handle_message)
  show ?thesis
  proof (rule link_inv_client [OF inv l'])
    show "view ?k (rn_client s') = fold view_step
        (filter (about ?k) (frames_in (take (Suc (lk_down l)) (downlink l)))) (view ?k (rn_client (lk_c l0)))"
      unfolding s' view_message link_inv_sides(5) [OF inv] take_Suc_conv_app_nth [OF c(1)] frames_in_append filter_append
      by simp
    show "fw_inv ?k (length (cl_fwds (rn_client (lk_c l0)))) (map fw_req (cl_fwds (rn_client (lk_c l0))))
        (ops @ [ClientReads werr io]) (lk_conn l0) (rn_client s')"
      by (rule fw_inv_idle [OF link_inv_sides(4) [OF inv] i]) simp
  qed (use c(1) idle_heard(2) [OF i] in simp_all)
qed

lemma link_inv_calm:
  assumes inv: "link_inv l0 ops l" and m: "calm (rn_client (lk_c l)) (rn_client s')"
    and e: "\<And>j. fw_event_of j (ClientMoves ev) = []"
  shows "link_inv l0 (ops @ [ClientMoves ev]) (l\<lparr>lk_c := s'\<rparr>)"
proof (rule link_inv_client [OF inv _ link_inv_sides(3) [OF inv]])
  have i: "idle_move (rn_client (lk_c l)) (rn_client s')" using m by (simp add: calm_def)
  show "fw_inv (rl_req (lk_r l0)) (length (cl_fwds (rn_client (lk_c l0)))) (map fw_req (cl_fwds (rn_client (lk_c l0))))
      (ops @ [ClientMoves ev]) (lk_conn l0) (rn_client s')" by (rule fw_inv_idle [OF link_inv_sides(4) [OF inv] i e])
  show "\<exists>fs. sent_on (lk_conn l) (rn_client s') = sent_on (lk_conn l) (rn_client (lk_c l)) @ fs"
    by (rule idle_heard(2) [OF i])
qed (use calm_view [OF m] link_inv_sides(5) [OF inv] in simp_all)

lemma link_inv_Forwarding:
  assumes inv: "link_inv l0 ops l" and m: "forward_step ev j (rn_client (lk_c l)) = Some (rn_client s')"
  shows "link_inv l0 (ops @ [ClientMoves (Env (Forwarding j ev))]) (l\<lparr>lk_c := s'\<rparr>)"
proof (rule link_inv_client [OF inv _ link_inv_sides(3) [OF inv]])
  note fi = link_inv_sides(4) [OF inv]
  show "fw_inv (rl_req (lk_r l0)) (length (cl_fwds (rn_client (lk_c l0)))) (map fw_req (cl_fwds (rn_client (lk_c l0))))
      (ops @ [ClientMoves (Env (Forwarding j ev))]) (lk_conn l0) (rn_client s')"
    by (rule fw_inv_move(1) [OF fi m])
  show "\<exists>fs. sent_on (lk_conn l) (rn_client s') = sent_on (lk_conn l) (rn_client (lk_c l)) @ fs"
    using fw_inv_move(2) [OF fi m] link_inv_sides(2) [OF inv] by simp
  have "cl_conn (rn_client (lk_c l)) = Some (lk_conn l0)" using fi by (simp add: fw_inv_def)
  from view_tells [OF forward_step_tells [OF m this] m] link_inv_sides(5) [OF inv]
  show "view (rl_req (lk_r l0)) (rn_client s') = fold view_step
      (filter (about (rl_req (lk_r l0))) (frames_in (take (lk_down l) (downlink l))))
      (view (rl_req (lk_r l0)) (rn_client (lk_c l0)))" by simp
qed simp_all

lemma link_inv_ClientMoves:
  assumes inv: "link_inv l0 ops l" and s: "link_step (ClientMoves ev) l = Some l'"
  shows "link_inv l0 (ops @ [ClientMoves ev]) l'"
proof -
  obtain s' where c: "apart ev" "client_step ev (lk_c l) = Some s'" and l': "l' = l\<lparr>lk_c := s'\<rparr>"
    using s by (auto split: if_splits)
  show ?thesis
  proof (cases ev)
    case (Main mev)
    with c calm_run [of mev "lk_c l" s'] show ?thesis unfolding l' by (intro link_inv_calm [OF inv]) simp_all
  next
    case (Env eev)
    then have e: "env_step eev (lk_c l) = Some s'" using c by simp
    show ?thesis
    proof (cases "\<exists>j fev. eev = Forwarding j fev")
      case False
      then have n: "eev \<noteq> Forwarding j fev" for j fev by blast
      from link_inv_calm [OF inv calm_env [OF e n]] no_fw_event [of eev] n show ?thesis by (simp add: Env l')
    next
      case True
      then obtain j fev where f: "eev = Forwarding j fev" by blast
      then have "forward_step fev j (rn_client (lk_c l)) = Some (rn_client s')" using e by auto
      then show ?thesis unfolding l' Env f by (rule link_inv_Forwarding [OF inv])
    qed
  qed
qed

lemma link_inv_step:
  assumes inv: "link_inv l0 ops l" and s: "link_step p l = Some l'"
  shows "link_inv l0 (ops @ [p]) l'"
proof (cases p)
  case (Handler ev)
  with inv s show ?thesis by (simp only: link_inv_Handler)
next
  case (Serve q)
  then have same: "lk_c l' = lk_c l" "lk_conn l' = lk_conn l" "lk_r l' = lk_r l" using s by (auto split: if_splits)
  from server_inv_Serve [OF link_inv_sides(1) [OF inv] s [unfolded Serve]] show ?thesis
    by (intro link_inv_server [OF inv _ _ same]) (simp_all add: Serve)
next
  case (ServerReads en rp)
  then have same: "lk_c l' = lk_c l" "lk_conn l' = lk_conn l" "lk_r l' = lk_r l" using s by (auto split: if_splits)
  from server_inv_ServerReads [OF link_inv_sides(1) [OF inv] s [unfolded ServerReads]] show ?thesis
    by (intro link_inv_server [OF inv _ _ same]) (simp_all add: ServerReads)
next
  case (ClientReads werr io)
  with inv s show ?thesis by (simp only: link_inv_ClientReads)
next
  case (ClientMoves ev)
  with inv s show ?thesis by (simp only: link_inv_ClientMoves)
qed

interpretation linked: traced link_step "link_inv l0" for l0
  by unfold_locales (rule link_inv_step)

lemma link_inv_run:
  assumes "link_inv l0 [] l0" and "run_opt link_step ops l0 = Some l"
  shows "link_inv l0 ops l"
  using linked.run_traced [OF assms] by simp

section \<open>The request\<close>

text \<open>The handler has just registered its mailbox, under an identifier that this connection has not seen;
  goroutines that the client may still have from an earlier connection for the same identifier are
  finished.\<close>

definition fresh_link :: "link \<Rightarrow> bool" where
  "fresh_link l \<longleftrightarrow> (let k = rl_req (lk_r l); c = rn_client (lk_c l) in
     filter (concerns k) (downlink l @ s_sendQ (w_sess (lk_w l) (rl_sess (lk_r l)))) = [] \<and>
     heard k (uplink l) = [] \<and> lk_down l \<le> length (downlink l) \<and> lk_up l \<le> length (uplink l) \<and>
     cl_conn c = Some (lk_conn l) \<and> list_all (\<lambda>fw. fw_req fw = k \<longrightarrow> fw_phase fw = FwDone) (cl_fwds c))"

definition link_opens :: "request \<Rightarrow> response \<Rightarrow> World \<Rightarrow> link \<Rightarrow> bool" where
  "link_opens q rw w l \<longleftrightarrow> relay_open q rw w = Some (Inr (lk_r l), lk_w l) \<and> fresh_link l"

text \<open>Everything that the server has queued is written, and the client has read it.\<close>

definition settled :: "link \<Rightarrow> bool" where
  "settled l \<longleftrightarrow> s_sendQ (w_sess (lk_w l) (rl_sess (lk_r l))) = [] \<and>
     \<not> s_writeDone (w_sess (lk_w l) (rl_sess (lk_r l))) \<and> lk_down l = length (downlink l)"

text \<open>The requests (start frame, body) that the client has started under the handler's identifier.\<close>

definition started :: "link \<Rightarrow> (frame \<times> byte list) list" where
  "started l = started_for (rl_req (lk_r l)) (cl_fwds (rn_client (lk_c l)))"

lemma relay_open_lane:
  assumes "world_ok w" and "relay_open q rw w = Some (Inr r, w')"
    and "filter (concerns (rl_req r)) (s_wire (w_sess w' (rl_sess r)) @ s_sendQ (w_sess w' (rl_sess r))) = []"
  shows "lane (rl_sess r) (rl_req r) (rl_box r) [] (take d (s_wire (w_sess w' (rl_sess r)))) [] True w'"
proof -
  obtain tid path t i k w1 where o: "splitTunnelPath (q_path q) = (tid, path)" "Get (w_reg w) tid = Some t"
      "t_session t = Some i" "NextReqID i w = Some (k, w1)" "RegisterPending i k w1 = (rl_box r, w')"
      "rl_sess r = i" "rl_req r = k"
    using assms(2) by (auto simp: relay_open_def split: prod.splits if_splits option.splits)
  have ok: "world_ok w1" by (rule world_ok_NextReqID [OF assms(1) o(4)])
  have n: "w_nsess w1 = w_nsess w"
    using o(4) by (auto simp: NextReqID_def sess_simps split: option.splits)
  have i: "i < w_nsess w" using world_ok_ptr [OF assms(1) o(2,3)] by (simp add: pointer_ok_def)
  have w': "w' = modify_sess i (\<lambda>s. s\<lparr>s_pending := AList.update k (rl_box r) (s_pending s)\<rparr>)
      (w1\<lparr>w_box := (w_box w1)(rl_box r := \<lparr>pr_ch = [], pr_done = False\<rparr>), w_nbox := Suc (rl_box r)\<rparr>)"
      "rl_box r = w_nbox w1"
    using o(5) by (auto simp: RegisterPending_def Let_def)
  have low: "a \<noteq> rl_box r" if "(k', a) \<in> set (s_pending (w_sess w1 j))" for k' a j
  proof -
    have "a \<in> set (boxes w1 j)" using that by (force simp: boxes_def)
    then have "a < w_nbox w1" using world_ok_sess [OF ok, of j] by (auto simp: sess_ok_def list_all_iff)
    then show ?thesis using w'(2) by simp
  qed
  have sole: "j = i \<and> k' = k" if "(k', rl_box r) \<in> set (s_pending (w_sess w' j))" for j k'
    using that low set_update_alist [of k "rl_box r" "s_pending (w_sess w1 i)"]
    by (auto simp: w'(1) sess_simps split: if_splits)
  have "stream k [] (take d (s_wire (w_sess w' i))) (w_sess w' i)"
    using assms(3) o(6,7) unfolding stream_def by (intro exI [of _ "[]"] exI [of _ "drop d (s_wire (w_sess w' i))"]) simp
  moreover have "i < w_nsess w'" "rl_box r < w_nbox w'" "w_box w' (rl_box r) = \<lparr>pr_ch = [], pr_done = False\<rparr>"
    using i n by (simp_all add: w' sess_simps)
  ultimately show ?thesis using sole unfolding lane_def o(6,7) by simp
qed

lemma link_opens_inv:
  assumes "reachable w" and "link_opens q (new_response fl hj) w l0"
  shows "link_inv l0 [] l0"
proof -
  let ?r = "lk_r l0" and ?c = "rn_client (lk_c l0)"
  let ?k = "rl_req ?r"
  have op: "relay_open q (new_response fl hj) w = Some (Inr ?r, lk_w l0)"
    and none: "filter (concerns ?k) (downlink l0 @ s_sendQ (w_sess (lk_w l0) (rl_sess ?r))) = []"
    and u: "heard ?k (uplink l0) = []" "lk_down l0 \<le> length (downlink l0)" "lk_up l0 \<le> length (uplink l0)"
      "cl_conn ?c = Some (lk_conn l0)"
    and old: "list_all (\<lambda>fw. fw_req fw = ?k \<longrightarrow> fw_phase fw = FwDone) (cl_fwds ?c)"
    using assms(2) by (simp_all add: link_opens_def fresh_link_def Let_def)
  note opened = relay_open_opened [OF op]
  have ok: "world_ok w" using reachable_ok [OF assms(1)] by (simp add: server_ok_def)
  have l: "lane (rl_sess ?r) ?k (rl_box ?r) [] (take (lk_down l0) (downlink l0)) [] True (lk_w l0)"
    using relay_open_lane [OF ok op] none by (simp add: downlink_def)
  have h: "heard ?k (take n (uplink l0)) = []" for n
    using u(1) heard_append [of ?k "take n (uplink l0)" "drop n (uplink l0)"] by simp
  have s: "server_inv l0"
    unfolding server_inv_def
    by (rule exI [of _ "[]"], rule exI [of _ "[]"], rule exI [of _ "lk_up l0"])
      (use l h u opened in \<open>simp add: parting_def opened_def\<close>)
  have "heard ?k (sent_on (lk_conn l0) ?c) = []" using u(1) by (simp add: uplink_def)
  then have f: "fw_inv ?k (length (cl_fwds ?c)) (map fw_req (cl_fwds ?c)) [] (lk_conn l0) ?c"
    using u old by (auto simp: fw_inv_def fw_events_def outs_def since_def list_all_length)
  have "filter (concerns ?k) (take (lk_down l0) (downlink l0)) = []"
    using none by (auto simp: filter_empty_conv dest: in_set_takeD)
  then have "filter (about ?k) (frames_in (take (lk_down l0) (downlink l0))) = []"
    by (simp add: frames_in_concerns)
  with s f opened show ?thesis
    by (simp add: link_inv_def Let_def handler_events_def relay_run.nil opened_def upload_ok_def body_read_def)
qed

text \<open>The frames the handler has queued, whatever became of it.\<close>

definition sent_shape :: "relay_event list \<Rightarrow> relay \<Rightarrow> bool" where
  "sent_shape evs r \<longleftrightarrow> rl_sent r = [] \<or>
     (if f_HasBody (rl_start r)
      then \<exists>bss. rl_sent r = sent_chunks r bss \<or>
        rl_sent r = sent_chunks r bss @ [request_end (rl_req r)] \<and> concat bss = body_read evs
      else rl_sent r = [rl_start r] \<and> body_read evs = [])"

lemma upload_failed_frames:
  assumes "upload_read bs rd pick epick i k s w = Some (UploadFailed, fs, w')"
  shows "fs = [] \<or> fs = [request_chunk k s bs]"
  using assms by (auto simp: upload_read_def Let_def split: option.splits if_splits read_end.splits)

lemma sent_shape_step:
  assumes up: "upload_ok evs r" and sh: "sent_shape evs r" and s: "relay_step ev (r, w) = Some (Inr (r', w'))"
  shows "sent_shape (evs @ [ev]) r'"
proof -
  have keep: ?thesis if "rl_sent r' = rl_sent r" "read_bytes ev = []"
  proof -
    have "body_read (evs @ [ev]) = body_read evs" using that(2) by (simp add: body_read_def)
    moreover have "sent_chunks r' = sent_chunks r"
      using relay_step_same [OF s] by (simp add: sent_chunks_def fun_eq_iff)
    ultimately show ?thesis using sh that(1) relay_step_same [OF s] by (simp only: sent_shape_def)
  qed
  show ?thesis
    using s
  proof (cases rule: relay_step_cases)
    case (started p c)
    with up show ?thesis
      by (auto simp: sent_shape_def upload_ok_def sent_chunks_def chunk_frames_def body_read_def intro!: exI [of _ "[]"])
  next
    case (read bs rd p e c s out fs w1)
    obtain bss where b: "rl_sent r = sent_chunks r bss" "s = int (length bss)" "concat bss = body_read evs"
      and hb: "f_HasBody (rl_start r)"
      using up read(2) by (auto simp: upload_ok_def)
    have snoc: "sent_chunks r (bss @ [bs]) = sent_chunks r bss @ [request_chunk (rl_req r) s bs]"
      by (simp add: sent_chunks_def up.chunk_frames_snoc b(2))
    note same = relay_step_same [OF s]
    have any: "sent_shape (evs @ [ev]) r'" if "rl_sent r' = sent_chunks r bss'" for bss'
      using that same hb by (auto simp: sent_shape_def sent_chunks_def)
    show ?thesis
    proof (cases out)
      case UploadFailed
      then show ?thesis
        using upload_failed_frames read(3,4) b(1) snoc any [of bss] any [of "bss @ [bs]"] by fastforce
    next
      case (UploadMore s1)
      with upload_read_frames(1) [OF read(3), of s1] read(4) b(1) snoc any [of bss] any [of "bss @ [bs]"]
      show ?thesis by (cases "bs = []") auto
    next
      case UploadDone
      let ?bss = "if bs = [] then bss else bss @ [bs]"
      have "rl_sent r' = sent_chunks r ?bss @ [request_end (rl_req r)]"
        using UploadDone upload_read_frames(2) [OF read(3)] read(4) b(1) snoc by auto
      moreover have "concat ?bss = body_read (evs @ [ev])" by (simp add: body_read_def read(1)) (simp add: b(3) [unfolded body_read_def])
      ultimately show ?thesis using same hb by (auto simp: sent_shape_def sent_chunks_def)
    qed
  next
    case (got f res)
    then show ?thesis by (intro keep) simp_all
  next
    case (failed code msg)
    then show ?thesis by (intro keep) (cases ev; auto)+
  next
    case (cut e)
    then show ?thesis by (intro keep) (cases ev; auto)+
  qed
qed

lemma sent_shape_run: "relay_run r0 evs r \<Longrightarrow> opened r0 \<Longrightarrow> sent_shape evs r"
proof (induction rule: relay_run.induct)
  case nil
  then show ?case by (simp add: opened_def sent_shape_def)
next
  case (snoc evs r ev w r' w')
  then show ?case using sent_shape_step upload_ok_run by blast
qed

text \<open>What the client makes of the frames of one request, or of the first few of them.\<close>

lemma plain_on_wire: "f_Headers f = [] \<Longrightarrow> on_wire f = f"
  by (simp add: on_wire_def)

lemma chunk_on_wire: "on_wire (request_chunk k s bs) = request_chunk k s bs"
  by (rule plain_on_wire) (simp add: request_chunk_def zero_frame_def)

lemma end_on_wire: "on_wire (request_end k) = request_end k" "on_wire (frame_cancel k) = frame_cancel k"
  by (rule plain_on_wire; simp add: request_end_def frame_cancel_def zero_frame_def)+

lemma chunks_on_wire: "map on_wire (chunk_frames (request_chunk k) bss) = chunk_frames (request_chunk k) bss"
  by (induction bss rule: rev_induct)
    (simp_all add: up.chunk_frames_snoc chunk_on_wire, simp add: chunk_frames_def)

lemma chunk_frames_type: "f \<in> set (chunk_frames (request_chunk k) bss) \<Longrightarrow> f_Type f = ''request_chunk''"
  using up.map_chunk_frames(3) by blast

lemma view_chunks_snd:
  "(\<And>f. f \<in> set fs \<Longrightarrow> f_Type f = ''request_chunk'') \<Longrightarrow> snd (fold view_step fs v) = snd v"
proof (induction fs arbitrary: v)
  case (Cons f fs)
  have "snd (view_step f v) = snd v"
    using Cons.prems [of f] by (cases v) (auto simp: view_step_def split: option.splits)
  with Cons show ?case by simp
qed simp

lemma view_all_chunks:
  assumes "f_Type st = ''request_start''" and "f_HasBody st"
  shows "fold view_step (st # chunk_frames (request_chunk k) bss) v =
    (Some \<lparr>p_start = st, p_chunks = numbered bss\<rparr>, snd v)"
proof -
  have "map fst (map (\<lambda>f. (f_Seq f, payload f)) (chunk_frames (request_chunk k) bss)) = map int [0..<length bss]"
    by (simp only: chunk_pairs numbered_keys)
  then have "distinct (map f_Seq (chunk_frames (request_chunk k) bss))"
    by (simp add: comp_def distinct_map)
  then show ?thesis
    using assms view_chunks [of "chunk_frames (request_chunk k) bss" "\<lparr>p_start = st, p_chunks = []\<rparr>" "snd v"]
    by (simp add: view_step_def list_all_iff request_chunk_is_chunk chunk_pairs)
qed

lemma view_ends:
  "view_step (request_end k) v = view_dispatch v" "view_step (frame_cancel k) v = (None, snd v)"
  by (simp_all add: view_step_def request_end_def frame_cancel_def)

lemma view_cancels:
  "cs = [] \<or> cs = [frame_cancel k] \<Longrightarrow> snd (fold view_step (take i cs) u) = snd u"
  using view_ends(2) [of k u] by (cases i) auto

text \<open>A part of an upload starts nothing; the end of it starts the request with the bytes of the chunks.\<close>

lemma view_upload:
  assumes st: "f_Type st = ''request_start''" "f_HasBody st"
    and gs: "gs = chunk_frames (request_chunk k) bss \<or>
        gs = chunk_frames (request_chunk k) bss @ [request_end k] \<and> concat bss = body"
    and cs: "cs = [] \<or> cs = [frame_cancel k]"
  shows "snd (fold view_step (take m (gs @ cs)) (view_step st v)) \<in> {snd v, snd v @ [(st, body)]}"
proof -
  let ?ch = "chunk_frames (request_chunk k) bss" and ?v1 = "view_step st v"
  let ?whole = "(Some \<lparr>p_start = st, p_chunks = numbered bss\<rparr>, snd v)"
  have s1: "snd ?v1 = snd v" using st by (simp add: view_step_def)
  have chunks: "snd (fold view_step (take i ?ch) u) = snd u" for i u
    by (rule view_chunks_snd) (auto dest: in_set_takeD chunk_frames_type)
  have whole: "fold view_step ?ch ?v1 = ?whole" using view_all_chunks [OF st] by simp
  from gs consider "gs = ?ch" | "m \<le> length ?ch" | i where "gs = ?ch @ [request_end k]" "concat bss = body"
      "m - length ?ch = Suc i" by (cases "m - length ?ch") auto
  then show ?thesis
  proof cases
    case 1
    then show ?thesis using chunks view_cancels [OF cs] s1 by simp
  next
    case 2
    with gs have "take m (gs @ cs) = take m ?ch" by auto
    then show ?thesis using chunks [of m ?v1] s1 by simp
  next
    case 3
    then have "fold view_step (take m (gs @ cs)) ?v1 = fold view_step (take i cs) (view_dispatch ?whole)"
      using whole by (simp add: view_ends)
    moreover have "snd (view_dispatch ?whole) = snd v @ [(st, body)]"
      using assemble_numbered [of "numbered bss" bss] 3(2) by (simp add: view_dispatch_def)
    ultimately show ?thesis using view_cancels [OF cs] by simp
  qed
qed

lemma view_request:
  assumes st: "f_Type st = ''request_start''"
    and sh: "if f_HasBody st then gs = chunk_frames (request_chunk k) bss \<or>
        gs = chunk_frames (request_chunk k) bss @ [request_end k] \<and> concat bss = body
      else gs = [] \<and> body = []"
    and cs: "cs = [] \<or> cs = [frame_cancel k]"
  shows "snd (fold view_step (take n (st # gs @ cs)) v) \<in> {snd v, snd v @ [(st, body)]}"
proof (cases n)
  case (Suc m)
  show ?thesis
  proof (cases "f_HasBody st")
    case False
    with sh st view_cancels [OF cs, of m "view_step st v"] show ?thesis
      by (simp add: Suc view_step_def view_dispatch_def assemble_def)
  next
    case True
    with view_upload [OF st True _ cs, of gs bss body m v] sh show ?thesis by (simp add: Suc)
  qed
qed simp

lemma view_whole_request:
  assumes st: "f_Type st = ''request_start''"
    and sh: "gs = chunk_frames (request_chunk k) bss @ (if f_HasBody st then [request_end k] else [])"
    and b: "concat bss = body" and nb: "\<not> f_HasBody st \<Longrightarrow> bss = []"
  shows "snd (fold view_step (st # gs) v) = snd v @ [(st, body)]"
proof (cases "f_HasBody st")
  case True
  have "fold view_step (st # gs) v = view_dispatch (Some \<lparr>p_start = st, p_chunks = numbered bss\<rparr>, snd v)"
    using True sh view_all_chunks [OF st True, of k bss v] by (simp add: view_ends)
  then show ?thesis using assemble_numbered [of "numbered bss" bss] b by (simp add: view_dispatch_def)
next
  case False
  with sh b nb st show ?thesis by (simp add: chunk_frames_def view_step_def view_dispatch_def assemble_def)
qed

subsection \<open>The frames on the wire\<close>

lemma server_inv_wire:
  assumes "server_inv l"
  shows "\<exists>cs n. parting (lk_r l) cs \<and>
    filter (concerns (rl_req (lk_r l))) (take (lk_down l) (downlink l)) = take n (noted (rl_req (lk_r l)) (rl_sent (lk_r l) @ cs)) \<and>
    (settled l \<longrightarrow> length (rl_sent (lk_r l) @ cs) \<le> n)"
proof -
  let ?k = "rl_req (lk_r l)" and ?s = "w_sess (lk_w l) (rl_sess (lk_r l))"
  obtain cs where cs: "parting (lk_r l) cs"
      "stream ?k (noted ?k (rl_sent (lk_r l) @ cs)) (take (lk_down l) (downlink l)) ?s"
    using assms by (auto simp: server_inv_def lane_def)
  let ?log = "noted ?k (rl_sent (lk_r l) @ cs)"
  obtain lost where lost: "?log = filter (concerns ?k) (s_wire ?s) @ lost @ filter (concerns ?k) (s_sendQ ?s)"
      "lost = [] \<or> s_writeDone ?s" using cs(2) by (auto simp: stream_def)
  let ?m = "length (filter (concerns ?k) (take (lk_down l) (downlink l)))"
  have "s_wire ?s = take (lk_down l) (downlink l) @ drop (lk_down l) (downlink l)" by (simp add: downlink_def)
  then have "take ?m ?log = filter (concerns ?k) (take (lk_down l) (downlink l))"
    unfolding lost(1) by (metis append.assoc append_eq_conv_conj filter_append)
  note pre = this
  show ?thesis
  proof (cases "settled l")
    case True
    then have "?log = filter (concerns ?k) (take (lk_down l) (downlink l))"
      using lost by (simp add: settled_def downlink_def)
    with cs(1) show ?thesis
      by (intro exI [of _ cs] exI [of _ "max ?m (length (rl_sent (lk_r l) @ cs))"]) (simp add: max_def)
  next
    case False
    with cs(1) pre show ?thesis by metis
  qed
qed

lemma valid_plain_frames:
  "valid_frame (request_end k)" "valid_frame (frame_cancel k)"
  "int64 s \<Longrightarrow> valid_frame (request_chunk k s bs)"
  by (simp_all add: valid_frame_def request_end_def frame_cancel_def request_chunk_def zero_frame_def
      valid_utf8_ascii EncodeToString_ascii valid_headers_def)

lemma concerns_valid: "valid_frame f \<Longrightarrow> about k f \<Longrightarrow> concerns k (Marshal f)"
  by (simp add: concerns_def decode_Marshal about_def)

lemma about_request:
  "about k (request_end k)" "about k (frame_cancel k)" "about k (request_chunk k s bs)"
  by (simp_all add: about_def request_end_def frame_cancel_def request_chunk_def)

lemma sent_frames:
  assumes "sent_shape evs r" and "valid_frame (rl_start r)" and "about (rl_req r) (rl_start r)"
    and "int64 (int (length (rl_sent r)))" and "f \<in> set (rl_sent r)"
  shows "valid_frame f \<and> about (rl_req r) f"
proof -
  have chunk: "valid_frame f \<and> about (rl_req r) f"
    if m: "f \<in> set (chunk_frames (request_chunk (rl_req r)) bss)" and n: "length bss \<le> length (rl_sent r)" for bss
  proof -
    obtain i bs where "f = request_chunk (rl_req r) (int i) bs" "i < length bss"
      using m by (auto simp: chunk_frames_def in_set_conv_nth)
    moreover from this have "int64 (int i)" using assms(4) n by (simp add: int64_def)
    ultimately show ?thesis using valid_plain_frames(3) about_request(3) by simp
  qed
  have len: "length (chunk_frames (request_chunk (rl_req r)) bss) = length bss" for bss
    by (simp add: chunk_frames_def)
  from assms(1,5) consider "f = rl_start r" | "f = request_end (rl_req r)"
    | bss where "f \<in> set (chunk_frames (request_chunk (rl_req r)) bss)" "length bss \<le> length (rl_sent r)"
    by (auto simp: sent_shape_def sent_chunks_def len split: if_splits)
  then show ?thesis
    using assms(2,3) valid_plain_frames(1) about_request(1) chunk by cases auto
qed

lemma map_on_wire_sent:
  assumes "sent_shape evs r" and "rl_sent r \<noteq> []"
  obtains gs bss where "map on_wire (rl_sent r) = on_wire (rl_start r) # gs"
    and "if f_HasBody (rl_start r) then gs = chunk_frames (request_chunk (rl_req r)) bss \<or>
        gs = chunk_frames (request_chunk (rl_req r)) bss @ [request_end (rl_req r)] \<and> concat bss = body_read evs
      else gs = [] \<and> body_read evs = []"
proof (cases "f_HasBody (rl_start r)")
  case True
  with assms obtain bss where "rl_sent r = sent_chunks r bss \<or>
      rl_sent r = sent_chunks r bss @ [request_end (rl_req r)] \<and> concat bss = body_read evs"
    by (auto simp: sent_shape_def)
  then show thesis
    using that [of "chunk_frames (request_chunk (rl_req r)) bss" bss]
      that [of "chunk_frames (request_chunk (rl_req r)) bss @ [request_end (rl_req r)]" bss] True
    by (auto simp: sent_chunks_def chunks_on_wire end_on_wire)
next
  case False
  with assms have "rl_sent r = [rl_start r]" "body_read evs = []" by (auto simp: sent_shape_def)
  with that [of "[]"] False show thesis by simp
qed

text \<open>What the client has collected, in terms of what the handler has queued.\<close>

lemma link_view:
  assumes inv: "link_inv l0 ops l" and "opened (lk_r l0)" and "valid_frame (rl_start (lk_r l0))"
    and "about (rl_req (lk_r l0)) (rl_start (lk_r l0))" and "int64 (int (length (rl_sent (lk_r l))))"
  obtains cs n where "parting (lk_r l) cs"
    and "snd (fold view_step (take n (map on_wire (rl_sent (lk_r l)) @ cs))
        (view (rl_req (lk_r l0)) (rn_client (lk_c l0)))) = started l"
    and "settled l \<Longrightarrow> length (rl_sent (lk_r l) @ cs) \<le> n"
proof -
  let ?r = "lk_r l" and ?k = "rl_req (lk_r l0)"
  have i: "rl_req ?r = ?k" "relay_run (lk_r l0) (handler_events ops) ?r" "server_inv l"
      "view ?k (rn_client (lk_c l)) = fold view_step (filter (about ?k) (frames_in (take (lk_down l) (downlink l))))
        (view ?k (rn_client (lk_c l0)))"
    using inv by (simp_all add: link_inv_def Let_def)
  have same: "rl_start ?r = rl_start (lk_r l0)" using relay_run_same [OF i(2)] by simp
  have sh: "sent_shape (handler_events ops) ?r" by (rule sent_shape_run [OF i(2) assms(2)])
  obtain cs n where c: "parting ?r cs"
      "filter (concerns ?k) (take (lk_down l) (downlink l)) = take n (noted ?k (rl_sent ?r @ cs))"
      "settled l \<Longrightarrow> length (rl_sent ?r @ cs) \<le> n"
    using server_inv_wire [OF i(3)] i(1) by auto
  have fine: "valid_frame f \<and> about ?k f" if "f \<in> set (rl_sent ?r @ cs)" for f
  proof (cases "f \<in> set (rl_sent ?r)")
    case True
    with sent_frames [OF sh] assms(3-5) i(1) same show ?thesis by auto
  next
    case False
    then have "f = frame_cancel ?k" using that c(1) i(1) by (auto simp: parting_def)
    then show ?thesis using valid_plain_frames(2) about_request(2) by simp
  qed
  then have "noted ?k (rl_sent ?r @ cs) = map Marshal (rl_sent ?r @ cs)"
    by (intro filter_True) (auto intro: concerns_valid)
  then have "filter (about ?k) (frames_in (take (lk_down l) (downlink l))) = frames_in (map Marshal (take n (rl_sent ?r @ cs)))"
    by (simp only: frames_in_concerns c(2) take_map)
  also have "\<dots> = map on_wire (take n (rl_sent ?r @ cs))"
    using fine by (intro frames_in_Marshal) (auto simp: list_all_iff dest: in_set_takeD)
  also have "\<dots> = take n (map on_wire (rl_sent ?r) @ cs)"
  proof -
    have "map on_wire cs = cs" using c(1) by (auto simp: parting_def end_on_wire)
    then show ?thesis by (simp add: take_map [symmetric] del: take_append)
  qed
  finally have "view ?k (rn_client (lk_c l)) = fold view_step (take n (map on_wire (rl_sent ?r) @ cs))
      (view ?k (rn_client (lk_c l0)))" using i(4) by simp
  then have "snd (fold view_step (take n (map on_wire (rl_sent ?r) @ cs)) (view ?k (rn_client (lk_c l0)))) = started l"
    by (metis i(1) snd_conv started_def view_def)
  with c(1,3) that show thesis by blast
qed

lemma link_facts:
  assumes "reachable w" and "link_opens q (new_response fl hj) w l0" and "run_opt link_step ops l0 = Some l"
  shows "opened (lk_r l0)" and "about (rl_req (lk_r l0)) (rl_start (lk_r l0))"
    and "f_Type (rl_start (lk_r l0)) = ''request_start''" and "link_inv l0 ops l"
    and "relay_run (lk_r l0) (handler_events ops) (lk_r l)" and "rl_req (lk_r l) = rl_req (lk_r l0)"
    and "rl_start (lk_r l) = rl_start (lk_r l0)" and "sent_shape (handler_events ops) (lk_r l)"
proof -
  have op: "relay_open q (new_response fl hj) w = Some (Inr (lk_r l0), lk_w l0)"
    using assms(2) by (simp add: link_opens_def)
  show o: "opened (lk_r l0)" by (rule relay_open_opened [OF op])
  show "about (rl_req (lk_r l0)) (rl_start (lk_r l0))" "f_Type (rl_start (lk_r l0)) = ''request_start''"
    using relay_open_start [OF op] by (simp_all add: about_def request_start_def)
  show inv: "link_inv l0 ops l" by (rule link_inv_run [OF link_opens_inv [OF assms(1,2)] assms(3)])
  then show run: "relay_run (lk_r l0) (handler_events ops) (lk_r l)" and "rl_req (lk_r l) = rl_req (lk_r l0)"
    by (simp_all add: link_inv_def Let_def)
  show "rl_start (lk_r l) = rl_start (lk_r l0)" using relay_run_same [OF run] by simp
  show "sent_shape (handler_events ops) (lk_r l)" by (rule sent_shape_run [OF run o])
qed

lemma link_request_once:
  assumes "reachable w" and "link_opens q (new_response fl hj) w l0"
    and "run_opt link_step ops l0 = Some l" and "valid_frame (rl_start (lk_r l0))"
    and "int64 (int (length (rl_sent (lk_r l))))"
  shows "started l \<in> {started l0, started l0 @ [(on_wire (rl_start (lk_r l0)), body_read (handler_events ops))]}"
proof -
  let ?r = "lk_r l" and ?k = "rl_req (lk_r l0)" and ?evs = "handler_events ops"
  let ?st = "on_wire (rl_start (lk_r l0))" and ?v0 = "view (rl_req (lk_r l0)) (rn_client (lk_c l0))"
  note f = link_facts [OF assms(1-3)]
  have v0: "snd ?v0 = started l0" by (simp add: view_def started_def)
  obtain cs n where v: "parting ?r cs" "snd (fold view_step (take n (map on_wire (rl_sent ?r) @ cs)) ?v0) = started l"
    using link_view [OF f(4,1) assms(4) f(2) assms(5)] by blast
  have cs: "cs = [] \<or> cs = [frame_cancel ?k]" using v(1) f(6) by (auto simp: parting_def)
  show ?thesis
  proof (cases "rl_sent ?r = []")
    case True
    then have "started l = started l0" using v(2) v0 cs view_ends(2) [of ?k ?v0] by (cases n) auto
    then show ?thesis by simp
  next
    case False
    obtain gs bss where g: "map on_wire (rl_sent ?r) = on_wire (rl_start ?r) # gs"
        "if f_HasBody (rl_start ?r) then gs = chunk_frames (request_chunk (rl_req ?r)) bss \<or>
          gs = chunk_frames (request_chunk (rl_req ?r)) bss @ [request_end (rl_req ?r)] \<and> concat bss = body_read ?evs
         else gs = [] \<and> body_read ?evs = []"
      by (rule map_on_wire_sent [OF f(8) False])
    have "snd (fold view_step (take n (?st # gs @ cs)) ?v0) \<in> {snd ?v0, snd ?v0 @ [(?st, body_read ?evs)]}"
      by (rule view_request [OF _ _ cs, where bss = bss]) (use f(3) g(2) f(6,7) in \<open>auto split: if_splits\<close>)
    then show ?thesis using v(2) v0 g(1) f(7) by simp
  qed
qed

lemma link_request_done:
  assumes "reachable w" and "link_opens q (new_response fl hj) w l0"
    and "run_opt link_step ops l0 = Some l" and "valid_frame (rl_start (lk_r l0))"
    and "int64 (int (length (rl_sent (lk_r l))))"
    and p: "rl_phase (lk_r l) \<in> {Awaiting, Streaming}" and "settled l"
  shows "started l = started l0 @ [(on_wire (rl_start (lk_r l0)), body_read (handler_events ops))]"
proof -
  let ?r = "lk_r l" and ?k = "rl_req (lk_r l0)" and ?evs = "handler_events ops"
  let ?st = "on_wire (rl_start (lk_r l0))" and ?v0 = "view (rl_req (lk_r l0)) (rn_client (lk_c l0))"
  note f = link_facts [OF assms(1-3)]
  obtain cs n where v: "parting ?r cs" "snd (fold view_step (take n (map on_wire (rl_sent ?r) @ cs)) ?v0) = started l"
      "length (rl_sent ?r @ cs) \<le> n"
    using link_view [OF f(4,1) assms(4) f(2) assms(5)] assms(7) by blast
  have "cs = []" using v(1) p by (auto simp: parting_def)
  then have v': "snd (fold view_step (map on_wire (rl_sent ?r)) ?v0) = started l" using v(2,3) by simp
  obtain bss where b: "rl_sent ?r = sent_chunks ?r bss @ (if f_HasBody (rl_start ?r) then [request_end ?k] else [])"
      "concat bss = body_read ?evs"
    using upload_ok_run [OF f(5,1)] p f(6) by (auto simp: upload_ok_def)
  have nb: "\<not> f_HasBody (rl_start ?r) \<Longrightarrow> bss = []"
    using f(8) b(1) by (cases bss rule: rev_cases) (auto simp: sent_shape_def sent_chunks_def up.chunk_frames_snoc)
  have "snd (fold view_step (?st # chunk_frames (request_chunk ?k) bss @ (if f_HasBody ?st then [request_end ?k] else [])) ?v0)
      = snd ?v0 @ [(?st, body_read ?evs)]"
    by (rule view_whole_request [OF _ refl b(2)]) (use f(3) nb f(7) in simp_all)
  moreover have "map on_wire (rl_sent ?r) = ?st # chunk_frames (request_chunk ?k) bss @
      (if f_HasBody ?st then [request_end ?k] else [])"
    using b(1) f(6,7) by (simp add: sent_chunks_def chunks_on_wire end_on_wire)
  ultimately show ?thesis using v' by (simp add: view_def started_def)
qed

section \<open>The response\<close>

lemma length_started_for: "length (started_for k fws) = length (filter (\<lambda>x. x = k) (map fw_req fws))"
  by (simp add: started_for_def filter_map comp_def)

lemma link_one_goroutine:
  assumes "link_inv l0 ops l" and "started l \<in> {started l0, started l0 @ [x]}"
  shows "length (since (rl_req (lk_r l0)) (length (cl_fwds (rn_client (lk_c l0)))) (cl_fwds (rn_client (lk_c l)))) \<le> 1"
proof -
  let ?k = "rl_req (lk_r l0)" and ?old = "cl_fwds (rn_client (lk_c l0))" and ?new = "cl_fwds (rn_client (lk_c l))"
  have k: "rl_req (lk_r l) = ?k" and r: "map fw_req (take (length ?old) ?new) = map fw_req ?old"
    using assms(1) by (simp_all add: link_inv_def Let_def fw_inv_def)
  have "length (started_for ?k ?new) = length (started_for ?k (take (length ?old) ?new)) + length (started_for ?k (drop (length ?old) ?new))"
    by (metis append_take_drop_id length_append started_for_append)
  moreover have "length (started_for ?k (take (length ?old) ?new)) = length (started_for ?k ?old)"
    by (simp only: length_started_for r)
  moreover have "length (started_for ?k (drop (length ?old) ?new)) = length (since ?k (length ?old) ?new)"
    by (simp add: started_for_def since_def)
  moreover have "length (started_for ?k ?new) \<le> length (started_for ?k ?old) + 1"
    using assms(2) k by (auto simp: started_def)
  ultimately show ?thesis by linarith
qed

text \<open>What the handler has got is what the request's goroutine has sent, or the first part of it.\<close>

lemma link_response:
  assumes inv: "link_inv l0 ops l" and one: "started l \<in> {started l0, started l0 @ [x]}"
    and j: "length (cl_fwds (rn_client (lk_c l0))) \<le> j" "j < length (cl_fwds (rn_client (lk_c l)))"
    and k: "fw_req (cl_fwds (rn_client (lk_c l)) ! j) = rl_req (lk_r l0)"
    and valid: "list_all valid_frame (fw_out (cl_fwds (rn_client (lk_c l)) ! j))"
  shows "\<exists>m. rl_got (lk_r l) = take m (map on_wire (fw_out (cl_fwds (rn_client (lk_c l)) ! j)))"
proof -
  let ?k = "rl_req (lk_r l0)" and ?n = "length (cl_fwds (rn_client (lk_c l0)))" and ?f = "cl_fwds (rn_client (lk_c l))"
  let ?fw = "?f ! j"
  have i: "rl_req (lk_r l) = ?k" "lk_conn l = lk_conn l0" "server_inv l"
      "fw_inv ?k ?n (map fw_req (cl_fwds (rn_client (lk_c l0)))) ops (lk_conn l0) (rn_client (lk_c l))"
    using inv by (simp_all add: link_inv_def Let_def)
  have l1: "length (since ?k ?n ?f) \<le> 1" by (rule link_one_goroutine [OF inv one])
  have s: "since ?k ?n ?f = [?fw]" by (rule since_update_one(1) [OF j refl l1 k])
  have own: "is_response g \<and> f_ReqID g = ?k" if g: "g \<in> set (fw_out ?fw)" for g
  proof -
    obtain k' st body where r: "fw_run (new_forward k' st body) (fw_events j ops) ?fw"
      using i(4) j by (auto simp: fw_inv_def)
    from fw_run_ok [OF r] k have ok: "fwd_ok (fw_events j ops) ?fw" "k' = ?k" by simp_all
    have st: "is_response h \<and> f_ReqID h = ?k" if "h \<in> set (streamed ?k sh bss)" for h sh bss
    proof (cases "h = response_start ?k (fst sh) (snd sh)")
      case False
      then have "h \<in> set (chunk_frames (response_chunk ?k) bss)" using that by (simp add: streamed_def)
      from down.map_chunk_frames(3) [OF this] show ?thesis by (simp add: is_response_def)
    qed (simp add: response_frames)
    have sub: "is_response h \<and> f_ReqID h = ?k" if "fw_out ?fw \<in> set (subseqs (error_frames ?k e))" "h \<in> set (fw_out ?fw)" for h e
      using that by (auto simp: error_frames_def response_frames Let_def)
    show ?thesis
      using ok(1) g k st sub
      by (auto simp: fwd_ok_def Let_def response_frames split: fw_phase.splits)
  qed
  have "heard ?k (uplink l) = heard ?k (fw_out ?fw)"
    using i(2,4) l1 s by (simp add: fw_inv_def outs_def uplink_def)
  also have "\<dots> = map on_wire (fw_out ?fw)" by (rule heard_own [OF valid own])
  finally have h: "heard ?k (uplink l) = map on_wire (fw_out ?fw)" .
  obtain box m where b: "rl_got (lk_r l) @ box = heard ?k (take m (uplink l))"
    using i(1,3) by (auto simp: server_inv_def)
  have "heard ?k (uplink l) = heard ?k (take m (uplink l)) @ heard ?k (drop m (uplink l))"
    by (metis append_take_drop_id heard_append)
  then have "map on_wire (fw_out ?fw) = rl_got (lk_r l) @ box @ heard ?k (drop m (uplink l))"
    using h b by simp
  then show ?thesis by (metis append_eq_conv_conj)
qed

lemma response_on_wire:
  "on_wire (response_chunk k s bs) = response_chunk k s bs" "on_wire (response_end k e) = response_end k e"
  by (rule plain_on_wire; simp add: response_chunk_def response_end_def zero_frame_def)+

lemma response_chunks_on_wire: "map on_wire (chunk_frames (response_chunk k) bss) = chunk_frames (response_chunk k) bss"
  by (induction bss rule: rev_induct)
    (simp_all add: down.chunk_frames_snoc response_on_wire, simp add: chunk_frames_def)

lemma answered_caller:
  assumes "opened r0" and "relay_run r0 evs r" and "fw_run (new_forward k st body) fevs fw"
    and "answers fevs = [(status, hs)]" and "fw_out fw \<noteq> []" and "last (fw_out fw) = response_end k e"
    and "rl_got r = map on_wire (fw_out fw)" and "200 \<le> status" and "status \<le> 999"
  shows "rw_status (rl_rw r) = Some status \<and>
    rw_header (rl_rw r) = rw_header (add_headers (sort_key fst hs) (rl_rw r0)) \<and>
    (\<exists>bss. rw_body (rl_rw r) = map Raw bss \<and> concat bss = bytes_got fevs)"
proof -
  obtain bss where b: "concat bss = bytes_got fevs"
      "fw_out fw = response_start k status hs # chunk_frames (response_chunk k) bss @ [response_end k e]"
    using frames_of_answer [OF assms(3-6)] by (auto simp: chunk_frames_def)
  let ?f0 = "on_wire (response_start k status hs)"
  have got: "rl_got r = ?f0 # chunk_frames (response_chunk k) bss @ [response_end k e]"
    using assms(7) b(2) by (simp add: response_chunks_on_wire response_on_wire)
  have f0: "f_Type ?f0 = ''response_start''" "f_Status ?f0 = status" "f_Headers ?f0 = sort_key fst hs"
    by (simp_all add: response_start_def)
  have "rw_status (rl_rw r) = Some status \<and> rw_header (rl_rw r) = rw_header (add_headers (sort_key fst hs) (rl_rw r0)) \<and>
      rw_body (rl_rw r) = map (Raw \<circ> payload) (chunk_frames (response_chunk k) bss)"
    using answer_to_caller [OF assms(1,2) got f0(1)] assms(8,9) f0(2,3) by (simp add: takeWhile_streamed)
  with b(1) down.map_chunk_frames(1) [of k bss] show ?thesis by (metis map_map)
qed

section \<open>The properties\<close>

text \<open>C1.  A request across the connection, with everything else that the two programs do going on at the
  same time.  At every moment the client has started nothing for the request, or has started it once,
  and then with the start frame of the handler and exactly the bytes that the handler has read from
  the caller, never a part of them, also when the upload broke off or the caller was given up.  And
  when the handler waits for the response, the queue is written and the client has read what is on
  the wire, it has been started.\<close>

theorem request_over_the_link:
  assumes "reachable w" and "link_opens q (new_response fl hj) w l0"
    and "run_opt link_step ops l0 = Some l" and "valid_frame (rl_start (lk_r l0))"
    and "int64 (int (length (rl_sent (lk_r l))))"
  shows "started l \<in> {started l0, started l0 @ [(on_wire (rl_start (lk_r l0)), body_read (handler_events ops))]} \<and>
    (rl_phase (lk_r l) \<in> {Awaiting, Streaming} \<and> settled l \<longrightarrow>
      started l = started l0 @ [(on_wire (rl_start (lk_r l0)), body_read (handler_events ops))])"
  using link_request_once [OF assms] link_request_done [OF assms] by blast

text \<open>C2.  The response, likewise.  What the handler has got is at every moment the beginning of what the
  client's goroutine has sent for this request, in order.  Once it has got all of it, and the goroutine
  has sent its end frame, the caller has the target's status, the target's headers (sorted by the
  encoding, and but for those that are not passed on), and the bytes read from the target.\<close>

theorem response_over_the_link:
  assumes "reachable w" and "link_opens q (new_response fl hj) w l0"
    and "run_opt link_step ops l0 = Some l" and "valid_frame (rl_start (lk_r l0))"
    and "int64 (int (length (rl_sent (lk_r l))))"
    and "length (cl_fwds (rn_client (lk_c l0))) \<le> j" and "j < length (cl_fwds (rn_client (lk_c l)))"
    and "cl_fwds (rn_client (lk_c l)) ! j = fw" and "fw_req fw = rl_req (lk_r l0)"
    and "list_all valid_frame (fw_out fw)" and "answers (fw_events j ops) = [(status, hs)]"
    and "200 \<le> status" and "status \<le> 999"
  shows "(\<exists>m. rl_got (lk_r l) = take m (map on_wire (fw_out fw))) \<and>
    (fw_out fw \<noteq> [] \<and> last (fw_out fw) = response_end (rl_req (lk_r l0)) e \<and>
       length (rl_got (lk_r l)) = length (fw_out fw) \<longrightarrow>
     rw_status (rl_rw (lk_r l)) = Some status \<and>
     rw_header (rl_rw (lk_r l)) = rw_header (add_headers (sort_key fst hs) (new_response fl hj)) \<and>
     (\<exists>bss. rw_body (rl_rw (lk_r l)) = map Raw bss \<and> concat bss = bytes_got (fw_events j ops)))"
proof -
  let ?k = "rl_req (lk_r l0)"
  have op: "relay_open q (new_response fl hj) w = Some (Inr (lk_r l0), lk_w l0)"
    using assms(2) by (simp add: link_opens_def)
  have rw: "rl_rw (lk_r l0) = new_response fl hj"
    using op by (auto simp: relay_open_def split: prod.splits if_splits option.splits dest!: sym [of _ "lk_r l0"])
  have inv: "link_inv l0 ops l" by (rule link_inv_run [OF link_opens_inv [OF assms(1,2)] assms(3)])
  then have run: "relay_run (lk_r l0) (handler_events ops) (lk_r l)"
    and fi: "fw_inv ?k (length (cl_fwds (rn_client (lk_c l0)))) (map fw_req (cl_fwds (rn_client (lk_c l0)))) ops
      (lk_conn l0) (rn_client (lk_c l))" by (simp_all add: link_inv_def Let_def)
  obtain k' st body where r: "fw_run (new_forward k' st body) (fw_events j ops) fw"
    using fi assms(6-8) by (auto simp: fw_inv_def)
  then have k': "k' = ?k" using fw_run_ok assms(9) by metis
  obtain m where m: "rl_got (lk_r l) = take m (map on_wire (fw_out fw))"
    using link_response [OF inv link_request_once [OF assms(1-5)] assms(6,7)] assms(8-10) by auto
  have "rw_status (rl_rw (lk_r l)) = Some status \<and>
     rw_header (rl_rw (lk_r l)) = rw_header (add_headers (sort_key fst hs) (rl_rw (lk_r l0))) \<and>
     (\<exists>bss. rw_body (rl_rw (lk_r l)) = map Raw bss \<and> concat bss = bytes_got (fw_events j ops))"
    if "fw_out fw \<noteq> []" "last (fw_out fw) = response_end ?k e" "length (rl_got (lk_r l)) = length (fw_out fw)"
  proof -
    have "rl_got (lk_r l) = map on_wire (fw_out fw)" using m that(3) by (simp add: min_def split: if_splits)
    then show ?thesis
      using answered_caller [OF relay_open_opened [OF op] run r [unfolded k'] assms(11) that(1,2) _ assms(12,13)] by blast
  qed
  with m rw show ?thesis by auto
qed

section \<open>Witnesses\<close>

text \<open>The tunnel \<open>zzzz0000\<close> of \<open>demo_w2\<close> is online with session 0; what matters of that session.\<close>

definition at_work :: "json list \<Rightarrow> json list \<Rightarrow> frame list \<Rightarrow> World \<Rightarrow> bool" where
  "at_work q u ch w \<longleftrightarrow> 0 < w_nsess w \<and> (\<exists>s. w_sess w 0 = s \<and> s_sendQ s = q \<and> s_wire s = u \<and>
     s_pending s = [(1, 0)] \<and> \<not> s_closed s \<and> \<not> s_writeDone s \<and> s_reading s) \<and>
     w_box w 0 = \<lparr>pr_ch = ch, pr_done = False\<rparr>"

lemma at_work_send:
  assumes "at_work q u ch w" and "length q < 256"
  obtains w' where "sendWithContext PickSend 0 f w = Some (None, w')" and "at_work (q @ [Marshal f]) u ch w'"
  using assms that by (auto simp: at_work_def sendWithContext_def sendQueueCap_def Let_def sess_simps)

lemma at_work_write:
  assumes "at_work (b # q) u ch w"
  obtains w' where "server_exec (Write (Dequeue True) 0) w = Some (Inr w')" and "at_work q (u @ [b]) ch w'"
  using assms that by (auto simp: at_work_def writeTurn_def Let_def sess_simps)

lemma at_work_read:
  assumes "at_work q u ch w" and "valid_frame f" and "is_response f" and "f_ReqID f = 1" and "length ch < 16"
  obtains w' where "server_exec (Read en PickDeliver (Some (Marshal f)) 0) w = Some (Inr w')"
    and "at_work q u (ch @ [on_wire f]) w'"
proof -
  have "is_response (on_wire f)" "f_Type (on_wire f) \<noteq> ''hello''" "f_Type (on_wire f) \<noteq> ''stats''"
    using assms(3) by (auto simp: is_response_def)
  with assms that show thesis
    by (auto simp: at_work_def running_def readStep_def readTurn_def decode_Marshal [OF assms(2)] on_wire_def [symmetric]
        routeResponse_def mailboxCap_def touch_def Let_def sess_simps)
qed

lemma at_work_receive:
  assumes "at_work q u (f # ch) w"
  obtains w' where "receive 0 w = Some (f, w')" and "at_work q u ch w'"
  using assms that by (auto simp: at_work_def receive_def sess_simps)

definition post_q :: request where
  "post_q = \<lparr>q_method = ''POST'', q_path = ''/t/zzzz0000'', q_query = [], q_headers = [], q_hasBody = True\<rparr>"

definition post_relay :: relay where
  "post_relay = \<lparr>rl_tunnel = ''zzzz0000'', rl_sess = 0, rl_req = 1, rl_box = 0,
     rl_start = request_start 1 ''/'' post_q, rl_phase = Starting, rl_rw = new_response True True,
     rl_sent = [], rl_got = []\<rparr>"

definition post_client :: runner where
  "post_client = \<lparr>rn_place = Online, rn_client = demo_client\<lparr>cl_fwds := []\<rparr>, rn_ctx = None, rn_failures = 0\<rparr>"

definition post_link :: "World \<Rightarrow> link" where
  "post_link w = \<lparr>lk_r = post_relay, lk_w = w, lk_c = post_client, lk_conn = 0, lk_down = 0, lk_up = 0\<rparr>"

lemma demo_read_session:
  "\<exists>w. readStep demo_env PickDeliver (Some (Marshal demo_hello)) 0 demo_w1 = Some (Inr w) \<and>
     w_nsess w = 1 \<and> w_nbox w = 0 \<and> s_sendQ (w_sess w 0) = [Marshal (hello_ack ''zzzz0000'' True False [])] \<and>
     s_wire (w_sess w 0) = [] \<and> s_pending (w_sess w 0) = [] \<and> \<not> s_closed (w_sess w 0) \<and>
     \<not> s_writeDone (w_sess w 0) \<and> s_reading (w_sess w 0) \<and> s_nextID (w_sess w 0) = 0 \<and>
     Get (w_reg w) ''zzzz0000'' = Some ((newTunnel 0 ''zzzz0000'')\<lparr>t_session := Some 0\<rparr>)"
proof -
  let ?w = "touch 5 0 demo_w1"
  have w: "w_reg ?w = open_registry" "w_nsess ?w = 1" "w_nbox ?w = 0" "s_helloDone (w_sess ?w 0) = False"
      "s_closed (w_sess ?w 0) = False" "s_sendQ (w_sess ?w 0) = []" "s_wire (w_sess ?w 0) = []"
      "s_pending (w_sess ?w 0) = []" "s_writeDone (w_sess ?w 0) = False" "s_reading (w_sess ?w 0)"
      "s_nextID (w_sess ?w 0) = 0"
    by (simp_all add: touch_def sess_simps demo_w1_def newSession_def fresh_session_def empty_world_def)
  have "readStep demo_env PickDeliver (Some (Marshal demo_hello)) 0 demo_w1
      = map_option (finish 0) (onHello demo_env 0 demo_hello ?w)"
    by (simp add: readStep_finish readTurn_def demo_hello_wire)
  then show ?thesis
    using w by (simp add: onHello_def handleHello_def Register_unowned [of _ "newTunnel 0 ''zzzz0000''"]
        swap_session_def kick_def send_def sendWithContext_def with_deadline_def sendQueueCap_def
        finish_def sess_simps reg_simps)
qed

lemma post_opens:
  obtains w where "relay_open post_q (new_response True True) demo_w2 = Some (Inr post_relay, w)"
    and "at_work [Marshal (hello_ack ''zzzz0000'' True False [])] [] [] w"
proof -
  obtain v where v: "readStep demo_env PickDeliver (Some (Marshal demo_hello)) 0 demo_w1 = Some (Inr v)"
     "w_nsess v = 1" "w_nbox v = 0" "s_sendQ (w_sess v 0) = [Marshal (hello_ack ''zzzz0000'' True False [])]"
     "s_wire (w_sess v 0) = []" "s_pending (w_sess v 0) = []" "\<not> s_closed (w_sess v 0)"
     "\<not> s_writeDone (w_sess v 0)" "s_reading (w_sess v 0)" "s_nextID (w_sess v 0) = 0"
     "Get (w_reg v) ''zzzz0000'' = Some ((newTunnel 0 ''zzzz0000'')\<lparr>t_session := Some 0\<rparr>)"
    using demo_read_session by blast
  have d: "demo_w2 = snd (newSession 2 ''10.0.0.2:7'' v)" by (simp add: demo_w2_def v(1))
  have n: "nextReqIDLoop (in_flight s) 0 = Some 1" if "s_pending s = []" for s
    by (subst nextReqIDLoop.simps) (simp add: in_flight_def that)
  have p: "splitTunnelPath ''/t/zzzz0000'' = (''zzzz0000'', ''/'')" by code_simp
  have i: "idRe ''zzzz0000''" by code_simp
  have "\<exists>w. relay_open post_q (new_response True True) demo_w2 = Some (Inr post_relay, w) \<and>
      at_work [Marshal (hello_ack ''zzzz0000'' True False [])] [] [] w"
    using v(2-) n by (simp add: d relay_open_def post_q_def p i validTunnelID_def newSession_def NextReqID_def
        RegisterPending_def post_relay_def at_work_def sess_simps Let_def)
  with that show thesis by blast
qed

definition post_awaiting :: relay where
  "post_awaiting = post_relay\<lparr>rl_sent := [rl_start post_relay, request_chunk 1 0 [1, 2], request_end 1],
     rl_phase := Awaiting\<rparr>"

definition post_frames :: "frame list" where
  "post_frames = [hello_ack ''zzzz0000'' True False [], rl_start post_relay, request_chunk 1 0 [1, 2], request_end 1]"

lemma post_sel [simp]:
  "rl_sess post_relay = 0" "rl_req post_relay = 1" "rl_box post_relay = 0" "rl_phase post_relay = Starting"
  "rl_sent post_relay = []" "f_HasBody (rl_start post_relay)" "rl_tunnel post_relay = ''zzzz0000''"
  "rl_rw post_relay = new_response True True" "rl_got post_relay = []"
  "rl_sess post_awaiting = 0" "rl_req post_awaiting = 1" "rl_box post_awaiting = 0" "rl_phase post_awaiting = Awaiting"
  "rl_rw post_awaiting = new_response True True" "rl_got post_awaiting = []"
  by (simp_all add: post_relay_def post_awaiting_def request_start_def post_q_def)

lemma post_frames_valid: "list_all valid_frame post_frames"
proof -
  have "valid_frame (hello_ack ''zzzz0000'' True False [])"
    by (simp add: hello_ack_def valid_frame_def zero_frame_def valid_utf8_ascii valid_headers_def)
  moreover have "valid_frame (rl_start post_relay)"
    by (simp add: post_relay_def request_start_def post_q_def valid_frame_def zero_frame_def valid_utf8_ascii
        valid_headers_def filterHeaders_def)
  ultimately show ?thesis by (simp add: post_frames_def valid_plain_frames)
qed

lemma at_work_count: "at_work q u ch w \<Longrightarrow> at_work q u ch (count_request tid w)"
  by (simp add: at_work_def count_request_def sess_simps)

lemma post_uploaded:
  assumes "at_work [b] [] [] w"
  obtains w' where "run_opt link_step [Handler (SendStart PickSend PickSend),
      Handler (ReadBody [1, 2] EOF PickSend PickSend PickSend)] (post_link w) = Some ((post_link w')\<lparr>lk_r := post_awaiting\<rparr>)"
    and "at_work (b # map Marshal (rl_sent post_awaiting)) [] [] w'"
proof -
  obtain w1 where 1: "sendWithContext PickSend 0 (rl_start post_relay) w = Some (None, w1)"
      "at_work [b, Marshal (rl_start post_relay)] [] [] w1"
    using at_work_send [OF assms, of "rl_start post_relay"] by auto
  note c = at_work_count [OF 1(2), of "''zzzz0000''"]
  obtain w2 where 2: "sendWithContext PickSend 0 (request_chunk 1 0 [1, 2]) (count_request ''zzzz0000'' w1) = Some (None, w2)"
      "at_work [b, Marshal (rl_start post_relay), Marshal (request_chunk 1 0 [1, 2])] [] [] w2"
    using at_work_send [OF c, of "request_chunk 1 0 [1, 2]"] by auto
  obtain w3 where 3: "sendWithContext PickSend 0 (request_end 1) w2 = Some (None, w3)"
      "at_work [b, Marshal (rl_start post_relay), Marshal (request_chunk 1 0 [1, 2]), Marshal (request_end 1)] [] [] w3"
    using at_work_send [OF 2(2), of "request_end 1"] by auto
  show thesis
    by (rule that [of w3]) (use 1(1) 2(1) 3 in \<open>simp_all add: post_link_def post_awaiting_def upload_read_def Let_def no_panic_def\<close>)
qed

lemma post_written:
  assumes "at_work q [] [] w" and "rl_sess r = 0"
  obtains w' where "run_opt link_step (replicate (length q) (Serve (Write (Dequeue True) 0))) ((post_link w)\<lparr>lk_r := r\<rparr>) =
      Some ((post_link w')\<lparr>lk_r := r\<rparr>)" and "at_work [] q [] w'"
proof -
  have "\<exists>w'. run_opt link_step (replicate (length q) (Serve (Write (Dequeue True) 0))) ((post_link w)\<lparr>lk_r := r\<rparr>) =
      Some ((post_link w')\<lparr>lk_r := r\<rparr>) \<and> at_work [] (u @ q) [] w'" if "at_work q u [] w" for u
    using that
  proof (induction q arbitrary: u w)
    case (Cons b q)
    obtain w1 where w1: "server_exec (Write (Dequeue True) 0) w = Some (Inr w1)" "at_work q (u @ [b]) [] w1"
      by (rule at_work_write [OF Cons.prems])
    have "link_step (Serve (Write (Dequeue True) 0)) ((post_link w)\<lparr>lk_r := r\<rparr>) = Some ((post_link w1)\<lparr>lk_r := r\<rparr>)"
      using w1(1) by (simp add: post_link_def no_panic_def del: server_exec.simps)
    with Cons.IH [OF w1(2)] show ?case by (simp del: link_step.simps)
  qed (auto intro!: exI)
  from this [of "[]"] assms(1) that show thesis by auto
qed

text \<open>The client after the four frames.\<close>

definition post_started :: client where
  "post_started = demo_client\<lparr>cl_fwds := [new_forward 1 (on_wire (rl_start post_relay)) [1, 2]]\<rparr>"

lemma demo_client_sel [simp]:
  "cl_conn demo_client = Some 0" "cl_conn_open demo_client" "cl_pending demo_client = []" "cl_wire demo_client = []"
  "cl_sem demo_client = 0" "cl_active demo_client = []"
  by (simp_all add: demo_client_def New_def)

lemma post_handled:
  "fold (\<lambda>b c. handle_message None (Some b) c) (map Marshal post_frames) (demo_client\<lparr>cl_fwds := []\<rparr>) = post_started"
proof -
  have d: "Unmarshal (Some (Marshal f)) zero_frame = Some (on_wire f)" if "f \<in> set post_frames" for f
    using that post_frames_valid by (simp add: decode_Marshal list_all_iff on_wire_def)
  have "fold (\<lambda>b c. handle_message None (Some b) c) (map Marshal post_frames) c =
      fold (\<lambda>f. handle_frame None (on_wire f)) post_frames c" for c
    unfolding fold_map comp_def using d by (intro fold_cong) (auto simp: handle_message_def)
  note frames = this
  let ?st = "on_wire (rl_start post_relay)" and ?c = "demo_client\<lparr>cl_fwds := []\<rparr>"
  have st: "f_Type ?st = ''request_start''" "f_ReqID ?st = 1" "f_HasBody ?st"
    by (simp_all add: post_relay_def request_start_def post_q_def)
  have ch: "f_Type (request_chunk 1 0 [1, 2]) = ''request_chunk''" "f_ReqID (request_chunk 1 0 [1, 2]) = 1"
      "f_Seq (request_chunk 1 0 [1, 2]) = 0" "DecodeString (f_Data (request_chunk 1 0 [1, 2])) = Some [1, 2]"
      "f_Type (request_end 1) = ''request_end''" "f_ReqID (request_end 1) = 1"
    by (simp_all add: request_chunk_def request_end_def)
  have "handle_frame None (on_wire (hello_ack ''zzzz0000'' True False [])) ?c = ?c"
    by (simp add: handle_frame_def hello_ack_def)
  moreover have "handle_frame None ?st ?c = ?c\<lparr>cl_pending := [(1, \<lparr>p_start = ?st, p_chunks = []\<rparr>)]\<rparr>"
    using st by (simp add: handle_frame_def handleRequestStart_def Let_def)
  moreover have "handle_frame None (request_chunk 1 0 [1, 2]) (?c\<lparr>cl_pending := [(1, \<lparr>p_start = ?st, p_chunks = []\<rparr>)]\<rparr>) =
      ?c\<lparr>cl_pending := [(1, \<lparr>p_start = ?st, p_chunks = [(0, [1, 2])]\<rparr>)]\<rparr>"
    using ch by (simp add: handle_frame_def handleRequestChunk_def)
  moreover have "handle_frame None (request_end 1) (?c\<lparr>cl_pending := [(1, \<lparr>p_start = ?st, p_chunks = [(0, [1, 2])]\<rparr>)]\<rparr>) =
      ?c\<lparr>cl_pending := [], cl_fwds := [new_forward 1 ?st [1, 2]]\<rparr>"
    using ch by (simp add: handle_frame_def handleRequestEnd_def dispatch_def assemble_def chunk_at_def)
  moreover have "?c\<lparr>cl_pending := [], cl_fwds := [new_forward 1 ?st [1, 2]]\<rparr> = post_started"
    by (simp add: post_started_def demo_client_def New_def)
  ultimately show ?thesis
    unfolding frames by (simp only: post_frames_def fold_simps chunk_on_wire end_on_wire)
qed

definition handled :: "json list \<Rightarrow> client \<Rightarrow> client" where
  "handled bs c = fold (\<lambda>b c. handle_message None (Some b) c) bs c"

lemma link_handled: "same_link c (handled bs c)"
  unfolding handled_def
  by (induction bs arbitrary: c) (auto intro: same_link_trans [OF link_handle_message])

definition post_reading :: "relay \<Rightarrow> World \<Rightarrow> json list \<Rightarrow> link" where
  "post_reading r w bs = (post_link w)\<lparr>lk_r := r,
     lk_c := post_client\<lparr>rn_client := handled bs (demo_client\<lparr>cl_fwds := []\<rparr>)\<rparr>, lk_down := length bs\<rparr>"

lemma post_read:
  assumes "at_work [] u [] w" and "rl_sess r = 0" and "n \<le> length u"
  shows "run_opt link_step (replicate n (ClientReads None pio_good)) ((post_link w)\<lparr>lk_r := r\<rparr>) =
    Some (post_reading r w (take n u))"
  using assms(3)
proof (induction n)
  case 0
  then show ?case by (simp add: post_reading_def post_link_def post_client_def handled_def)
next
  case (Suc n)
  let ?c = "handled (take n u) (demo_client\<lparr>cl_fwds := []\<rparr>)"
  have c: "cl_conn ?c = Some 0" "cl_conn_open ?c"
    using same_link_sel(1,2) [OF link_handled, of "take n u" "demo_client\<lparr>cl_fwds := []\<rparr>"] by simp_all
  have u: "downlink (post_reading r w (take n u)) = u" "lk_down (post_reading r w (take n u)) = n"
    using assms(1,2) Suc.prems by (auto simp: downlink_def post_reading_def at_work_def post_link_def)
  have "handled (take (Suc n) u) (demo_client\<lparr>cl_fwds := []\<rparr>) = handle_message None (Some (u ! n)) ?c"
    using Suc.prems by (simp add: handled_def take_Suc_conv_app_nth)
  then have "link_step (ClientReads None pio_good) (post_reading r w (take n u)) = Some (post_reading r w (take (Suc n) u))"
    using Suc.prems c u by (simp add: Let_def) (simp add: post_reading_def post_link_def post_client_def)
  moreover have "replicate (Suc n) (ClientReads None pio_good) = replicate n (ClientReads None pio_good) @ [ClientReads None pio_good]"
    by (simp add: replicate_append_same)
  moreover have "run_opt link_step (replicate n (ClientReads None pio_good)) ((post_link w)\<lparr>lk_r := r\<rparr>) =
      Some (post_reading r w (take n u))" using Suc by simp
  ultimately show ?case by (simp only: run_opt_snoc bind.bind_lunit)
qed

definition post_ops :: "link_op list" where
  "post_ops = [Handler (SendStart PickSend PickSend), Handler (ReadBody [1, 2] EOF PickSend PickSend PickSend)] @
     replicate 4 (Serve (Write (Dequeue True) 0)) @ replicate 4 (ClientReads None pio_good)"

lemma post_run:
  obtains w w' where "link_opens post_q (new_response True True) demo_w2 (post_link w)"
    and "run_opt link_step post_ops (post_link w) = Some (post_reading post_awaiting w' (map Marshal post_frames))"
    and "at_work [] (map Marshal post_frames) [] w'"
proof -
  let ?b = "Marshal (hello_ack ''zzzz0000'' True False [])" and ?u = "map Marshal post_frames"
  have u: "?u = ?b # map Marshal (rl_sent post_awaiting)" and len: "length ?u = 4" and r: "rl_sess post_awaiting = 0"
    by (simp_all add: post_frames_def post_awaiting_def)
  obtain w where w: "relay_open post_q (new_response True True) demo_w2 = Some (Inr post_relay, w)"
      "at_work [?b] [] [] w" by (rule post_opens)
  obtain w1 where w1: "run_opt link_step [Handler (SendStart PickSend PickSend),
      Handler (ReadBody [1, 2] EOF PickSend PickSend PickSend)] (post_link w) = Some ((post_link w1)\<lparr>lk_r := post_awaiting\<rparr>)"
      "at_work ?u [] [] w1" using post_uploaded [OF w(2)] u by metis
  obtain w2 where w2: "run_opt link_step (replicate 4 (Serve (Write (Dequeue True) 0))) ((post_link w1)\<lparr>lk_r := post_awaiting\<rparr>) =
      Some ((post_link w2)\<lparr>lk_r := post_awaiting\<rparr>)" "at_work [] ?u [] w2"
    by (rule post_written [OF w1(2) r, unfolded len])
  have w3: "run_opt link_step (replicate 4 (ClientReads None pio_good)) ((post_link w2)\<lparr>lk_r := post_awaiting\<rparr>) =
      Some (post_reading post_awaiting w2 ?u)"
    using post_read [OF w2(2) r, of "length ?u"] len by simp
  have "run_opt link_step post_ops (post_link w) = Some (post_reading post_awaiting w2 ?u)"
    unfolding post_ops_def run_opt_append w1(1) bind.bind_lunit w2(1) by (rule w3)
  moreover have "link_opens post_q (new_response True True) demo_w2 (post_link w)"
  proof -
    have "downlink (post_link w) = []" "s_sendQ (w_sess (lk_w (post_link w)) 0) = [?b]"
      using w(2) by (auto simp: downlink_def post_link_def at_work_def)
    moreover have "uplink (post_link w) = []" by (simp add: uplink_def sent_on_def post_link_def post_client_def)
    ultimately show ?thesis
      using w(1) unconcerned(2) [of 1 "''zzzz0000''" True False "[]"]
      by (simp add: link_opens_def fresh_link_def Let_def) (simp add: post_link_def post_client_def)
  qed
  ultimately show thesis using that w2(2) by blast
qed

theorem request_over_the_link_witness:
  "\<exists>w l. run_opt link_step post_ops (post_link w) = Some l \<and> rl_phase (lk_r l) = Awaiting \<and>
     started l = [(on_wire (rl_start post_relay), [1, 2])]"
proof -
  obtain w w' where w: "link_opens post_q (new_response True True) demo_w2 (post_link w)"
      "run_opt link_step post_ops (post_link w) = Some (post_reading post_awaiting w' (map Marshal post_frames))"
      "at_work [] (map Marshal post_frames) [] w'" by (rule post_run)
  let ?l = "post_reading post_awaiting w' (map Marshal post_frames)"
  have l: "lk_r ?l = post_awaiting" "lk_w ?l = w'" "lk_down ?l = length (map Marshal post_frames)"
    by (simp_all add: post_reading_def post_link_def)
  have v: "valid_frame (rl_start (lk_r (post_link w)))"
    using post_frames_valid by (simp add: post_link_def post_frames_def)
  have "length (rl_sent post_awaiting) = 3" by (simp add: post_awaiting_def)
  then have n: "int64 (int (length (rl_sent (lk_r ?l))))" by (simp only: l(1)) (simp add: int64_def)
  have s: "settled ?l" using w(3) by (auto simp: settled_def downlink_def l at_work_def)
  have e: "started (post_link w) = []" "body_read (handler_events post_ops) = [1, 2]"
    by (simp_all add: started_def post_link_def post_client_def started_for_def handler_events_def post_ops_def body_read_def)
  have "started ?l = started (post_link w) @ [(on_wire (rl_start (lk_r (post_link w))), body_read (handler_events post_ops))]"
    using request_over_the_link [OF demo_w2_reachable w(1,2) v n] s l(1) by simp
  with w(2) l(1) e show ?thesis by (intro exI [of _ w] exI [of _ ?l]) (simp add: post_link_def)
qed

text \<open>The target answers with status 200 and one byte.\<close>

definition post_answer :: "frame list" where
  "post_answer = [response_start 1 200 [], response_chunk 1 0 [7], response_end 1 []]"

definition post_answered :: forwarding where
  "post_answered = (new_forward 1 (on_wire (rl_start post_relay)) [1, 2])
     \<lparr>fw_phase := FwDone, fw_cancelled := True, fw_out := post_answer\<rparr>"

definition post_moves :: "fw_event list" where
  "post_moves = [Acquire, Build None None None, Do (Inr (200, [])) None None, ReadResp [7] EOF None None]"

definition post_back :: "link_op list" where
  "post_back = map (\<lambda>ev. ClientMoves (Env (Forwarding 0 ev))) post_moves @
     replicate 3 (ServerReads demo_env PickDeliver) @ replicate 3 (Handler RecvFrame)"

lemma post_answer_valid: "list_all valid_frame post_answer"
  by (simp add: post_answer_def valid_frame_def response_start_def response_chunk_def response_end_def zero_frame_def
      valid_utf8_ascii EncodeToString_ascii valid_headers_def int64_def)

lemma post_forwarded:
  obtains c where "run_opt (\<lambda>ev. forward_step ev 0) post_moves post_started = Some c"
    and "cl_fwds c = [post_answered]" and "sent_on 0 c = post_answer"
proof -
  have "\<exists>c. run_opt (\<lambda>ev. forward_step ev 0) post_moves post_started = Some c \<and>
      cl_fwds c = [post_answered] \<and> sent_on 0 c = post_answer"
    by (simp add: post_moves_def post_started_def demo_client_def post_answered_def post_answer_def new_forward_def
        New_def maxConcurrent_def chunkSize_def client_cfg_def client_opts_def demo_target fw_eval sent_on_def)
  with that show thesis by blast
qed

lemma forwarding_on_link:
  "run_opt (\<lambda>ev. forward_step ev j) evs c = Some c' \<Longrightarrow> rn_client (lk_c l) = c \<Longrightarrow>
   run_opt link_step (map (\<lambda>ev. ClientMoves (Env (Forwarding j ev))) evs) l =
     Some (l\<lparr>lk_c := (lk_c l)\<lparr>rn_client := c'\<rparr>\<rparr>)"
  by (induction evs arbitrary: c l) (auto simp: bind_eq_Some_conv)

lemma post_heard:
  assumes "at_work q u [] (lk_w l)" and "uplink l = post_answer" and "lk_up l = 0" and "rl_sess (lk_r l) = 0" and "n \<le> 3"
  obtains w where "run_opt link_step (replicate n (ServerReads demo_env PickDeliver)) l = Some (l\<lparr>lk_w := w, lk_up := n\<rparr>)"
    and "at_work q u (map on_wire (take n post_answer)) w"
proof -
  have "\<exists>w. run_opt link_step (replicate n (ServerReads demo_env PickDeliver)) l = Some (l\<lparr>lk_w := w, lk_up := n\<rparr>) \<and>
      at_work q u (map on_wire (take n post_answer)) w"
    using assms(5)
  proof (induction n)
    case 0
    show ?case by (intro exI [of _ "lk_w l"]) (use assms(1,3) in simp)
  next
    case (Suc n)
    then obtain w where w: "run_opt link_step (replicate n (ServerReads demo_env PickDeliver)) l = Some (l\<lparr>lk_w := w, lk_up := n\<rparr>)"
        "at_work q u (map on_wire (take n post_answer)) w" by auto
    let ?l = "l\<lparr>lk_w := w, lk_up := n\<rparr>" and ?f = "post_answer ! n"
    have len: "length post_answer = 3" by (simp add: post_answer_def)
    have m: "?f \<in> set post_answer" using Suc.prems len by simp
    have f: "valid_frame ?f" "is_response ?f" "f_ReqID ?f = 1"
      using post_answer_valid m by (auto simp: list_all_iff post_answer_def response_frames)
    obtain w' where w': "server_exec (Read demo_env PickDeliver (Some (Marshal ?f)) 0) w = Some (Inr w')"
        "at_work q u (map on_wire (take n post_answer) @ [on_wire ?f]) w'"
      by (rule at_work_read [OF w(2) f]) (use Suc.prems len in simp)
    have "link_step (ServerReads demo_env PickDeliver) ?l = Some (l\<lparr>lk_w := w', lk_up := Suc n\<rparr>)"
      using w'(1) assms(2,4) Suc.prems len by (simp add: uplink_def del: server_exec.simps)
    moreover have "replicate (Suc n) (ServerReads demo_env PickDeliver) =
        replicate n (ServerReads demo_env PickDeliver) @ [ServerReads demo_env PickDeliver]"
      by (simp add: replicate_append_same)
    ultimately have "run_opt link_step (replicate (Suc n) (ServerReads demo_env PickDeliver)) l = Some (l\<lparr>lk_w := w', lk_up := Suc n\<rparr>)"
      using w(1) by (simp only: run_opt_snoc bind.bind_lunit)
    with w'(2) Suc.prems len show ?case by (intro exI [of _ w']) (simp add: take_Suc_conv_app_nth)
  qed
  with that show thesis by blast
qed

lemma post_received:
  assumes "at_work q u (map on_wire post_answer) (lk_w l)" and "lk_r l = post_awaiting"
  obtains r w where "run_opt link_step (replicate 3 (Handler RecvFrame)) l = Some (l\<lparr>lk_r := r, lk_w := w\<rparr>)"
    and "rl_got r = map on_wire post_answer" and "rl_sent r = rl_sent post_awaiting"
proof -
  let ?a = "on_wire (response_start 1 200 [])" and ?b = "response_chunk 1 0 [7]" and ?e = "response_end 1 []"
  have fs: "map on_wire post_answer = [?a, ?b, ?e]" by (simp add: post_answer_def response_on_wire)
  obtain rw where rw: "on_first ?a (rl_rw post_awaiting) = GoOn rw"
    using start_goes_on [of 200 1 "[]" "rl_rw post_awaiting"] by (auto simp: on_first_def response_start_def)
  let ?r1 = "post_awaiting\<lparr>rl_got := [?a], rl_phase := Streaming, rl_rw := rw\<rparr>"
  let ?r2 = "?r1\<lparr>rl_got := [?a, ?b], rl_rw := Flush_part (Write_part (Raw (payload ?b)) rw)\<rparr>"
  obtain w1 where w1: "receive 0 (lk_w l) = Some (?a, w1)" "at_work q u [?b, ?e] w1"
    by (rule at_work_receive [OF assms(1) [unfolded fs]])
  obtain w2 where w2: "receive 0 w1 = Some (?b, w2)" "at_work q u [?e] w2" by (rule at_work_receive [OF w1(2)])
  obtain w3 where w3: "receive 0 w2 = Some (?e, w3)" "at_work q u [] w3" by (rule at_work_receive [OF w2(2)])
  obtain w4 where w4: "UnregisterPending 0 1 w3 = Inr w4"
    using w3(2) by (auto simp: UnregisterPending_def close_done_def at_work_def)
  have 1: "link_step (Handler RecvFrame) l = Some (l\<lparr>lk_r := ?r1, lk_w := w1\<rparr>)"
    using w1(1) rw assms(2) by (simp add: on_got_def no_panic_def)
  have 2: "link_step (Handler RecvFrame) (l\<lparr>lk_r := ?r1, lk_w := w1\<rparr>) = Some (l\<lparr>lk_r := ?r2, lk_w := w2\<rparr>)"
    using w2(1) response_chunk_good [of 1 0 "[7]"] by (simp add: on_got_def on_frame_good no_panic_def)
  let ?r3 = "?r2\<lparr>rl_got := [?a, ?b, ?e], rl_phase := Finished Returned\<rparr>"
  have 3: "link_step (Handler RecvFrame) (l\<lparr>lk_r := ?r2, lk_w := w2\<rparr>) = Some (l\<lparr>lk_r := ?r3, lk_w := w4\<rparr>)"
    using w3(1) w4 response_end_bad [of 1 "[]"] by (simp add: on_got_def on_frame_good leave_def no_panic_def)
  have "run_opt link_step (replicate 3 (Handler RecvFrame)) l = Some (l\<lparr>lk_r := ?r3, lk_w := w4\<rparr>)"
    using 1 2 3 by (simp add: numeral_3_eq_3 del: link_step.simps)
  then show thesis by (rule that) (simp_all add: fs)
qed

theorem response_over_the_link_witness:
  "\<exists>w l. run_opt link_step (post_ops @ post_back) (post_link w) = Some l \<and>
     rw_status (rl_rw (lk_r l)) = Some 200 \<and> (\<exists>bss. rw_body (rl_rw (lk_r l)) = map Raw bss \<and> concat bss = [7])"
proof -
  let ?u = "map Marshal post_frames"
  obtain w w1 where w: "link_opens post_q (new_response True True) demo_w2 (post_link w)"
      "run_opt link_step post_ops (post_link w) = Some (post_reading post_awaiting w1 ?u)" "at_work [] ?u [] w1"
    by (rule post_run)
  let ?l1 = "post_reading post_awaiting w1 ?u"
  have c1: "rn_client (lk_c ?l1) = post_started" using post_handled by (simp add: post_reading_def handled_def)
  obtain c where c: "run_opt (\<lambda>ev. forward_step ev 0) post_moves post_started = Some c"
      "cl_fwds c = [post_answered]" "sent_on 0 c = post_answer" by (rule post_forwarded)
  let ?l2 = "?l1\<lparr>lk_c := (lk_c ?l1)\<lparr>rn_client := c\<rparr>\<rparr>"
  have 2: "run_opt link_step (map (\<lambda>ev. ClientMoves (Env (Forwarding 0 ev))) post_moves) ?l1 = Some ?l2"
    by (rule forwarding_on_link [OF c(1) c1])
  have l2: "lk_w ?l2 = w1" "uplink ?l2 = post_answer" "lk_up ?l2 = 0" "lk_r ?l2 = post_awaiting"
    using c(3) by (simp_all add: uplink_def post_reading_def post_link_def)
  obtain w2 where w2: "run_opt link_step (replicate 3 (ServerReads demo_env PickDeliver)) ?l2 = Some (?l2\<lparr>lk_w := w2, lk_up := 3\<rparr>)"
      "at_work [] ?u (map on_wire (take 3 post_answer)) w2"
    by (rule post_heard [of "[]" ?u ?l2 3]) (use w(3) l2 in simp_all)
  let ?l3 = "?l2\<lparr>lk_w := w2, lk_up := 3\<rparr>"
  have "at_work [] ?u (map on_wire post_answer) (lk_w ?l3)" "lk_r ?l3 = post_awaiting"
    using w2(2) l2(4) by (simp_all add: post_answer_def)
  then obtain r w3 where r: "run_opt link_step (replicate 3 (Handler RecvFrame)) ?l3 = Some (?l3\<lparr>lk_r := r, lk_w := w3\<rparr>)"
      "rl_got r = map on_wire post_answer" "rl_sent r = rl_sent post_awaiting" by (rule post_received)
  let ?l = "?l3\<lparr>lk_r := r, lk_w := w3\<rparr>"
  have run: "run_opt link_step (post_ops @ post_back) (post_link w) = Some ?l"
    unfolding post_back_def run_opt_append w(2) bind.bind_lunit 2 w2(1) by (rule r(1))
  have v: "valid_frame (rl_start (lk_r (post_link w)))"
    using post_frames_valid by (simp add: post_link_def post_frames_def)
  have n: "int64 (int (length (rl_sent (lk_r ?l))))" using r(3) by (simp add: int64_def post_awaiting_def)
  have ev: "fw_events 0 (post_ops @ post_back) = post_moves"
    by (simp add: fw_events_def post_ops_def post_back_def post_moves_def eval_nat_numeral)
  have p: "length (cl_fwds (rn_client (lk_c (post_link w)))) \<le> 0" "0 < length (cl_fwds (rn_client (lk_c ?l)))"
      "cl_fwds (rn_client (lk_c ?l)) ! 0 = post_answered" "fw_req post_answered = rl_req (lk_r (post_link w))"
      "list_all valid_frame (fw_out post_answered)" "answers (fw_events 0 (post_ops @ post_back)) = [(200, [])]"
    using c(2) post_answer_valid ev
    by (simp_all add: post_link_def post_client_def post_answered_def new_forward_def answers_def post_moves_def)
  have q: "fw_out post_answered \<noteq> []" "last (fw_out post_answered) = response_end 1 []"
      "length (rl_got (lk_r ?l)) = length (fw_out post_answered)" "bytes_got post_moves = [7]"
      "rl_req (lk_r (post_link w)) = 1"
    using r(2) by (simp_all add: post_answered_def post_answer_def post_moves_def bytes_got_def post_link_def)
  have "rw_status (rl_rw (lk_r ?l)) = Some 200 \<and> (\<exists>bss. rw_body (rl_rw (lk_r ?l)) = map Raw bss \<and> concat bss = [7])"
    using response_over_the_link [OF demo_w2_reachable w(1) run v n p, of "[]"] q ev by auto
  with run show ?thesis by blast
qed

end
