(* ===== verification/Target.thy ===== *)
theory Target
  imports Link
begin

text \<open>
  What the target gets of a caller's request: the request that the goroutine of the client makes, across
  the connection of \<open>Link\<close>, and what \<open>net/url\<close> makes of its URL.
\<close>

section \<open>The URL of a request\<close>

text \<open>\<open>http.NewRequest\<close> parses the URL: the fragment goes, the query begins at the first question mark,
  and the escapes of the path are decoded (\<open>None\<close> where one is malformed).\<close>

definition url_cut :: "string \<Rightarrow> string \<times> string" where
  "url_cut url =
     (let u = takeWhile (\<lambda>c. c \<noteq> CHR ''#'') url
      in (takeWhile (\<lambda>c. c \<noteq> CHR ''?'') u, drop 1 (dropWhile (\<lambda>c. c \<noteq> CHR ''?'') u)))"







text \<open>Where the decoded path has a question mark, the parts are not the caller's.\<close>

lemma url_confused:
  "url_cut (''http://h'' @ ''/a?b'') = (''http://h/a'', ''b'')"
  "url_cut (''http://h'' @ ''/a'' @ ''?'' @ ''b'') = (''http://h/a'', ''b'')"
  by (simp_all add: url_cut_def)

section \<open>Where a goroutine's request comes from\<close>











section \<open>The property\<close>




section \<open>Witness\<close>




end
