(* ===== verification/DebugLog.thy ===== *)
theory DebugLog
  imports Relay
begin

text \<open>
  The debug middleware (\<open>internal/server/debuglog.go\<close>): the recording writer around the server's
  response writer, and the two log lines of a request.  A handler is a tree of calls on its writer: each
  call is followed by what the handler does with what the call returned (the bytes written, whether the
  connection could be taken over).
\<close>

section \<open>The writer of the server\<close>

text \<open>The writer of \<open>net/http\<close>: the response, and whether the connection has been taken over with
  \<open>Hijack\<close>.  From then on it refuses everything: a status is ignored, \<open>Write\<close> writes nothing, and a
  second \<open>Hijack\<close> fails.  A status code that \<open>net/http\<close> refuses with a panic gives \<open>None\<close>.\<close>

record writer =
  wr_resp :: response
  wr_taken :: bool

definition net_WriteHeader :: "int \<Rightarrow> writer \<Rightarrow> writer option" where
  "net_WriteHeader status w =
     (if wr_taken w then Some w
      else map_option (\<lambda>rw. w\<lparr>wr_resp := rw\<rparr>) (WriteHeader status (wr_resp w)))"

text \<open>\<open>n\<close> is the number of bytes a \<open>Write\<close> on the live connection reports, \<open>err\<close> its error.\<close>

definition net_Write :: "body_part \<Rightarrow> nat \<Rightarrow> go_error option \<Rightarrow> writer \<Rightarrow> (nat \<times> go_error option) \<times> writer" where
  "net_Write b n err w =
     (if wr_taken w then ((0, Some ''http: connection has been hijacked''), w)
      else ((n, err), w\<lparr>wr_resp := Write_part b (wr_resp w)\<rparr>))"

definition net_Flush :: "writer \<Rightarrow> writer" where
  "net_Flush w = (if wr_taken w then w else w\<lparr>wr_resp := Flush_part (wr_resp w)\<rparr>)"

definition net_Hijack :: "go_error option \<Rightarrow> writer \<Rightarrow> go_error option \<times> writer" where
  "net_Hijack res w =
     (if wr_taken w then (Some ''http: connection has been hijacked'', w)
      else if res \<noteq> None then (res, w) else (None, w\<lparr>wr_taken := True\<rparr>))"

section \<open>The wrapper\<close>

record recordingWriter =
  rc_inner :: writer
  rc_status :: int
  rc_bytes :: int
  rc_hijacked :: bool

definition rec_WriteHeader :: "int \<Rightarrow> recordingWriter \<Rightarrow> recordingWriter option" where
  "rec_WriteHeader status w =
     (let w1 = w\<lparr>rc_status := status\<rparr>
      in map_option (\<lambda>inner. w1\<lparr>rc_inner := inner\<rparr>) (net_WriteHeader status (rc_inner w1)))"

definition rec_Write ::
    "body_part \<Rightarrow> nat \<Rightarrow> go_error option \<Rightarrow> recordingWriter \<Rightarrow> (nat \<times> go_error option) \<times> recordingWriter" where
  "rec_Write b n err w =
     (let (ret, inner) = net_Write b n err (rc_inner w);
          w1 = w\<lparr>rc_inner := inner\<rparr>
      in (ret, w1\<lparr>rc_bytes := rc_bytes w1 + int (fst ret)\<rparr>))"

definition rec_Flush :: "recordingWriter \<Rightarrow> recordingWriter" where
  "rec_Flush w =
     (if rw_flusher (wr_resp (rc_inner w)) then w\<lparr>rc_inner := net_Flush (rc_inner w)\<rparr> else w)"

definition rec_Hijack :: "go_error option \<Rightarrow> recordingWriter \<Rightarrow> go_error option \<times> recordingWriter" where
  "rec_Hijack res w =
     (if \<not> rw_hijacker (wr_resp (rc_inner w)) then (Some ''response writer does not support hijacking'', w)
      else
        (let w1 = w\<lparr>rc_hijacked := True\<rparr>;
             (err, inner) = net_Hijack res (rc_inner w1)
         in (err, w1\<lparr>rc_inner := inner\<rparr>)))"

definition recording :: "writer \<Rightarrow> recordingWriter" where
  "recording w = \<lparr>rc_inner = w, rc_status = 200, rc_bytes = 0, rc_hijacked = False\<rparr>"

section \<open>Handlers\<close>

text \<open>The calls, with what the connection makes of them, and what each returns to the handler.  A handler
  tests for \<open>Flusher\<close> and \<open>Hijacker\<close> before it uses them, and of a \<open>Hijack\<close> it uses whether it has got the
  connection.\<close>

datatype writer_op =
    SetHeader string string
  | PutStatus int
  | PutBody body_part nat "go_error option"
  | FlushBody
  | Hijack "go_error option"

datatype observation = Nothing | Wrote nat "go_error option" | Taken bool

datatype handler = Return | Call writer_op "observation \<Rightarrow> handler"

fun plain_op :: "writer_op \<Rightarrow> writer \<Rightarrow> (observation \<times> writer) option" where
  "plain_op (SetHeader k v) w = Some (Nothing, w\<lparr>wr_resp := Header_Set k v (wr_resp w)\<rparr>)"
| "plain_op (PutStatus c) w = map_option (Pair Nothing) (net_WriteHeader c w)"
| "plain_op (PutBody b n err) w =
     (let (ret, w') = net_Write b n err w in Some (Wrote (fst ret) (snd ret), w'))"
| "plain_op FlushBody w = Some (Nothing, net_Flush w)"
| "plain_op (Hijack res) w =
     (if \<not> rw_hijacker (wr_resp w) then Some (Taken False, w)
      else (let (err, w') = net_Hijack res w in Some (Taken (err = None), w')))"

fun rec_op :: "writer_op \<Rightarrow> recordingWriter \<Rightarrow> (observation \<times> recordingWriter) option" where
  "rec_op (SetHeader k v) w =
     Some (Nothing, w\<lparr>rc_inner := (rc_inner w)\<lparr>wr_resp := Header_Set k v (wr_resp (rc_inner w))\<rparr>\<rparr>)"
| "rec_op (PutStatus c) w = map_option (Pair Nothing) (rec_WriteHeader c w)"
| "rec_op (PutBody b n err) w =
     (let (ret, w') = rec_Write b n err w in Some (Wrote (fst ret) (snd ret), w'))"
| "rec_op FlushBody w = Some (Nothing, rec_Flush w)"
| "rec_op (Hijack res) w = (let (err, w') = rec_Hijack res w in Some (Taken (err = None), w'))"

text \<open>A handler runs on a writer of either kind: the calls it has made with what they returned, and the
  writer it leaves.\<close>

type_synonym calls = "(writer_op \<times> observation) list"

primrec serve :: "(writer_op \<Rightarrow> 'w \<Rightarrow> (observation \<times> 'w) option) \<Rightarrow> handler \<Rightarrow> 'w \<Rightarrow> (calls \<times> 'w) option" where
  "serve call Return w = Some ([], w)"
| "serve call (Call q k) w =
     (case call q w of
        None \<Rightarrow> None
      | Some (ob, w1) \<Rightarrow> map_option (\<lambda>(tr, w2). ((q, ob) # tr, w2)) (serve call (k ob) w1))"

section \<open>The middleware\<close>

record log_entry =
  le_method :: string
  le_path :: string
  le_status :: int
  le_bytes :: int

definition logRequests ::
    "handler \<Rightarrow> string \<Rightarrow> string \<Rightarrow> writer \<Rightarrow> ((calls \<times> writer) \<times> log_entry) option" where
  "logRequests handler method path w =
     (case serve rec_op handler (recording w) of
        None \<Rightarrow> None
      | Some (tr, rec) \<Rightarrow>
          Some ((tr, rc_inner rec), \<lparr>le_method = method, le_path = path,
            le_status = (if rc_hijacked rec then 101 else rc_status rec), le_bytes = rc_bytes rec\<rparr>))"

text \<open>The root handler: \<open>debug\<close> decides once whether the middleware is there.\<close>

definition Handler :: "bool \<Rightarrow> handler \<Rightarrow> string \<Rightarrow> string \<Rightarrow> writer \<Rightarrow> (calls \<times> writer) option" where
  "Handler debug handler method path w =
     (if debug then map_option fst (logRequests handler method path w) else serve plain_op handler w)"

section \<open>Transparency\<close>

lemmas rec_defs = rec_WriteHeader_def rec_Write_def rec_Flush_def rec_Hijack_def
lemmas net_defs = net_WriteHeader_def net_Write_def net_Flush_def net_Hijack_def

lemma rec_op_inner: "map_option (map_prod id rc_inner) (rec_op q w) = plain_op q (rc_inner w)"
  by (cases q) (auto simp: rec_defs net_defs Flush_part_def Let_def option.map_comp comp_def option.map_ident
      split: prod.splits)

lemma serve_rec_inner:
  "map_option (map_prod id rc_inner) (serve rec_op h w) = serve plain_op h (rc_inner w)"
proof (induction h arbitrary: w)
  case (Call q k)
  show ?case
  proof (cases "rec_op q w")
    case None
    then show ?thesis using rec_op_inner [of q w] by simp
  next
    case (Some p)
    then have "plain_op q (rc_inner w) = Some (fst p, rc_inner (snd p))"
      using rec_op_inner [of q w] by (cases p) simp
    then show ?thesis
      using Some Call.IH [of "k (fst p)" "snd p", OF rangeI]
      by (cases "serve rec_op (k (fst p)) (snd p)") (auto simp: case_prod_beta dest: sym)
  qed
qed simp

text \<open>What is recorded after a run of calls.\<close>

fun wrote :: "observation \<Rightarrow> nat" where
  "wrote (Wrote n err) = n"
| "wrote _ = 0"

definition hijack_tried :: "calls \<Rightarrow> bool" where
  "hijack_tried tr \<longleftrightarrow> list_ex (\<lambda>(q, ob). case q of Hijack res \<Rightarrow> True | _ \<Rightarrow> False) tr"

text \<open>The handlers of this server set at most one status, a final one, and set it before they write.\<close>

definition sets_status :: "writer_op \<times> observation \<Rightarrow> bool" where
  "sets_status p = (case fst p of PutStatus c \<Rightarrow> True | _ \<Rightarrow> False)"

fun tidy :: "calls \<Rightarrow> bool" where
  "tidy [] = True"
| "tidy ((PutStatus c, ob) # qs) = (200 \<le> c \<and> c \<le> 999 \<and> \<not> list_ex sets_status qs)"
| "tidy ((PutBody b n err, ob) # qs) = (\<not> list_ex sets_status qs)"
| "tidy (_ # qs) = tidy qs"

definition seen_status :: "response \<Rightarrow> int" where
  "seen_status rw = (case rw_status rw of None \<Rightarrow> 200 | Some c \<Rightarrow> c)"

lemma rec_op_bytes: "rec_op q w = Some (ob, w') \<Longrightarrow> rc_bytes w' = rc_bytes w + int (wrote ob)"
  by (cases q) (auto simp: rec_defs net_defs Let_def split: prod.splits if_splits)

lemma caps_kept [simp]:
  "rw_hijacker (Header_Set k v rw) = rw_hijacker rw" "rw_hijacker (Write_part b rw) = rw_hijacker rw"
  "rw_hijacker (Flush_part rw) = rw_hijacker rw" "rw_hijacker (put_status c rw) = rw_hijacker rw"
  by (simp_all add: Header_Set_def Write_part_def Flush_part_def put_status_def split: option.splits)

lemma WriteHeader_hijacker: "WriteHeader c rw = Some rw' \<Longrightarrow> rw_hijacker rw' = rw_hijacker rw"
  by (auto simp: WriteHeader_def split: if_splits option.splits)

lemma rec_op_hijack:
  assumes "rec_op q w = Some (ob, w')"
  shows "rw_hijacker (wr_resp (rc_inner w')) = rw_hijacker (wr_resp (rc_inner w))"
    and "rc_hijacked w' \<longleftrightarrow> rc_hijacked w \<or> hijack_tried [(q, ob)] \<and> rw_hijacker (wr_resp (rc_inner w))"
  using assms
  by (cases q; auto simp: rec_defs net_defs Let_def hijack_tried_def WriteHeader_hijacker split: prod.splits if_splits)+

lemma serve_Call:
  assumes "serve call (Call q k) w = Some (tr, w')"
  obtains ob w1 tr1 where "call q w = Some (ob, w1)" "serve call (k ob) w1 = Some (tr1, w')" "tr = (q, ob) # tr1"
  using assms by (auto split: option.splits prod.splits)

lemma serve_rec_bytes:
  "serve rec_op h w = Some (tr, w') \<Longrightarrow> rc_bytes w' = rc_bytes w + int (sum_list (map (wrote \<circ> snd) tr))"
proof (induction h arbitrary: w tr)
  case (Call q k)
  from Call.prems obtain ob w1 tr1 where
    s: "rec_op q w = Some (ob, w1)" "serve rec_op (k ob) w1 = Some (tr1, w')" "tr = (q, ob) # tr1" by (rule serve_Call)
  from Call.IH [OF rangeI s(2)] rec_op_bytes [OF s(1)] s(3) show ?case by simp
qed simp

lemma serve_rec_hijack:
  "serve rec_op h w = Some (tr, w') \<Longrightarrow>
     rc_hijacked w' \<longleftrightarrow> rc_hijacked w \<or> hijack_tried tr \<and> rw_hijacker (wr_resp (rc_inner w))"
proof (induction h arbitrary: w tr)
  case (Call q k)
  from Call.prems obtain ob w1 tr1 where
    s: "rec_op q w = Some (ob, w1)" "serve rec_op (k ob) w1 = Some (tr1, w')" "tr = (q, ob) # tr1" by (rule serve_Call)
  from Call.IH [OF rangeI s(2)] rec_op_hijack [OF s(1)] s(3) show ?case by (auto simp: hijack_tried_def)
qed (simp add: hijack_tried_def)

text \<open>A connection that nobody has tried to take over is not taken.\<close>

lemma rec_op_not_taken:
  "rec_op q w = Some (ob, w') \<Longrightarrow> \<not> rc_hijacked w' \<Longrightarrow> \<not> wr_taken (rc_inner w) \<Longrightarrow> \<not> wr_taken (rc_inner w')"
  by (cases q) (auto simp: rec_defs net_defs Let_def split: prod.splits if_splits)

lemma no_status_kept:
  assumes "serve rec_op h w = Some (tr, w')" and "\<not> list_ex sets_status tr"
    and "rc_status w = seen_status (wr_resp (rc_inner w))"
  shows "rc_status w' = seen_status (wr_resp (rc_inner w'))"
  using assms
proof (induction h arbitrary: w tr)
  case (Call q k)
  from Call.prems(1) obtain ob w1 tr1 where
    s: "rec_op q w = Some (ob, w1)" "serve rec_op (k ob) w1 = Some (tr1, w')" "tr = (q, ob) # tr1" by (rule serve_Call)
  have "rc_status w1 = seen_status (wr_resp (rc_inner w1))"
    using Call.prems(2,3) s(1,3)
    by (cases q) (auto simp: rec_defs net_defs Let_def seen_status_def sets_status_def
        Write_part_def put_status_def Header_Set_def Flush_part_def split: option.splits if_splits)
  from Call.IH [OF rangeI s(2) _ this] Call.prems(2) s(3) show ?case by simp
qed simp

lemma tidy_status:
  assumes "serve rec_op h w = Some (tr, w')" and "tidy tr" and "\<not> rc_hijacked w'" and "\<not> wr_taken (rc_inner w)"
    and "rc_status w = 200" and "rw_status (wr_resp (rc_inner w)) = None"
  shows "rc_status w' = seen_status (wr_resp (rc_inner w'))"
  using assms
proof (induction h arbitrary: w tr)
  case (Call q k)
  from Call.prems(1) obtain ob w1 tr1 where
    s: "rec_op q w = Some (ob, w1)" "serve rec_op (k ob) w1 = Some (tr1, w')" "tr = (q, ob) # tr1" by (rule serve_Call)
  have t: "\<not> wr_taken (rc_inner w1)"
    using rec_op_not_taken [OF s(1) _ Call.prems(4)] serve_rec_hijack [OF s(2)] Call.prems(3) by simp
  show ?case
  proof (cases "(\<exists>c. q = PutStatus c) \<or> (\<exists>b n err. q = PutBody b n err)")
    case True
    then have "\<not> list_ex sets_status tr1" "rc_status w1 = seen_status (wr_resp (rc_inner w1))"
      using Call.prems s(1,3)
      by (auto simp: rec_defs net_defs WriteHeader_def Write_part_def put_status_def seen_status_def Let_def)
    then show ?thesis by (rule no_status_kept [OF s(2)])
  next
    case False
    then have "tidy tr1" "rc_status w1 = 200" "rw_status (wr_resp (rc_inner w1)) = None"
      using Call.prems s(1,3)
      by (cases q; auto simp: rec_defs net_defs Header_Set_def Flush_part_def Let_def split: if_splits)+
    from Call.IH [OF rangeI s(2) this(1) Call.prems(3) t this(2,3)] show ?thesis .
  qed
qed (simp add: seen_status_def)

text \<open>C36.  Debug logging is transparent: whatever a handler does, it makes the same calls, gets the same
  answers (bytes written, errors, whether it has got the connection) and leaves the same response and the
  same ownership of the connection as without the middleware, panics included.  The log line has the
  bytes the writes have reported.  Its status is 101 when the handler has tried to take over a connection
  that can be taken over, and otherwise, for a handler that sets its status once, the status the caller has seen.\<close>

theorem logging_is_transparent:
  "Handler True handler method path w = Handler False handler method path w \<and>
   (logRequests handler method path w = Some ((tr, w'), e) \<longrightarrow>
      Handler False handler method path w = Some (tr, w') \<and>
      le_bytes e = int (sum_list (map (wrote \<circ> snd) tr)) \<and>
      (hijack_tried tr \<and> rw_hijacker (wr_resp w) \<longrightarrow> le_status e = 101) \<and>
      (\<not> (hijack_tried tr \<and> rw_hijacker (wr_resp w)) \<and> tidy tr \<and> rw_status (wr_resp w) = None \<and> \<not> wr_taken w \<longrightarrow>
         le_status e = seen_status (wr_resp w')))"
proof (cases "serve rec_op handler (recording w)")
  case None
  then show ?thesis
    using serve_rec_inner [of handler "recording w"] by (simp add: Handler_def logRequests_def recording_def)
next
  case (Some p)
  obtain tr1 rec where p: "p = (tr1, rec)" by (cases p)
  note s = Some [unfolded p]
  show ?thesis
    using serve_rec_inner [of handler "recording w"] serve_rec_bytes [OF s] serve_rec_hijack [OF s] tidy_status [OF s] s
    by (auto simp: Handler_def logRequests_def recording_def)
qed

text \<open>The WebSocket upgrade of an HTTP/1.1 connection, and a page.\<close>

definition upgrade_handler :: "go_error option \<Rightarrow> handler" where
  "upgrade_handler res = Call (Hijack res) (\<lambda>ob.
     if ob = Taken True then Return
     else Call (PutStatus 500) (\<lambda>_. Call (PutBody (Raw [1, 2]) 2 None) (\<lambda>_. Return)))"

definition fresh_writer :: writer where
  "fresh_writer = \<lparr>wr_resp = new_response True True, wr_taken = False\<rparr>"

lemmas log_eval = logRequests_def upgrade_handler_def fresh_writer_def recording_def rec_defs net_defs
  new_response_def WriteHeader_def Write_part_def put_status_def

theorem logging_is_transparent_witness:
  "\<exists>w' e. Handler False (upgrade_handler None) ''GET'' ''/tunnel'' fresh_writer =
       Some ([(Hijack None, Taken True)], w') \<and> wr_taken w' \<and> le_status e = 101 \<and>
     logRequests (upgrade_handler None) ''GET'' ''/tunnel'' fresh_writer = Some (([(Hijack None, Taken True)], w'), e)"
proof -
  obtain w' e where l: "logRequests (upgrade_handler None) ''GET'' ''/tunnel'' fresh_writer =
      Some (([(Hijack None, Taken True)], w'), e)" "wr_taken w'"
    by (simp add: log_eval)
  then show ?thesis
    using logging_is_transparent [of "upgrade_handler None" "''GET''" "''/tunnel''" fresh_writer
        "[(Hijack None, Taken True)]" w' e]
    by (auto simp: hijack_tried_def fresh_writer_def new_response_def)
qed

text \<open>An upgrade whose \<open>Hijack\<close> fails is answered with 500, but the log line says 101.\<close>

lemma failed_hijack_is_logged_as_101:
  "\<exists>tr w' e. logRequests (upgrade_handler (Some ''broken'')) ''GET'' ''/tunnel'' fresh_writer = Some ((tr, w'), e) \<and>
     \<not> wr_taken w' \<and> rw_status (wr_resp w') = Some 500 \<and> le_status e = 101"
  by (simp add: log_eval)

end
