(* ===== verification/GuiParts.thy ===== *)
theory GuiParts
  imports Server ClientConfig
begin

text \<open>
  The parts of the desktop programs that compute (\<open>cmd/selftunnel-server-gui\<close> and
  \<open>cmd/selftunnel-client-gui\<close>): the log buffers, the settings file, the session table, addresses
  and URLs.  Widgets are not modelled; a value shown in one is the value computed for it.
\<close>

section \<open>Log buffers\<close>

definition newline :: char where "newline = CHR 0x0A"

text \<open>\<open>strings.TrimRight\<close> with a cutset of one byte.\<close>

definition TrimRight :: "string \<Rightarrow> char \<Rightarrow> string" where
  "TrimRight s c = rev (dropWhile (\<lambda>x. x = c) (rev s))"

record logRing =
  lr_lines :: "string list"
  lr_max :: nat

definition newLogRing :: "nat \<Rightarrow> logRing" where
  "newLogRing n = \<lparr>lr_lines = [], lr_max = n\<rparr>"

definition ring_line :: "string \<Rightarrow> logRing \<Rightarrow> logRing" where
  "ring_line line r =
     (if line = [] then r
      else let ls = lr_lines r @ [line] in
        r\<lparr>lr_lines := (if length ls > lr_max r then drop (length ls - lr_max r) ls else ls)\<rparr>)"

definition ring_Write :: "string \<Rightarrow> logRing \<Rightarrow> nat \<times> logRing" where
  "ring_Write p r = (length p, fold ring_line (Split newline (TrimRight p newline)) r)"

definition filtered :: "string \<Rightarrow> string \<Rightarrow> logRing \<Rightarrow> string list" where
  "filtered level contains r =
     filter (\<lambda>line. \<not> (level \<noteq> ''All'' \<and> \<not> Contains line ('' '' @ level @ '' '')) \<and>
       \<not> (contains \<noteq> [] \<and> \<not> Contains line contains)) (lr_lines r)"

text \<open>The log pane of the server window shows the last 500 of these; that of the client keeps 500.\<close>

definition refreshLogs :: "string \<Rightarrow> string \<Rightarrow> logRing \<Rightarrow> string list" where
  "refreshLogs level contains r =
     (let lines = filtered level contains r
      in if length lines > 500 then drop (length lines - 500) lines else lines)"

definition appendLog :: "string \<Rightarrow> string list \<Rightarrow> string list" where
  "appendLog line ls =
     (let ls1 = ls @ [line] in if length ls1 > 500 then drop (length ls1 - 500) ls1 else ls1)"

definition last_n :: "nat \<Rightarrow> 'a list \<Rightarrow> 'a list" where
  "last_n n xs = drop (length xs - n) xs"

lemma last_n_snoc: "last_n n (last_n n xs @ [x]) = last_n n (xs @ [x])"
  by (cases "length xs \<le> n") (auto simp: last_n_def drop_drop Suc_diff_le)

lemma ring_line_last:
  "lr_lines r = last_n (lr_max r) xs \<Longrightarrow>
   lr_lines (ring_line l r) = last_n (lr_max r) (xs @ (if l = [] then [] else [l])) \<and> lr_max (ring_line l r) = lr_max r"
  using last_n_snoc [of "lr_max r" xs l]
  by (simp add: ring_line_def Let_def) (auto simp: last_n_def)

lemma ring_lines_last:
  "lr_lines r = last_n (lr_max r) xs \<Longrightarrow>
   lr_lines (fold ring_line ls r) = last_n (lr_max r) (xs @ filter (\<lambda>l. l \<noteq> []) ls) \<and>
   lr_max (fold ring_line ls r) = lr_max r"
proof (induction ls arbitrary: r xs)
  case (Cons l ls)
  from ring_line_last [OF Cons.prems, of l] Cons.IH [of "ring_line l r" "xs @ (if l = [] then [] else [l])"]
  show ?case by auto
qed simp

definition lines_of :: "string \<Rightarrow> string list" where
  "lines_of p = filter (\<lambda>l. l \<noteq> []) (Split newline (TrimRight p newline))"

lemma ring_writes_last:
  "lr_lines r = last_n (lr_max r) xs \<Longrightarrow>
   lr_lines (fold (\<lambda>p r. snd (ring_Write p r)) ps r) = last_n (lr_max r) (xs @ concat (map lines_of ps)) \<and>
   lr_max (fold (\<lambda>p r. snd (ring_Write p r)) ps r) = lr_max r"
proof (induction ps arbitrary: r xs)
  case (Cons p ps)
  have "lr_lines (snd (ring_Write p r)) = last_n (lr_max r) (xs @ lines_of p) \<and>
      lr_max (snd (ring_Write p r)) = lr_max r"
    using ring_lines_last [OF Cons.prems] by (simp add: ring_Write_def lines_of_def)
  with Cons.IH [of "snd (ring_Write p r)" "xs @ lines_of p"] show ?case by simp
qed simp

text \<open>However the log output is cut into writes, the ring holds exactly the newest lines, never more
  than its bound, in order; no line it holds is empty or has a line break in it.\<close>

theorem ring_keeps_newest:
  "lr_lines (fold (\<lambda>p r. snd (ring_Write p r)) ps (newLogRing n)) = last_n n (concat (map lines_of ps)) \<and>
   length (lr_lines (fold (\<lambda>p r. snd (ring_Write p r)) ps (newLogRing n))) \<le> n \<and>
   list_all (\<lambda>l. l \<noteq> [] \<and> newline \<notin> set l) (lr_lines (fold (\<lambda>p r. snd (ring_Write p r)) ps (newLogRing n)))"
proof -
  have l: "lr_lines (fold (\<lambda>p r. snd (ring_Write p r)) ps (newLogRing n)) = last_n n (concat (map lines_of ps))"
    using ring_writes_last [of "newLogRing n" "[]" ps] by (simp add: newLogRing_def last_n_def)
  have "set (last_n n (concat (map lines_of ps))) \<subseteq> set (concat (map lines_of ps))"
    unfolding last_n_def by (rule set_drop_subset)
  then have "list_all (\<lambda>l. l \<noteq> [] \<and> newline \<notin> set l) (last_n n (concat (map lines_of ps)))"
    by (force simp: list_all_iff lines_of_def dest: Split_no_sep)
  with l show ?thesis by (simp add: last_n_def)
qed

section \<open>Settings\<close>

record settings =
  st_ListenAddr :: string
  st_DataDir :: string
  st_CertFile :: string
  st_KeyFile :: string
  st_NgrokToken :: string

text \<open>The file: the fields of a JSON document that are strings, or something \<open>encoding/json\<close> refuses.
  The legacy key \<open>ngrokBinary\<close> is read and ignored.\<close>

datatype set_file = SetDoc "string \<Rightarrow> string option" | SetGarbage

text \<open>\<open>dflt\<close> is \<open>client.ResolveStatePath("data")\<close>.\<close>

definition defaultSettings :: "string \<Rightarrow> settings" where
  "defaultSettings dflt = \<lparr>st_ListenAddr = ''127.0.0.1:8080'', st_DataDir = dflt, st_CertFile = [],
     st_KeyFile = [], st_NgrokToken = []\<rparr>"

definition field_or :: "(string \<Rightarrow> string option) \<Rightarrow> string \<Rightarrow> string \<Rightarrow> string" where
  "field_or d k s = (case d k of None \<Rightarrow> s | Some v \<Rightarrow> v)"

definition unmarshal_settings :: "(string \<Rightarrow> string option) \<Rightarrow> settings \<Rightarrow> settings" where
  "unmarshal_settings d s =
     \<lparr>st_ListenAddr = field_or d ''listenAddr'' (st_ListenAddr s),
      st_DataDir = field_or d ''dataDir'' (st_DataDir s), st_CertFile = field_or d ''certFile'' (st_CertFile s),
      st_KeyFile = field_or d ''keyFile'' (st_KeyFile s),
      st_NgrokToken = field_or d ''ngrokToken'' (st_NgrokToken s)\<rparr>"

definition loadSettings :: "string \<Rightarrow> set_file option \<Rightarrow> settings" where
  "loadSettings dflt file =
     (let s = (case file of Some (SetDoc d) \<Rightarrow> unmarshal_settings d (defaultSettings dflt)
               | _ \<Rightarrow> defaultSettings dflt);
          s1 = (if st_ListenAddr s = [] then s\<lparr>st_ListenAddr := ''127.0.0.1:8080''\<rparr> else s)
      in if st_DataDir s1 = [] then s1\<lparr>st_DataDir := dflt\<rparr> else s1)"

definition marshal_settings :: "settings \<Rightarrow> string \<Rightarrow> string option" where
  "marshal_settings s =
     [''listenAddr'' \<mapsto> utf8_coerce (st_ListenAddr s), ''dataDir'' \<mapsto> utf8_coerce (st_DataDir s),
      ''certFile'' \<mapsto> utf8_coerce (st_CertFile s), ''keyFile'' \<mapsto> utf8_coerce (st_KeyFile s),
      ''ngrokToken'' \<mapsto> utf8_coerce (st_NgrokToken s)]"

text \<open>The outcome of \<open>os.WriteFile\<close>, whose error is ignored: written, or what it has left of the file.\<close>

definition saveSettings :: "set_file option option \<Rightarrow> settings \<Rightarrow> set_file option \<Rightarrow> set_file option" where
  "saveSettings failed s file =
     (case failed of Some rest \<Rightarrow> rest | None \<Rightarrow> Some (SetDoc (marshal_settings s)))"

definition valid_settings :: "settings \<Rightarrow> bool" where
  "valid_settings s \<longleftrightarrow> valid_utf8 (st_ListenAddr s) \<and> valid_utf8 (st_DataDir s) \<and> valid_utf8 (st_CertFile s) \<and>
     valid_utf8 (st_KeyFile s) \<and> valid_utf8 (st_NgrokToken s) \<and> st_ListenAddr s \<noteq> [] \<and> st_DataDir s \<noteq> []"

text \<open>The settings of the operator survive a restart; an unusable file and missing or empty addresses
  and directories give the defaults.\<close>

theorem settings_survive:
  assumes "valid_settings s"
  shows "loadSettings dflt (saveSettings None s file) = s \<and>
    loadSettings dflt None = loadSettings dflt (Some SetGarbage) \<and>
    st_ListenAddr (loadSettings dflt file) \<noteq> []"
  using assms
  by (auto simp: valid_settings_def loadSettings_def saveSettings_def unmarshal_settings_def marshal_settings_def
      field_or_def Let_def)

theorem settings_survive_witness:
  "loadSettings ''/data'' (saveSettings None (defaultSettings ''./data'') None) = defaultSettings ''./data'' \<and>
   loadSettings ''/data'' None = loadSettings ''/data'' (Some SetGarbage) \<and>
   st_ListenAddr (loadSettings ''/data'' None) \<noteq> []"
  by (rule settings_survive) (simp add: valid_settings_def defaultSettings_def valid_utf8_ascii)

section \<open>Ports\<close>

text \<open>\<open>net.SplitHostPort\<close>.\<close>

definition last_index :: "char \<Rightarrow> string \<Rightarrow> nat option" where
  "last_index c s = (if c \<in> set s then Some (length s - 1 - length (takeWhile (\<lambda>x. x \<noteq> c) (rev s))) else None)"

definition first_index :: "char \<Rightarrow> string \<Rightarrow> nat option" where
  "first_index c s = (if c \<in> set s then Some (length (takeWhile (\<lambda>x. x \<noteq> c) s)) else None)"

definition SplitHostPort :: "string \<Rightarrow> go_error + string \<times> string" where
  "SplitHostPort hp =
     (case last_index CHR '':'' hp of
        None \<Rightarrow> Inl ''missing port in address''
      | Some i \<Rightarrow>
          (let finish = (\<lambda>host j k.
             if CHR ''['' \<in> set (drop j hp) then Inl ''unexpected '[' in address''
             else if CHR '']'' \<in> set (drop k hp) then Inl ''unexpected ']' in address''
             else Inr (host, drop (Suc i) hp))
           in if hp ! 0 = CHR ''['' then
                (case first_index CHR '']'' hp of
                   None \<Rightarrow> Inl ''missing ']' in address''
                 | Some e \<Rightarrow>
                     (if Suc e = length hp then Inl ''missing port in address''
                      else if Suc e = i then finish (take (e - 1) (drop 1 hp)) 1 (Suc e)
                      else if hp ! Suc e = CHR '':'' then Inl ''too many colons in address''
                      else Inl ''missing port in address''))
              else if CHR '':'' \<in> set (take i hp) then Inl ''too many colons in address''
              else finish (take i hp) 0 0))"

definition is_digit :: "char \<Rightarrow> bool" where
  "is_digit c \<longleftrightarrow> \<not> (c < CHR ''0'' \<or> c > CHR ''9'')"

text \<open>The loop over the port, in 64-bit arithmetic.\<close>

fun port_digits :: "string \<Rightarrow> 64 word \<Rightarrow> 64 word option" where
  "port_digits [] n = Some n"
| "port_digits (c # cs) n =
     (if \<not> is_digit c then None else port_digits cs (n * 10 + of_nat (of_char c - 48)))"

definition portOf :: "string \<Rightarrow> int" where
  "portOf addr =
     (case SplitHostPort addr of
        Inl e \<Rightarrow> 8080
      | Inr (host, port) \<Rightarrow> (case port_digits port 0 of None \<Rightarrow> 8080 | Some n \<Rightarrow> sint n))"

lemma digit_char:
  assumes "d < 10"
  shows "is_digit (char_of (48 + d))" and "of_char (char_of (48 + d :: nat)) = (48 + d :: nat)"
  using assms by (simp_all add: is_digit_def less_char_def)

lemma port_digits_append:
  "port_digits (xs @ ys) n = Option.bind (port_digits xs n) (port_digits ys)"
  by (induction xs n rule: port_digits.induct) auto

lemma port_digits_dec: "port_digits (dec_digits m) 0 = Some (of_nat m)"
proof (induction m rule: dec_digits.induct)
  case (1 m)
  show ?case
  proof (cases "m < 10")
    case True
    then show ?thesis using digit_char [of m] by (subst dec_digits.simps) simp
  next
    case False
    have "(of_nat m :: 64 word) = of_nat (m div 10) * 10 + of_nat (m mod 10)"
      by (metis div_mult_mod_eq of_nat_add of_nat_mult of_nat_numeral)
    with False 1 digit_char [of "m mod 10"] show ?thesis
      by (subst dec_digits.simps) (simp add: port_digits_append)
  qed
qed

lemma dec_digits_chars: "c \<in> set (dec_digits m) \<Longrightarrow> is_digit c"
proof (induction m rule: dec_digits.induct)
  case (1 m)
  then show ?case
    by (subst (asm) (2) dec_digits.simps) (auto split: if_splits intro: digit_char(1))
qed

lemma digit_no_sep: "\<not> is_digit CHR '':''" "\<not> is_digit CHR ''[''" "\<not> is_digit CHR '']''"
  by (simp_all add: is_digit_def)

lemma takeWhile_stop: "c \<notin> set p \<Longrightarrow> takeWhile (\<lambda>x. x \<noteq> c) (p @ c # r) = p"
  by (induction p) auto

lemma SplitHostPort_plain:
  assumes "list_all (\<lambda>c. c \<noteq> CHR '':'' \<and> c \<noteq> CHR ''['' \<and> c \<noteq> CHR '']'') (h @ p)"
  shows "SplitHostPort (h @ '':'' @ p) = Inr (h, p)"
proof -
  have i: "last_index CHR '':'' (h @ '':'' @ p) = Some (length h)"
  proof -
    have "takeWhile (\<lambda>x. x \<noteq> CHR '':'') (rev p @ [CHR '':''] @ rev h) = rev p"
      using takeWhile_stop [of "CHR '':''" "rev p" "rev h"] assms by (auto simp: list_all_iff)
    then show ?thesis by (simp add: last_index_def)
  qed
  moreover have "(h @ '':'' @ p) ! 0 \<noteq> CHR ''[''"
    using assms by (cases h) auto
  ultimately show ?thesis
    using assms by (auto simp: SplitHostPort_def Let_def list_all_iff)
qed

lemma SplitHostPort_v6:
  assumes "list_all (\<lambda>c. c \<noteq> CHR ''['' \<and> c \<noteq> CHR '']'') (h @ p)" and "CHR '':'' \<notin> set p"
  shows "SplitHostPort (''['' @ h @ '']:'' @ p) = Inr (h, p)"
proof -
  let ?s = "''['' @ h @ '']:'' @ p"
  have "takeWhile (\<lambda>x. x \<noteq> CHR '':'') (rev p @ [CHR '':''] @ (CHR '']'' # rev h @ ''['')) = rev p"
    using takeWhile_stop [of "CHR '':''" "rev p"] assms(2) by simp
  then have i: "last_index CHR '':'' ?s = Some (length h + 2)"
    by (simp add: last_index_def)
  have "takeWhile (\<lambda>x. x \<noteq> CHR '']'') (h @ CHR '']'' # CHR '':'' # p) = h"
    using takeWhile_stop [of "CHR '']''" h] assms(1) by (simp add: list_all_iff)
  then have e: "first_index CHR '']'' ?s = Some (Suc (length h))"
    by (simp add: first_index_def)
  show ?thesis
    using assms i e by (auto simp: SplitHostPort_def Let_def list_all_iff)
qed

text \<open>The port of a listener address is the number it was printed from, for a plain host and for a
  bracketed IPv6 address, so that an exposure forwards to the port the server listens on.\<close>

theorem portOf_listener:
  assumes "int n < 2 ^ 63" and "CHR ''['' \<notin> set h" and "CHR '']'' \<notin> set h"
  shows "portOf (''['' @ h @ '']:'' @ dec_digits n) = int n \<and>
    (CHR '':'' \<in> set h \<or> portOf (h @ '':'' @ dec_digits n) = int n)"
proof -
  have p: "c \<in> set (dec_digits n) \<Longrightarrow> c \<noteq> CHR '':'' \<and> c \<noteq> CHR ''['' \<and> c \<noteq> CHR '']''" for c
    using dec_digits_chars [of c n] digit_no_sep by auto
  have s: "sint (word_of_nat n :: 64 word) = int n"
    using assms(1) by (simp add: signed_of_nat signed_take_bit_int_eq_self)
  have "SplitHostPort (''['' @ h @ '']:'' @ dec_digits n) = Inr (h, dec_digits n)"
    by (rule SplitHostPort_v6) (use assms p in \<open>auto simp: list_all_iff\<close>)
  moreover have "CHR '':'' \<in> set h \<or> SplitHostPort (h @ '':'' @ dec_digits n) = Inr (h, dec_digits n)"
    using SplitHostPort_plain [of h "dec_digits n"] assms p by (auto simp: list_all_iff)
  ultimately show ?thesis by (auto simp: portOf_def port_digits_dec s)
qed

theorem portOf_listener_witness:
  "portOf (''[::1]:'' @ dec_digits 8080) = 8080 \<and> portOf (''127.0.0.1:'' @ dec_digits 8080) = 8080"
  using portOf_listener [of 8080 "''::1''"] portOf_listener [of 8080 "''127.0.0.1''"] by simp

section \<open>Addresses for the operator\<close>

text \<open>\<open>public\<close> is the public URL of the exposure, if there is one.\<close>

definition clientServerURL :: "string \<Rightarrow> string \<Rightarrow> bool \<Rightarrow> string" where
  "clientServerURL public listenAddr useTLS =
     (if public \<noteq> [] then NormalizeServer public
      else let scheme = (if useTLS then ''https'' else ''http'');
               addr = (if listenAddr = [] then ''127.0.0.1:8080'' else listenAddr)
           in NormalizeServer (scheme @ ''://'' @ addr))"

definition entryTemplate :: "string \<Rightarrow> string \<Rightarrow> bool \<Rightarrow> string" where
  "entryTemplate public listenAddr useTLS =
     (let base = (if public = [] then (if useTLS then ''https'' else ''http'') @ ''://'' @ listenAddr else public)
      in TrimSuffix base ''/'' @ ''/t/{tunnelID}'')"

lemma NormalizeServer_http:
  assumes "h \<noteq> []" and "CHR ''/'' \<notin> set h" and "printable_ends h"
  shows "publicTunnelURL (NormalizeServer (''http://'' @ h)) tid = ''http://'' @ h @ ''/t/'' @ tid"
proof -
  have l: "last h \<noteq> CHR ''/''" using assms(1,2) by (metis last_in_set)
  have n: "\<not> HasSuffix (p @ h) ''/''" for p
    using HasSuffix_last [of "p @ h" "''/''"] l assms(1) by auto
  have "TrimSpace (''http://'' @ h) = ''http://'' @ h" "TrimSpace (''http://'' @ h @ ''/'') = ''http://'' @ h @ ''/''"
    using assms by (intro TrimSpace_printable_ends; simp add: printable_ends_def; simp add: go_spaces_def)+
  then have "NormalizeServer (''http://'' @ h) = NormalizeServer (''http://'' @ h @ ''/'')"
    using n [of "''ws://''"] TrimSuffix_append [of "''ws://'' @ h" "''/''"]
    by (simp add: NormalizeServer_def Let_def HasPrefix_simps TrimSuffix_id del: TrimSuffix_append)
  then show ?thesis using entry_urls [OF assms, of tid] by simp
qed

text \<open>The client configuration that the server generates and the entry template it shows belong
  together: a client with that configuration prints, for its tunnel, the URL of the template with
  the ID filled in; so it does behind an exposure.\<close>

theorem template_is_clients_entry:
  assumes "h \<noteq> []" and "CHR ''/'' \<notin> set h" and "printable_ends h"
  shows "(\<exists>base. entryTemplate [] h tls = base @ ''{tunnelID}'' \<and>
      publicTunnelURL (clientServerURL [] h tls) tid = base @ tid) \<and>
    (\<exists>base. entryTemplate (''https://'' @ h) listen tls = base @ ''{tunnelID}'' \<and>
      publicTunnelURL (clientServerURL (''https://'' @ h) listen tls) tid = base @ tid)"
proof (intro conjI)
  have l: "last h \<noteq> CHR ''/''" using assms(1,2) by (metis last_in_set)
  have n: "TrimSuffix (p @ h) ''/'' = p @ h" for p
    using HasSuffix_last [of "p @ h" "''/''"] l assms(1) by (intro TrimSuffix_id) auto
  note u = entry_urls [OF assms, of tid] NormalizeServer_http [OF assms, of tid]
  show "\<exists>base. entryTemplate [] h tls = base @ ''{tunnelID}'' \<and>
      publicTunnelURL (clientServerURL [] h tls) tid = base @ tid"
    using u n [of "''https://''"] n [of "''http://''"] assms(1)
    by (intro exI [of _ "(if tls then ''https://'' else ''http://'') @ h @ ''/t/''"])
      (simp add: entryTemplate_def clientServerURL_def Let_def)
  show "\<exists>base. entryTemplate (''https://'' @ h) listen tls = base @ ''{tunnelID}'' \<and>
      publicTunnelURL (clientServerURL (''https://'' @ h) listen tls) tid = base @ tid"
    using u n [of "''https://''"]
    by (intro exI [of _ "''https://'' @ h @ ''/t/''"]) (simp add: entryTemplate_def clientServerURL_def Let_def)
qed

theorem template_is_clients_entry_witness:
  "(\<exists>base. entryTemplate [] ''127.0.0.1:8080'' False = base @ ''{tunnelID}'' \<and>
      publicTunnelURL (clientServerURL [] ''127.0.0.1:8080'' False) ''ab12cd34'' = base @ ''ab12cd34'') \<and>
   (\<exists>base. entryTemplate (''https://'' @ ''127.0.0.1:8080'') [] False = base @ ''{tunnelID}'' \<and>
      publicTunnelURL (clientServerURL (''https://'' @ ''127.0.0.1:8080'') [] False) ''ab12cd34'' = base @ ''ab12cd34'')"
  by (rule template_is_clients_entry) (simp_all add: printable_ends_def go_spaces_def)

section \<open>The session table\<close>

record sessionRow =
  sr_id :: string
  sr_remote :: string
  sr_since :: string
  sr_target :: string
  sr_status :: string
  sr_reqs :: nat

definition cell :: "sessionRow \<Rightarrow> int \<Rightarrow> string" where
  "cell r col =
     (if col = 0 then sr_id r else if col = 1 then sr_remote r else if col = 2 then sr_since r
      else if col = 3 then sr_target r else if col = 4 then dec_digits (sr_reqs r) else sr_status r)"

definition tableHeaders :: "string list" where
  "tableHeaders = [''Tunnel ID'', ''Remote'', ''Since'', ''Target'', ''Reqs'', ''Status'']"

text \<open>\<open>clock\<close> is \<open>time.Format("15:04:05")\<close>.\<close>

definition row_of :: "(int \<Rightarrow> string) \<Rightarrow> World \<Rightarrow> Tunnel \<Rightarrow> sessionRow" where
  "row_of clock w t =
     (let row = \<lparr>sr_id = t_ID t, sr_remote = [], sr_since = [], sr_target = Tunnel_Target t, sr_status = ''offline'',
                 sr_reqs = RequestCount t\<rparr>
      in case t_session t of
           None \<Rightarrow> row
         | Some i \<Rightarrow> row\<lparr>sr_status := ''online'', sr_remote := RemoteAddr i w,
             sr_since := clock (StartedAt i w)\<rparr>)"

definition session_rows :: "(int \<Rightarrow> string) \<Rightarrow> (tunnels \<Rightarrow> tunnels) \<Rightarrow> World \<Rightarrow> sessionRow list" where
  "session_rows clock iter w = map (row_of clock w) (List_tunnels iter (w_reg w))"

end
