(* ===== verification/Ngrok.thy ===== *)
theory Ngrok
  imports GoStrings
begin

text \<open>
  Public exposure (\<open>internal/ngrok/ngrok.go\<close>): the manager of one embedded endpoint.  The SDK is not
  part of the repository: what \<open>NewAgent\<close> and \<open>Forward\<close> return is an argument, an endpoint or an
  agent is a number, and the state lists those the SDK has opened and nobody has closed.
\<close>

section \<open>The manager\<close>

record Manager =
  m_agent :: "nat option"
  m_fwd :: "nat option"
  m_publicURL :: string

definition new_Manager :: Manager where
  "new_Manager = \<lparr>m_agent = None, m_fwd = None, m_publicURL = []\<rparr>"

text \<open>An endpoint forwards to a local port for an agent.\<close>

record exposure =
  x_mgr :: Manager
  x_agents :: "nat list"
  x_endpoints :: "(nat \<times> string) list"
  x_next :: nat

definition new_exposure :: exposure where
  "new_exposure = \<lparr>x_mgr = new_Manager, x_agents = [], x_endpoints = [], x_next = 0\<rparr>"

definition Disconnect_agent :: "nat \<Rightarrow> exposure \<Rightarrow> exposure" where
  "Disconnect_agent a x = x\<lparr>x_agents := filter (\<lambda>b. b \<noteq> a) (x_agents x)\<rparr>"

definition Close_endpoint :: "nat \<Rightarrow> exposure \<Rightarrow> exposure" where
  "Close_endpoint e x = x\<lparr>x_endpoints := filter (\<lambda>p. fst p \<noteq> e) (x_endpoints x)\<rparr>"

definition Manager_Start ::
    "go_error option \<Rightarrow> go_error + string \<Rightarrow> string \<Rightarrow> nat \<Rightarrow> exposure \<Rightarrow> (go_error + string) \<times> exposure" where
  "Manager_Start newAgent forward authtoken localPort x =
     (if m_fwd (x_mgr x) \<noteq> None then (Inl ''ngrok: already running'', x)
      else if authtoken = [] then (Inl ''ngrok: authtoken is required'', x)
      else case newAgent of
             Some e \<Rightarrow> (Inl (''ngrok: agent setup failed: '' @ e), x)
           | None \<Rightarrow>
               (let a = x_next x; x1 = x\<lparr>x_agents := a # x_agents x, x_next := Suc a\<rparr> in
                case forward of
                  Inl e \<Rightarrow> (Inl (''ngrok: '' @ e), Disconnect_agent a x1)
                | Inr url \<Rightarrow>
                    (Inr url, x1\<lparr>x_endpoints := (a, ''http://127.0.0.1:'' @ dec_digits localPort) # x_endpoints x1,
                       x_mgr := \<lparr>m_agent = Some a, m_fwd = Some a, m_publicURL = url\<rparr>\<rparr>)))"

definition Manager_Stop :: "exposure \<Rightarrow> exposure" where
  "Manager_Stop x =
     (let m = x_mgr x; x1 = x\<lparr>x_mgr := \<lparr>m_agent = None, m_fwd = None, m_publicURL = []\<rparr>\<rparr> in
      case m_fwd m of
        None \<Rightarrow> x1
      | Some e \<Rightarrow>
          (let x2 = Close_endpoint e x1 in
           case m_agent m of None \<Rightarrow> x2 | Some a \<Rightarrow> Disconnect_agent a x2))"

definition Manager_Running :: "exposure \<Rightarrow> bool" where
  "Manager_Running x \<longleftrightarrow> m_fwd (x_mgr x) \<noteq> None"

definition Manager_PublicURL :: "exposure \<Rightarrow> string" where
  "Manager_PublicURL x = m_publicURL (x_mgr x)"

section \<open>Any use\<close>

text \<open>The SDK may drop the endpoint on its own.\<close>

datatype expose_op =
    StartTunnel "go_error option" "go_error + string" string nat
  | StopTunnel
  | EndpointGone nat

fun expose_step :: "expose_op \<Rightarrow> exposure \<Rightarrow> exposure option" where
  "expose_step (StartTunnel na fw tok port) x = Some (snd (Manager_Start na fw tok port x))"
| "expose_step StopTunnel x = Some (Manager_Stop x)"
| "expose_step (EndpointGone e) x = Some (Close_endpoint e x)"

definition exposure_ok :: "exposure \<Rightarrow> bool" where
  "exposure_ok x \<longleftrightarrow>
     (case x_mgr x of m \<Rightarrow>
        m_agent m = m_fwd m \<and> x_agents x = (case m_agent m of None \<Rightarrow> [] | Some a \<Rightarrow> [a]) \<and>
        length (x_endpoints x) \<le> 1 \<and> fst ` set (x_endpoints x) \<subseteq> set_option (m_fwd m) \<and>
        (m_fwd m = None \<longrightarrow> m_publicURL m = []))"

lemma Manager_Start_ok: "exposure_ok x \<Longrightarrow> exposure_ok (snd (Manager_Start na fw tok port x))"
  by (auto simp: exposure_ok_def Manager_Start_def Let_def Disconnect_agent_def split: option.splits sum.splits)

lemma Manager_Stop_ok: "exposure_ok x \<Longrightarrow> exposure_ok (Manager_Stop x)"
  by (auto simp: exposure_ok_def Manager_Stop_def Let_def Disconnect_agent_def Close_endpoint_def
      filter_empty_conv intro: order_trans [OF length_filter_le] split: option.splits)

lemma Close_endpoint_ok: "exposure_ok x \<Longrightarrow> exposure_ok (Close_endpoint e x)"
  by (auto simp: exposure_ok_def Close_endpoint_def intro: order_trans [OF length_filter_le] split: option.splits)

interpretation expose: stable expose_step exposure_ok
  by unfold_locales
    (auto elim!: expose_step.elims intro: Manager_Start_ok Manager_Stop_ok Close_endpoint_ok)

lemma new_exposure_ok: "exposure_ok new_exposure"
  by (simp add: exposure_ok_def new_exposure_def new_Manager_def)

text \<open>Under any sequence of starts, stops and losses at most one endpoint and one agent are open, a
  public URL is reported only while the manager runs, a start that fails changes nothing that is
  visible, and after a stop nothing is left open.\<close>

theorem one_endpoint_at_most:
  assumes "run_opt expose_step ops new_exposure = Some x"
  shows "length (x_endpoints x) \<le> 1 \<and> length (x_agents x) \<le> 1 \<and>
    (Manager_PublicURL x \<noteq> [] \<longrightarrow> Manager_Running x) \<and>
    (fst (Manager_Start na fw tok port x) = Inl e \<longrightarrow>
       x_mgr (snd (Manager_Start na fw tok port x)) = x_mgr x \<and>
       x_agents (snd (Manager_Start na fw tok port x)) = x_agents x) \<and>
    x_endpoints (Manager_Stop x) = [] \<and> x_agents (Manager_Stop x) = [] \<and> \<not> Manager_Running (Manager_Stop x)"
proof -
  have ok: "exposure_ok x" by (rule expose.run_keeps [OF new_exposure_ok assms])
  then have "length (x_endpoints x) \<le> 1" "length (x_agents x) \<le> 1"
      "Manager_PublicURL x \<noteq> [] \<Longrightarrow> Manager_Running x"
    by (auto simp: exposure_ok_def Manager_PublicURL_def Manager_Running_def split: option.splits)
  moreover have "x_mgr (snd (Manager_Start na fw tok port x)) = x_mgr x \<and>
      x_agents (snd (Manager_Start na fw tok port x)) = x_agents x"
    if "fst (Manager_Start na fw tok port x) = Inl e"
    using that ok
    by (auto simp: exposure_ok_def Manager_Start_def Let_def Disconnect_agent_def split: option.splits sum.splits if_splits)
  moreover have "x_endpoints (Manager_Stop x) = [] \<and> x_agents (Manager_Stop x) = [] \<and>
      \<not> Manager_Running (Manager_Stop x)"
    using ok by (auto simp: exposure_ok_def Manager_Stop_def Let_def Disconnect_agent_def Close_endpoint_def
        Manager_Running_def filter_empty_conv split: option.splits)
  ultimately show ?thesis by blast
qed

definition demo_exposed :: exposure where
  "demo_exposed = snd (Manager_Start None (Inr ''https://x.ngrok.app'') ''token'' 8080 new_exposure)"

theorem one_endpoint_at_most_witness:
  "length (x_endpoints demo_exposed) \<le> 1 \<and> Manager_PublicURL demo_exposed = ''https://x.ngrok.app'' \<and>
   Manager_Running demo_exposed \<and> x_endpoints (Manager_Stop demo_exposed) = []"
proof -
  have r: "run_opt expose_step [StartTunnel None (Inr ''https://x.ngrok.app'') ''token'' 8080] new_exposure = Some demo_exposed"
    by (simp add: demo_exposed_def)
  have p: "Manager_PublicURL demo_exposed = ''https://x.ngrok.app''"
    by (simp add: demo_exposed_def Manager_Start_def new_exposure_def new_Manager_def Manager_PublicURL_def Let_def)
  from one_endpoint_at_most [OF r] p show ?thesis by simp
qed

end
