(* ===== verification/Programs.thy ===== *)
theory Programs
  imports Server ClientLoop
begin

text \<open>
  The two command-line programs (\<open>cmd/selftunnel-server\<close> and \<open>cmd/selftunnel-client\<close>) as far as they
  compute, and what of \<open>server.go\<close> they tie to the HTTP listener: the server object and the
  tunnel intake.  \<open>websocket.Upgrader\<close> is an argument that is given the origin check.
\<close>

section \<open>The server object and the intake\<close>

record server =
  sv_addr :: string
  sv_allowedOrigins :: "string list"
  sv_debug :: bool

definition New_server :: "string \<Rightarrow> string list \<Rightarrow> bool \<Rightarrow> server" where
  "New_server addr allowedOrigins debug =
     \<lparr>sv_addr = addr, sv_allowedOrigins = allowedOrigins, sv_debug = debug\<rparr>"

text \<open>\<open>upgrade check origin\<close> is the error of \<open>Upgrade\<close>, or \<open>None\<close> for a connection.\<close>

definition handleTunnel ::
    "((string \<Rightarrow> bool) \<Rightarrow> string \<Rightarrow> go_error option) \<Rightarrow> server \<Rightarrow> string \<Rightarrow> int \<Rightarrow> string \<Rightarrow> World \<Rightarrow> World" where
  "handleTunnel upgrade s origin now remote w =
     (case upgrade (checkOrigin (sv_allowedOrigins s)) origin of
        Some e \<Rightarrow> w
      | None \<Rightarrow> snd (newSession now remote w))"

section \<open>The server program\<close>

record server_flags =
  sf_addr :: string
  sf_data :: string
  sf_cert :: string
  sf_key :: string
  sf_allowed :: string
  sf_debug :: bool

text \<open>An error is logged and ends the program with code 1; otherwise the program serves, with TLS or
  without, on the registry it has loaded.\<close>

definition server_main ::
    "server_flags \<Rightarrow> go_error option \<Rightarrow> int \<Rightarrow> go_error option \<Rightarrow> disk \<Rightarrow> go_error + server \<times> bool \<times> Registry" where
  "server_main fl mkdir now read_err dk =
     (case mkdir of
        Some e \<Rightarrow> Inl ''mkdir data''
      | None \<Rightarrow>
          (case Load now read_err dk (NewRegistry (path_join (sf_data fl) ''tunnels.json'')) of
             (Some e, reg) \<Rightarrow> Inl ''load registry''
           | (None, reg) \<Rightarrow>
               Inr (New_server (sf_addr fl) (parseList (sf_allowed fl)) (sf_debug fl),
                    sf_cert fl \<noteq> [] \<and> sf_key fl \<noteq> [], reg)))"

definition served :: "Registry \<Rightarrow> disk \<Rightarrow> World" where
  "served reg dk = (empty_world reg)\<lparr>w_disk := dk\<rparr>"

lemma Load_fresh:
  assumes "Load now re dk (NewRegistry path) = (None, r)"
  shows "registry_ok r \<and> (Get r tid = Some t \<longrightarrow> t_session t = None)"
proof -
  have n: "Get (NewRegistry path) tid = None" by (simp add: Get_def NewRegistry_def)
  have "t_session t = None" if "Get (load_records now recs (NewRegistry path)) tid = Some t" for recs
    using that n
    by (auto simp: Get_load_records restore_def newTunnel_def setSecretHash_def tunnel_SetTarget_def
        split: option.splits dest!: map_of_SomeD)
  with assms n show ?thesis
    by (auto simp: Load_def intro: load_records_ok split: option.splits file_doc.splits)
qed

lemma served_reachable:
  "registry_ok r \<Longrightarrow> \<forall>tid t. Get r tid = Some t \<longrightarrow> t_session t = None \<Longrightarrow> reachable (served r dk)"
  unfolding served_def by (rule reachable.start)

text \<open>C33.  A server that starts is in a state its invariants hold in, whatever the file held, and it does not
  start on a file it cannot read.  Its intake opens a session only for a request whose \<open>Origin\<close>
  is not empty and begins with an entry of the flag, trimmed and not empty, unless the flag has an
  asterisk.\<close>

theorem server_starts_guarded:
  assumes "server_main fl mkdir now re dk = Inr (srv, tls, reg)"
    and "\<And>check org. \<not> check org \<Longrightarrow> upgrade check org \<noteq> None"
    and "handleTunnel upgrade srv origin now' remote w \<noteq> w"
  shows "reachable (served reg dk) \<and> re = None \<and>
    dk (path_join (sf_data fl) ''tunnels.json'') \<noteq> Some Garbage \<and> origin \<noteq> [] \<and>
    (\<exists>p \<in> set (Split CHR '','' (sf_allowed fl)). TrimSpace p \<noteq> [] \<and>
       (TrimSpace p = ''*'' \<or> HasPrefix origin (TrimSpace p)))"
proof -
  let ?r0 = "NewRegistry (path_join (sf_data fl) ''tunnels.json'')"
  have l: "Load now re dk ?r0 = (None, reg)" and s: "sv_allowedOrigins srv = parseList (sf_allowed fl)"
    using assms(1) by (auto simp: server_main_def New_server_def split: option.splits prod.splits)
  have "re = None" "dk (path_join (sf_data fl) ''tunnels.json'') \<noteq> Some Garbage"
    using l by (auto simp: Load_def NewRegistry_def split: option.splits file_doc.splits)
  moreover have "reachable (served reg dk)"
    by (rule served_reachable) (use Load_fresh [OF l] in auto)
  moreover have "checkOrigin (sv_allowedOrigins srv) origin"
    using assms(2) [of "checkOrigin (sv_allowedOrigins srv)" origin] assms(3)
    by (auto simp: handleTunnel_def split: option.splits)
  ultimately show ?thesis
    by (auto simp: checkOrigin_def s parseList_def list_ex_iff split: if_splits)
qed

text \<open>The documented behaviour of the upgrader, at its least: it refuses what the check refuses.\<close>

definition plain_upgrader :: "(string \<Rightarrow> bool) \<Rightarrow> string \<Rightarrow> go_error option" where
  "plain_upgrader check org = (if check org then None else Some ''request origin not allowed'')"

definition default_flags :: server_flags where
  "default_flags = \<lparr>sf_addr = '':8080'', sf_data = ''./data'', sf_cert = [], sf_key = [],
     sf_allowed = ''native-client://'', sf_debug = False\<rparr>"

theorem server_starts_guarded_witness:
  "reachable (served (NewRegistry ''./data/tunnels.json'') Map.empty) \<and>
   (\<exists>p \<in> set (Split CHR '','' ''native-client://''). TrimSpace p \<noteq> [] \<and>
      (TrimSpace p = ''*'' \<or> HasPrefix ''native-client://selftunnel'' (TrimSpace p)))"
proof -
  have j: "path_join ''./data'' ''tunnels.json'' = ''./data/tunnels.json''" by code_simp
  have m: "server_main default_flags None 0 None Map.empty =
      Inr (New_server '':8080'' [''native-client://''] False, False, NewRegistry ''./data/tunnels.json'')"
  proof -
    have "parseList ''native-client://'' = [''native-client://'']" by code_simp
    then show ?thesis by (simp add: server_main_def default_flags_def Load_def NewRegistry_def j)
  qed
  have u: "\<not> check org \<Longrightarrow> plain_upgrader check org \<noteq> None" for check org by (simp add: plain_upgrader_def)
  have "checkOrigin [''native-client://''] ''native-client://selftunnel''" by code_simp
  then have "handleTunnel plain_upgrader (New_server '':8080'' [''native-client://''] False)
      ''native-client://selftunnel'' 0 [] (served (NewRegistry ''./data/tunnels.json'') Map.empty) \<noteq>
      served (NewRegistry ''./data/tunnels.json'') Map.empty"
    by (simp add: handleTunnel_def plain_upgrader_def New_server_def newSession_def served_def empty_world_def)
  from server_starts_guarded [OF m u this] show ?thesis by (simp add: default_flags_def)
qed

section \<open>The client program\<close>

record client_flags =
  cf_config :: string
  cf_server :: string
  cf_target :: string
  cf_customID :: string
  cf_opts :: Options

definition client_main ::
    "client_flags \<Rightarrow> go_error option \<Rightarrow> cfg_disk \<Rightarrow> (string \<Rightarrow> string \<Rightarrow> go_error + string) \<Rightarrow> power \<Rightarrow> go_error + runner" where
  "client_main fl read_err dk load pw =
     (case LoadConfig read_err dk (cf_config fl) of
        Inl e \<Rightarrow> Inl ''load config''
      | Inr cfg0 \<Rightarrow>
          (case cli_config (cf_server fl) (cf_target fl) (cf_customID fl) cfg0 of
             Inl e \<Rightarrow> Inl e
           | Inr cfg \<Rightarrow>
               Inr (run_init (SetConfigPath (cf_config fl)
                 (New load dk pw cfg ((cf_opts fl)\<lparr>o_OnStatusChange := True, o_OnLog := True\<rparr>))))))"

text \<open>The exit code after \<open>Run\<close> has returned.\<close>

definition exit_code :: "go_error option \<Rightarrow> int" where
  "exit_code r = (case r of None \<Rightarrow> 0 | Some e \<Rightarrow> 1)"

text \<open>The same interrupt ends the client with code 0 while it is online and with code 1 while it waits to
  reconnect, where the context's error is reported as the client's.\<close>

theorem interrupt_exit_code:
  assumes "rn_ctx s = None"
  shows "(rn_place s = Sleeping d \<longrightarrow>
      (\<exists>s'. run_opt client_step [Env (CtxDone e), Main (Woke False)] s = Some s' \<and>
         rn_place s' = RunReturned (Some e) \<and> exit_code (Some e) = 1)) \<and>
    (rn_place s = Online \<longrightarrow>
      (\<exists>s'. run_opt client_step [Env (CtxDone e), Main (LoopCtx io), Main (Check io r)] s = Some s' \<and>
         rn_place s' = RunReturned None \<and> exit_code None = 0))"
  using assms by (simp_all add: exit_code_def)

theorem interrupt_exit_code_witness:
  "\<exists>s'. run_opt client_step [Env (CtxDone ''context canceled''), Main (LoopCtx pio_good), Main (Check pio_good 0)] up_state = Some s' \<and>
     rn_place s' = RunReturned None \<and> exit_code None = 0"
proof -
  have u: "rn_ctx up_state = None" "rn_place up_state = Online" using up_run by simp_all
  from interrupt_exit_code [OF u(1)] u(2) show ?thesis by blast
qed

section \<open>The notice\<close>

function rune_count :: "string \<Rightarrow> nat" where
  "rune_count s =
     (if s = [] then 0
      else if rune_len s = 0 then Suc (rune_count (drop 1 s))
      else Suc (rune_count (drop (rune_len s) s)))"
  by pat_completeness auto
termination
  by (relation "measure length") auto

declare rune_count.simps [simp del]

definition box_rune :: "char \<Rightarrow> string" where
  "box_rune c = [CHR 0xE2, CHR 0x94, c]"

text \<open>The lines that \<open>printConnected\<close> prints between its two empty ones; \<open>%-*s\<close> pads to a width in
  runes.\<close>

definition printConnected :: "string \<Rightarrow> string \<Rightarrow> string list" where
  "printConnected server tunnelID =
     (let lines = [''Tunnel connected'', publicTunnelURL server tunnelID];
          width = fold (\<lambda>line w. if rune_count line > w then rune_count line else w) lines 0;
          border = concat (replicate (width + 4) (box_rune CHR 0x80))
      in [box_rune CHR 0x8C @ border @ box_rune CHR 0x90] @
         map (\<lambda>line. box_rune CHR 0x82 @ ''  '' @ line @ replicate (width - rune_count line) CHR '' '' @
           ''  '' @ box_rune CHR 0x82) lines @
         [box_rune CHR 0x94 @ border @ box_rune CHR 0x98])"

lemma no_zero_byte:
  "\<not> cont_byte CHR 0x00" "\<not> between CHR 0xA0 CHR 0xBF CHR 0x00" "\<not> between CHR 0x80 CHR 0x9F CHR 0x00"
  "\<not> between CHR 0x90 CHR 0xBF CHR 0x00" "\<not> between CHR 0x80 CHR 0x8F CHR 0x00"
  by (simp_all add: cont_byte_def between_def)

lemma rune_len_four: "rune_len (c # d # e # g # r) = rune_len [c, d, e, g]"
  by (simp add: rune_len_def byte_at_def)

lemma rune_len_short:
  "rune_len [c] \<noteq> 0 \<Longrightarrow> rune_len (c # b) = 1 \<and> rune_len [c] = 1"
  "rune_len [c, d] \<noteq> 0 \<Longrightarrow> rune_len (c # d # b) = rune_len [c, d] \<and> rune_len [c, d] \<le> 2"
  "rune_len [c, d, e] \<noteq> 0 \<Longrightarrow> rune_len (c # d # e # b) = rune_len [c, d, e] \<and> rune_len [c, d, e] \<le> 3"
  by (simp_all add: rune_len_def byte_at_def Let_def no_zero_byte split: if_split_asm) auto

lemma rune_len_le4: "rune_len s \<le> 4"
  by (simp add: rune_len_def Let_def)

lemma rune_len_append:
  assumes "rune_len a \<noteq> 0"
  shows "rune_len (a @ b) = rune_len a \<and> rune_len a \<le> length a"
proof -
  consider "a = []" | c where "a = [c]" | c d where "a = [c, d]" | c d e where "a = [c, d, e]"
    | c d e g r where "a = c # d # e # g # r"
    by (metis list.exhaust)
  then show ?thesis
  proof cases
    case 1
    then show ?thesis using assms by (simp add: rune_len_def)
  next
    case (5 c d e g r)
    then show ?thesis
      using rune_len_four [of c d e g r] rune_len_four [of c d e g "r @ b"] rune_len_le4 [of a] by simp
  next
    case (2 c)
    then show ?thesis using assms rune_len_short(1) [of c b] by simp
  next
    case (3 c d)
    then show ?thesis using assms rune_len_short(2) [of c d b] by simp
  next
    case (4 c d e)
    then show ?thesis using assms rune_len_short(3) [of c d e b] by simp
  qed
qed

lemma rune_count_append: "valid_utf8 a \<Longrightarrow> rune_count (a @ b) = rune_count a + rune_count b"
proof (induction a rule: valid_utf8.induct)
  case (1 a)
  show ?case
  proof (cases "a = []")
    case False
    with 1(2) have v: "rune_len a \<noteq> 0" "valid_utf8 (drop (rune_len a) a)"
      by (simp_all add: valid_utf8.simps [of a] split: if_splits)
    note r = rune_len_append [OF v(1), of b]
    have "rune_count (a @ b) = Suc (rune_count (drop (rune_len a) a @ b))"
      using False v(1) r by (subst rune_count.simps) simp
    moreover have "rune_count a = Suc (rune_count (drop (rune_len a) a))"
      using False v(1) by (subst rune_count.simps) simp
    ultimately show ?thesis using 1(1) False v by simp
  qed (simp add: rune_count.simps [of "[]"])
qed

lemma valid_utf8_append: "valid_utf8 a \<Longrightarrow> valid_utf8 b \<Longrightarrow> valid_utf8 (a @ b)"
proof (induction a rule: valid_utf8.induct)
  case (1 a)
  show ?case
  proof (cases "a = []")
    case False
    with 1(2) have v: "rune_len a \<noteq> 0" "valid_utf8 (drop (rune_len a) a)"
      by (simp_all add: valid_utf8.simps [of a] split: if_splits)
    with rune_len_append [OF v(1), of b] 1(1,3) False show ?thesis
      by (subst valid_utf8.simps) simp
  qed (use 1 in simp)
qed

lemma rune_count_ascii: "is_ascii s \<Longrightarrow> rune_count s = length s"
proof (induction s)
  case Nil
  then show ?case by (simp add: rune_count.simps)
next
  case (Cons c s)
  then show ?case by (subst rune_count.simps) (simp add: rune_len_ascii)
qed

lemma box_rune_count:
  assumes "cont_byte c"
  shows "rune_count (box_rune c) = 1" and "valid_utf8 (box_rune c)"
proof -
  have "rune_len (box_rune c) = 3"
    using assms by (simp add: rune_len_def box_rune_def byte_at_def Let_def between_def cont_byte_def)
  then show "rune_count (box_rune c) = 1" "valid_utf8 (box_rune c)"
    by (subst rune_count.simps valid_utf8.simps, simp add: box_rune_def rune_count.simps [of "[]"])+
qed

lemma border_count:
  assumes "cont_byte c"
  shows "rune_count (concat (replicate n (box_rune c))) = n \<and> valid_utf8 (concat (replicate n (box_rune c)))"
  using box_rune_count [OF assms]
  by (induction n) (simp_all add: rune_count.simps [of "[]"] rune_count_append valid_utf8_append)

text \<open>The box is straight: its four lines have the same number of runes.\<close>

lemma printConnected_straight:
  assumes "valid_utf8 (publicTunnelURL server tid)"
  shows "list_all (\<lambda>l. rune_count l = max 16 (rune_count (publicTunnelURL server tid)) + 6) (printConnected server tid)"
proof -
  let ?u = "publicTunnelURL server tid"
  have t: "rune_count ''Tunnel connected'' = 16" "valid_utf8 ''Tunnel connected''"
    by (simp_all add: rune_count_ascii valid_utf8_ascii)
  have s: "rune_count (replicate n CHR '' '') = n" "valid_utf8 (replicate n CHR '' '')" for n
    using rune_count_ascii [of "replicate n CHR '' ''"] valid_utf8_ascii [of "replicate n CHR '' ''"]
    by (simp_all add: is_ascii_def list_all_iff)
  have b: "rune_count (box_rune c) = 1" "valid_utf8 (box_rune c)"
    if "c \<in> {CHR 0x80, CHR 0x82, CHR 0x8C, CHR 0x90, CHR 0x94, CHR 0x98}" for c
    using that box_rune_count [of c] by (auto simp: cont_byte_def between_def)
  have d: "rune_count (concat (replicate n (box_rune CHR 0x80))) = n"
      "valid_utf8 (concat (replicate n (box_rune CHR 0x80)))" for n
    using border_count [of "CHR 0x80" n] by (simp_all add: cont_byte_def between_def)
  have p: "rune_count ''  '' = 2" "valid_utf8 ''  ''"
    by (simp_all add: rune_count_ascii valid_utf8_ascii)
  have line: "rune_count (box_rune CHR 0x82 @ ''  '' @ l @ replicate n CHR '' '' @ ''  '' @ box_rune CHR 0x82) =
      rune_count l + n + 6" if "valid_utf8 l" for l n
    using that b s p by (simp add: rune_count_append del: append_Cons)
  have edge: "rune_count (box_rune c @ concat (replicate n (box_rune CHR 0x80)) @ box_rune c') = n + 2"
    if "c \<in> {CHR 0x8C, CHR 0x94}" "c' \<in> {CHR 0x90, CHR 0x98}" for c c' n
    using b [of c] b [of c'] that d by (auto simp: rune_count_append)
  show ?thesis
    using line [OF t(2)] line [OF assms] edge t(1)
    by (simp add: printConnected_def Let_def max_def del: append_Cons append.simps)
qed

end
