(* ===== verification/ServerGui.thy ===== *)
theory ServerGui
  imports GuiParts Ngrok Programs
begin

text \<open>
  The operator's window of the server (\<open>cmd/selftunnel-server-gui/main.go\<close>): starting and stopping the
  server, exposing it, the session table and the configuration for clients.

  A handler that lets go of the lock, runs in a goroutine or waits is cut into the parts between which
  others may come: the stop (\<open>TapStop\<close>, \<open>StopGo\<close>), the exposure (\<open>TapExpose\<close>, \<open>ExposeRead\<close>,
  \<open>ExposePort\<close>, \<open>SdkStart\<close>, \<open>SdkDone\<close>), the disconnect button (\<open>TapDisconnect\<close>, \<open>DisconnectGo\<close>)
  and the ticker (\<open>Ticker\<close>, \<open>StatsGo\<close>).  An application is an index into the list of those that have
  been started, so a handler keeps the one it has read when \<open>state.app\<close> changes.  A start is one step,
  taken when it publishes the application: nothing reads it before.  Dialogs are the error a handler returns.
\<close>

section \<open>State\<close>

record form =
  fm_addr :: string
  fm_data :: string
  fm_cert :: string
  fm_key :: string
  fm_token :: string
  fm_debug :: bool

text \<open>A started application with the server it runs and its registry.\<close>

record launched =
  ru_app :: App
  ru_world :: World

text \<open>A stop: the application it has found, and how far it has come.\<close>

datatype stopping =
    StopNgrok nat
  | StopListener nat
  | StopSessions nat
  | StopClosing nat "Tunnel list"
  | StopClear
  | StopDone

text \<open>An exposure: the form has been checked; \<open>state.app\<close> has been read once more; its port is known;
  the SDK has answered.\<close>

datatype exposing =
    ExChecked string
  | ExLaunched string "nat option"
  | ExPorted string int
  | ExDone "go_error + string"

record gui =
  g_runs :: "launched list"
  g_app :: "nat option"
  g_reg :: "nat option"
  g_ng :: exposure
  g_rows :: "sessionRow list"
  g_selected :: int
  g_publicURL :: string
  g_set :: settings
  g_file :: "set_file option"
  g_stops :: "stopping list"
  g_exposing :: "exposing option"
  g_disc :: "(int \<times> nat) option"
  g_poll :: "nat option"

definition gui_init :: "string \<Rightarrow> set_file option \<Rightarrow> gui" where
  "gui_init dflt file = \<lparr>g_runs = [], g_app = None, g_reg = None, g_ng = new_exposure, g_rows = [], g_selected = - 1,
     g_publicURL = [], g_set = loadSettings dflt file, g_file = file, g_stops = [], g_exposing = None, g_disc = None,
     g_poll = None\<rparr>"

abbreviation app_at :: "nat \<Rightarrow> gui \<Rightarrow> App" where
  "app_at k g \<equiv> ru_app (g_runs g ! k)"

abbreviation world_at :: "nat \<Rightarrow> gui \<Rightarrow> World" where
  "world_at k g \<equiv> ru_world (g_runs g ! k)"

definition set_app :: "nat \<Rightarrow> App \<Rightarrow> gui \<Rightarrow> gui" where
  "set_app k a g = g\<lparr>g_runs := (g_runs g)[k := (g_runs g ! k)\<lparr>ru_app := a\<rparr>]\<rparr>"

definition set_world :: "nat \<Rightarrow> World \<Rightarrow> gui \<Rightarrow> gui" where
  "set_world k w g = g\<lparr>g_runs := (g_runs g)[k := (g_runs g ! k)\<lparr>ru_world := w\<rparr>]\<rparr>"

definition gui_running :: "gui \<Rightarrow> bool" where
  "gui_running g = (case g_app g of None \<Rightarrow> False | Some k \<Rightarrow> Running (app_at k g))"

text \<open>What ends the program: a panic of the server's code, a nil pointer, an index out of range.\<close>

datatype crash = ServerPanic panic | NilPointer | IndexOutOfRange

definition row_at :: "sessionRow list \<Rightarrow> int \<Rightarrow> crash + sessionRow" where
  "row_at rows idx = (if idx < 0 \<or> int (length rows) \<le> idx then Inl IndexOutOfRange else Inr (rows ! nat idx))"

section \<open>The server\<close>

record start_io =
  si_saved :: "set_file option option"
  si_mkdir :: "go_error option"
  si_read :: "go_error option"
  si_disk :: disk
  si_now :: int
  si_listen :: "string \<Rightarrow> go_error + string"

definition form_settings :: "form \<Rightarrow> settings" where
  "form_settings f = \<lparr>st_ListenAddr = TrimSpace (fm_addr f),
     st_DataDir = (if TrimSpace (fm_data f) = [] then ''./data'' else TrimSpace (fm_data f)),
     st_CertFile = TrimSpace (fm_cert f), st_KeyFile = TrimSpace (fm_key f), st_NgrokToken = TrimSpace (fm_token f)\<rparr>"

definition startServer :: "form \<Rightarrow> start_io \<Rightarrow> gui \<Rightarrow> go_error option \<times> gui" where
  "startServer f io g =
     (case SplitHostPort (TrimSpace (fm_addr f)) of
        Inl e \<Rightarrow> (Some ''listen address must be host:port, e.g. 127.0.0.1:8080'', g)
      | Inr hp \<Rightarrow>
          (let set = form_settings f;
               g1 = g\<lparr>g_set := set, g_file := saveSettings (si_saved io) set (g_file g)\<rparr>
           in case si_mkdir io of
                Some e \<Rightarrow> (Some (''cannot create data directory: '' @ e), g1)
              | None \<Rightarrow>
                  (case Load (si_now io) (si_read io) (si_disk io)
                          (NewRegistry (path_join (st_DataDir set) ''tunnels.json'')) of
                     (Some e, reg) \<Rightarrow> (Some (''cannot load registry: '' @ e), g1)
                   | (None, reg) \<Rightarrow>
                       (case Start (si_listen io)
                               (NewApp (st_ListenAddr set) (st_CertFile set) (st_KeyFile set)) of
                          (Some e, a) \<Rightarrow> (Some (''cannot start server: '' @ e), g1)
                        | (None, a) \<Rightarrow>
                            (None, g1\<lparr>g_runs := g_runs g1 @ [\<lparr>ru_app = a, ru_world = served reg (si_disk io)\<rparr>],
                               g_app := Some (length (g_runs g1)), g_reg := Some (length (g_runs g1))\<rparr>)))))"

text \<open>The press of the stop button starts a goroutine, which ends here when no application runs.\<close>

definition stopServer :: "gui \<Rightarrow> gui" where
  "stopServer g =
     (case g_app g of
        None \<Rightarrow> g
      | Some k \<Rightarrow> (if \<not> Running (app_at k g) then g else g\<lparr>g_stops := g_stops g @ [StopNgrok k]\<rparr>))"

text \<open>Its next part: \<open>ng.Stop\<close>, \<open>App.Stop\<close> (the listener, the list of tunnels, one session after the
  other, and the wait for \<open>Shutdown\<close>), and the window's state.\<close>

definition stop_next :: "(tunnels \<Rightarrow> tunnels) \<Rightarrow> stopping \<Rightarrow> gui \<Rightarrow> crash + stopping \<times> gui" where
  "stop_next iter p g =
     (case p of
        StopNgrok k \<Rightarrow> Inr (StopListener k, g\<lparr>g_ng := Manager_Stop (g_ng g)\<rparr>)
      | StopListener k \<Rightarrow>
          (if a_ln (app_at k g) = None then Inr (StopClear, g)
           else Inr (StopSessions k, set_app k ((app_at k g)\<lparr>a_ln := None\<rparr>) g))
      | StopSessions k \<Rightarrow> Inr (StopClosing k (List_tunnels iter (w_reg (world_at k g))), g)
      | StopClosing k [] \<Rightarrow> Inr (StopClear, g)
      | StopClosing k (t # ts) \<Rightarrow>
          (case live_session t (world_at k g) of
             None \<Rightarrow> Inr (StopClosing k ts, g)
           | Some i \<Rightarrow>
               (case close i (world_at k g) of
                  Inl e \<Rightarrow> Inl (ServerPanic e)
                | Inr w \<Rightarrow> Inr (StopClosing k ts, set_world k w g)))
      | StopClear \<Rightarrow> Inr (StopDone, g\<lparr>g_publicURL := [], g_app := None, g_reg := None\<rparr>)
      | StopDone \<Rightarrow> Inr (StopDone, g))"

definition stop_go :: "(tunnels \<Rightarrow> tunnels) \<Rightarrow> nat \<Rightarrow> gui \<Rightarrow> (crash + gui) option" where
  "stop_go iter j g =
     (if j < length (g_stops g) \<and> g_stops g ! j \<noteq> StopDone then
        Some (map_sum id (\<lambda>(p, g'). g'\<lparr>g_stops := (g_stops g')[j := p]\<rparr>) (stop_next iter (g_stops g ! j) g))
      else None)"

section \<open>The exposure\<close>

text \<open>The expose button is disabled while an exposure is under way.\<close>

definition exposeTap :: "string \<Rightarrow> gui \<Rightarrow> (go_error option \<times> gui) option" where
  "exposeTap tokenText g =
     (if g_exposing g \<noteq> None then None
      else Some
        (let token = TrimSpace tokenText in
         if token = [] then (Some ''an ngrok authtoken is required'', g)
         else if \<not> gui_running g then (Some ''start the server first'', g)
         else (None, g\<lparr>g_exposing := Some (ExChecked token)\<rparr>)))"

definition exposeRead :: "gui \<Rightarrow> gui option" where
  "exposeRead g =
     (case g_exposing g of
        Some (ExChecked token) \<Rightarrow> Some (g\<lparr>g_exposing := Some (ExLaunched token (g_app g))\<rparr>)
      | _ \<Rightarrow> None)"

text \<open>\<open>portOf(app_.Addr())\<close>, evaluated in the goroutine.\<close>

definition exposePort :: "gui \<Rightarrow> (crash + gui) option" where
  "exposePort g =
     (case g_exposing g of
        Some (ExLaunched token app) \<Rightarrow>
          Some (case app of
                  None \<Rightarrow> Inl NilPointer
                | Some k \<Rightarrow> Inr (g\<lparr>g_exposing := Some (ExPorted token (portOf (Addr (app_at k g))))\<rparr>))
      | _ \<Rightarrow> None)"

definition exposeRun :: "go_error option \<Rightarrow> go_error + string \<Rightarrow> gui \<Rightarrow> gui option" where
  "exposeRun newAgent forward g =
     (case g_exposing g of
        Some (ExPorted token port) \<Rightarrow>
          (case Manager_Start newAgent forward token (nat port) (g_ng g) of
             (res, x) \<Rightarrow> Some (g\<lparr>g_ng := x, g_exposing := Some (ExDone res)\<rparr>))
      | _ \<Rightarrow> None)"

definition exposeDone :: "gui \<Rightarrow> gui option" where
  "exposeDone g =
     (case g_exposing g of
        Some (ExDone (Inl e)) \<Rightarrow> Some (g\<lparr>g_exposing := None\<rparr>)
      | Some (ExDone (Inr url)) \<Rightarrow> Some (g\<lparr>g_exposing := None, g_publicURL := url\<rparr>)
      | _ \<Rightarrow> None)"

definition stopExpose :: "gui \<Rightarrow> gui" where
  "stopExpose g = g\<lparr>g_ng := Manager_Stop (g_ng g), g_publicURL := []\<rparr>"

section \<open>The table and the client configuration\<close>

definition refreshSessions :: "(int \<Rightarrow> string) \<Rightarrow> (tunnels \<Rightarrow> tunnels) \<Rightarrow> gui \<Rightarrow> gui" where
  "refreshSessions clock iter g =
     (case g_reg g of
        None \<Rightarrow> g\<lparr>g_rows := []\<rparr>
      | Some k \<Rightarrow>
          (let g1 = g\<lparr>g_rows := session_rows clock iter (world_at k g)\<rparr>
           in if g_selected g1 \<ge> int (length (g_rows g1)) then g1\<lparr>g_selected := - 1\<rparr> else g1))"

text \<open>The text of a cell of the table widget.\<close>

definition cell_text :: "nat \<Rightarrow> nat \<Rightarrow> gui \<Rightarrow> string" where
  "cell_text row col g =
     (if row < length (g_rows g) \<and> col < length tableHeaders then cell (g_rows g ! row) (int col) else [])"

text \<open>The disconnect button reads the selection and the registry under the lock, then the rows under the
  lock once more.\<close>

definition disconnect_read :: "gui \<Rightarrow> (int \<times> nat) option" where
  "disconnect_read g =
     (case g_reg g of
        None \<Rightarrow> None
      | Some k \<Rightarrow> (if g_selected g < 0 then None else Some (g_selected g, k)))"

definition disconnect_row :: "int \<Rightarrow> nat \<Rightarrow> gui \<Rightarrow> crash + gui" where
  "disconnect_row idx k g =
     (let rows = g_rows g in
      if idx \<ge> int (length rows) then Inr g
      else case row_at rows idx of
             Inl e \<Rightarrow> Inl e
           | Inr row \<Rightarrow>
               (case Get (w_reg (world_at k g)) (sr_id row) of
                  None \<Rightarrow> Inr g
                | Some t \<Rightarrow>
                    (case t_session t of
                       None \<Rightarrow> Inr g
                     | Some i \<Rightarrow>
                         (case close i (world_at k g) of
                            Inl p \<Rightarrow> Inl (ServerPanic p)
                          | Inr w \<Rightarrow> Inr (set_world k w g)))))"

text \<open>The whole of it, where nothing comes in between.\<close>

definition disconnectSelected :: "gui \<Rightarrow> crash + gui" where
  "disconnectSelected g = (case disconnect_read g of None \<Rightarrow> Inr g | Some (idx, k) \<Rightarrow> disconnect_row idx k g)"

definition generateConfig ::
    "cfg_io \<Rightarrow> string \<Rightarrow> string \<Rightarrow> bool \<Rightarrow> cfg_disk \<Rightarrow> gui \<Rightarrow> go_error option \<times> cfg_disk" where
  "generateConfig io path addrText useTLS dk g =
     (if \<not> gui_running g then (Some ''start the server first'', dk)
      else SaveConfig io path
        (empty_config\<lparr>c_Server := clientServerURL (g_publicURL g) (TrimSpace addrText) useTLS\<rparr>) dk)"

text \<open>\<open>win.SetOnClosed\<close>; the rest of the stop follows as after the button.\<close>

definition windowClosed :: "gui \<Rightarrow> gui" where
  "windowClosed g = stopServer (g\<lparr>g_ng := Manager_Stop (g_ng g)\<rparr>)"

text \<open>One second of the ticker; \<open>stats\<close> where the ten-second ticker has fired as well: then \<open>state.app\<close>
  is read, and polled if it still runs.\<close>

definition tick :: "bool \<Rightarrow> (int \<Rightarrow> string) \<Rightarrow> (tunnels \<Rightarrow> tunnels) \<Rightarrow> gui \<Rightarrow> gui option" where
  "tick stats clock iter g =
     (if g_poll g \<noteq> None then None
      else
        (let g1 = refreshSessions clock iter g
         in Some (if stats then g1\<lparr>g_poll := g_app g1\<rparr> else g1)))"

definition tick_stats :: "(tunnels \<Rightarrow> tunnels) \<Rightarrow> (sid \<Rightarrow> send_pick) \<Rightarrow> gui \<Rightarrow> gui option" where
  "tick_stats iter picks g =
     (case g_poll g of
        None \<Rightarrow> None
      | Some k \<Rightarrow>
          (let g1 = g\<lparr>g_poll := None\<rparr> in
           if Running (app_at k g1) then
             map_option (\<lambda>w. set_world k w g1) (PollStats iter picks (world_at k g1))
           else Some g1))"

section \<open>Events\<close>

text \<open>\<open>Serve\<close> is any step of a server that has been started, also of one whose listener has been closed
  or that the window has lost sight of; \<open>Select\<close> the operator's choice of a row.\<close>

datatype gui_op =
    TapStart form start_io
  | TapStop
  | StopGo "tunnels \<Rightarrow> tunnels" nat
  | TapExpose string
  | ExposeRead
  | ExposePort
  | SdkStart "go_error option" "go_error + string"
  | SdkDone
  | TapStopExpose
  | Select int
  | TapDisconnect
  | DisconnectGo
  | Ticker bool "int \<Rightarrow> string" "tunnels \<Rightarrow> tunnels"
  | StatsGo "tunnels \<Rightarrow> tunnels" "sid \<Rightarrow> send_pick"
  | Serve nat server_op
  | CloseWindow

fun gui_exec :: "gui_op \<Rightarrow> gui \<Rightarrow> (crash + gui) option" where
  "gui_exec (TapStart f io) g = Some (Inr (snd (startServer f io g)))"
| "gui_exec TapStop g = Some (Inr (stopServer g))"
| "gui_exec (StopGo iter j) g = stop_go iter j g"
| "gui_exec (TapExpose tok) g = map_option (\<lambda>r. Inr (snd r)) (exposeTap tok g)"
| "gui_exec ExposeRead g = map_option Inr (exposeRead g)"
| "gui_exec ExposePort g = exposePort g"
| "gui_exec (SdkStart na fw) g = map_option Inr (exposeRun na fw g)"
| "gui_exec SdkDone g = map_option Inr (exposeDone g)"
| "gui_exec TapStopExpose g = Some (Inr (stopExpose g))"
| "gui_exec (Select k) g = Some (Inr (g\<lparr>g_selected := k\<rparr>))"
| "gui_exec TapDisconnect g = (if g_disc g \<noteq> None then None else Some (Inr (g\<lparr>g_disc := disconnect_read g\<rparr>)))"
| "gui_exec DisconnectGo g =
     (case g_disc g of None \<Rightarrow> None | Some (idx, k) \<Rightarrow> Some (disconnect_row idx k (g\<lparr>g_disc := None\<rparr>)))"
| "gui_exec (Ticker stats clock iter) g = map_option Inr (tick stats clock iter g)"
| "gui_exec (StatsGo iter picks) g = map_option Inr (tick_stats iter picks g)"
| "gui_exec (Serve k q) g =
     (if k < length (g_runs g)
      then map_option (map_sum ServerPanic (\<lambda>w. set_world k w g)) (server_exec q (world_at k g))
      else None)"
| "gui_exec CloseWindow g = Some (Inr (windowClosed g))"

definition gui_step :: "gui_op \<Rightarrow> gui \<Rightarrow> gui option" where
  "gui_step q g = (case gui_exec q g of Some (Inr g') \<Rightarrow> Some g' | _ \<Rightarrow> None)"

text \<open>The disconnect button's two parts are \<open>disconnectSelected\<close> when nothing comes in between.\<close>

lemma disconnect_alone:
  "g_disc g = None \<Longrightarrow> disconnect_read g = Some d \<Longrightarrow> disconnectSelected g = Inr g' \<Longrightarrow>
     run_opt gui_step [TapDisconnect, DisconnectGo] g = Some g'"
proof -
  assume a: "g_disc g = None" "disconnect_read g = Some d" "disconnectSelected g = Inr g'"
  from a(1) have "g\<lparr>g_disc := None\<rparr> = g" by (cases g) simp
  then have "disconnect_row idx k (g\<lparr>g_disc := None\<rparr>) = disconnect_row idx k g" for idx k by (simp only:)
  with a show ?thesis by (cases d) (simp add: gui_step_def disconnectSelected_def)
qed

section \<open>The invariant of the window\<close>

text \<open>Every server that has been started is in a state a server can reach; the window's application and
  registry belong together; the manager of the exposure is well formed; what a handler holds on to exists.\<close>

definition in_range :: "nat \<Rightarrow> nat option \<Rightarrow> bool" where
  "in_range n x \<longleftrightarrow> (case x of None \<Rightarrow> True | Some k \<Rightarrow> k < n)"

definition stopping_app :: "stopping \<Rightarrow> nat option" where
  "stopping_app p = (case p of StopNgrok k \<Rightarrow> Some k | StopListener k \<Rightarrow> Some k | StopSessions k \<Rightarrow> Some k
     | StopClosing k ts \<Rightarrow> Some k | StopClear \<Rightarrow> None | StopDone \<Rightarrow> None)"

definition exposing_app :: "exposing option \<Rightarrow> nat option" where
  "exposing_app ex = (case ex of Some (ExLaunched tok app) \<Rightarrow> app | _ \<Rightarrow> None)"

definition disc_ok :: "nat \<Rightarrow> (int \<times> nat) option \<Rightarrow> bool" where
  "disc_ok n d \<longleftrightarrow> (case d of None \<Rightarrow> True | Some (idx, k) \<Rightarrow> 0 \<le> idx \<and> k < n)"

definition refs_ok :: "gui \<Rightarrow> bool" where
  "refs_ok g \<longleftrightarrow> in_range (length (g_runs g)) (g_app g) \<and>
     list_all (\<lambda>p. in_range (length (g_runs g)) (stopping_app p)) (g_stops g) \<and>
     in_range (length (g_runs g)) (exposing_app (g_exposing g)) \<and> disc_ok (length (g_runs g)) (g_disc g) \<and>
     in_range (length (g_runs g)) (g_poll g)"

definition gui_ok :: "gui \<Rightarrow> bool" where
  "gui_ok g \<longleftrightarrow> list_all (\<lambda>r. reachable (ru_world r)) (g_runs g) \<and> g_reg g = g_app g \<and> exposure_ok (g_ng g) \<and> refs_ok g"

text \<open>The crash that can happen: an exposure that has read \<open>state.app\<close> after it was cleared.\<close>

definition good_gui :: "gui_op \<Rightarrow> gui \<Rightarrow> crash + gui \<Rightarrow> bool" where
  "good_gui q g res \<longleftrightarrow>
     (case res of
        Inl e \<Rightarrow> e = NilPointer \<and> q = ExposePort \<and> (\<exists>tok. g_exposing g = Some (ExLaunched tok None))
      | Inr g' \<Rightarrow> gui_ok g')"

lemma reachable_world: "reachable w \<Longrightarrow> world_ok w"
  using reachable_ok by (simp add: server_ok_def)

lemma in_range_more: "in_range n x \<Longrightarrow> n \<le> m \<Longrightarrow> in_range m x"
  by (simp add: in_range_def split: option.splits)

lemma in_range_None [simp]: "in_range n None"
  by (simp add: in_range_def)

lemma runs_at: "gui_ok g \<Longrightarrow> k < length (g_runs g) \<Longrightarrow> reachable (world_at k g)"
  by (simp add: gui_ok_def list_all_length)

lemma set_world_ok: "gui_ok g \<Longrightarrow> reachable w \<Longrightarrow> gui_ok (set_world k w g)"
  by (cases "k < length (g_runs g)")
    (auto simp: gui_ok_def set_world_def refs_ok_def list_all_length nth_list_update)

lemma set_app_ok: "gui_ok g \<Longrightarrow> gui_ok (set_app k a g)"
  by (cases "k < length (g_runs g)")
    (auto simp: gui_ok_def set_app_def refs_ok_def list_all_length nth_list_update)

lemma startServer_ok:
  assumes "gui_ok g"
  shows "gui_ok (snd (startServer f io g))"
proof -
  have s: "refs_ok (g\<lparr>g_set := st, g_file := fl\<rparr>) = refs_ok g" for st fl by (simp add: refs_ok_def)
  have n: "refs_ok (g\<lparr>g_set := st, g_file := fl, g_runs := g_runs g @ [r], g_app := Some (length (g_runs g)),
      g_reg := Some (length (g_runs g))\<rparr>)" for st fl r
    using assms unfolding gui_ok_def refs_ok_def
    by (auto simp: in_range_def list_all_iff disc_ok_def split: option.splits)
  show ?thesis
    using served_reachable Load_fresh assms s n
    by (auto simp: startServer_def Let_def gui_ok_def split: sum.splits option.splits prod.splits if_splits)
qed

lemma stopServer_ok: "gui_ok g \<Longrightarrow> gui_ok (stopServer g)"
  by (auto simp: stopServer_def gui_ok_def refs_ok_def stopping_app_def in_range_def split: option.splits)

lemma ng_ok: "gui_ok g \<Longrightarrow> exposure_ok x \<Longrightarrow> gui_ok (g\<lparr>g_ng := x\<rparr>)"
  by (simp add: gui_ok_def refs_ok_def)

lemma live_close:
  assumes "reachable w" and "Get (w_reg w) tid = Some t" and "t_session t = Some i"
  obtains w' where "close i w = Inr w'" and "reachable w'"
proof -
  have "s_tun (w_sess w i) \<noteq> None"
    using world_ok_ptr [OF reachable_world [OF assms(1)] assms(2,3)] by (auto simp: pointer_ok_def)
  then have q: "server_exec (Disconnect i) w = Some (close i w)" by simp
  obtain w' where w': "close i w = Inr w'" using close_ok [OF reachable_world [OF assms(1)]] by metis
  have "reachable w'" by (rule reachable.step [OF assms(1), of "Disconnect i"]) (use q w' in metis)
  with w' that show thesis by blast
qed

lemma stop_put_ok:
  "gui_ok g \<Longrightarrow> in_range (length (g_runs g)) (stopping_app p) \<Longrightarrow> gui_ok (g\<lparr>g_stops := (g_stops g)[j := p]\<rparr>)"
  by (cases "j < length (g_stops g)")
    (auto simp: gui_ok_def refs_ok_def list_all_length nth_list_update)

lemma runs_length [simp]:
  "length (g_runs (set_world k w g)) = length (g_runs g)" "length (g_runs (set_app k a g)) = length (g_runs g)"
  by (simp_all add: set_world_def set_app_def)

lemma stop_next_ok:
  assumes "gui_ok g" and "in_range (length (g_runs g)) (stopping_app p)"
  shows "\<exists>p' g'. stop_next iter p g = Inr (p', g') \<and> gui_ok g' \<and> in_range (length (g_runs g')) (stopping_app p')"
proof (cases "\<exists>k t ts. p = StopClosing k (t # ts)")
  case True
  then obtain k t ts where p: "p = StopClosing k (t # ts)" by blast
  with assms(2) have k: "k < length (g_runs g)" by (simp add: stopping_app_def in_range_def)
  show ?thesis
  proof (cases "live_session t (world_at k g)")
    case None
    with p k assms show ?thesis by (simp add: stop_next_def stopping_app_def in_range_def)
  next
    case (Some i)
    then obtain u where "Get (w_reg (world_at k g)) (t_ID t) = Some u" "t_session u = Some i"
      by (auto simp: live_session_def bind_eq_Some_conv)
    then obtain w where "close i (world_at k g) = Inr w" "reachable w" using live_close [OF runs_at [OF assms(1) k]] by metis
    with Some p k assms(1) show ?thesis
      by (simp add: stop_next_def stopping_app_def in_range_def set_world_ok)
  qed
next
  case False
  with assms show ?thesis
    by (auto simp: stop_next_def stopping_app_def in_range_def ng_ok set_app_ok
        Manager_Stop_ok split: stopping.splits list.splits)
      (auto simp: gui_ok_def refs_ok_def Manager_Stop_ok in_range_def stopping_app_def split: option.splits)
qed

lemma stop_go_good:
  assumes "gui_ok g" and "stop_go iter j g = Some res"
  shows "\<exists>g'. res = Inr g' \<and> gui_ok g'"
proof -
  have j: "j < length (g_stops g)" and res: "res = map_sum id (\<lambda>(p, g'). g'\<lparr>g_stops := (g_stops g')[j := p]\<rparr>)
      (stop_next iter (g_stops g ! j) g)"
    using assms(2) by (auto simp: stop_go_def split: if_splits)
  have "in_range (length (g_runs g)) (stopping_app (g_stops g ! j))"
    using assms(1) j by (simp add: gui_ok_def refs_ok_def list_all_length)
  from stop_next_ok [OF assms(1) this, of iter] res stop_put_ok show ?thesis by auto
qed

lemma exposing_ok:
  "gui_ok g \<Longrightarrow> in_range (length (g_runs g)) (exposing_app ex) \<Longrightarrow> gui_ok (g\<lparr>g_exposing := ex\<rparr>)"
  "gui_ok (g\<lparr>g_publicURL := url\<rparr>) = gui_ok g" "gui_ok (g\<lparr>g_rows := rows\<rparr>) = gui_ok g"
  "gui_ok (g\<lparr>g_selected := idx\<rparr>) = gui_ok g" "gui_ok g \<Longrightarrow> gui_ok (g\<lparr>g_disc := None\<rparr>)"
  "gui_ok g \<Longrightarrow> gui_ok (g\<lparr>g_poll := None\<rparr>)" "gui_ok g \<Longrightarrow> gui_ok (g\<lparr>g_poll := g_app g\<rparr>)"
  by (simp_all add: gui_ok_def refs_ok_def disc_ok_def)

lemma exposeTap_ok: "gui_ok g \<Longrightarrow> exposeTap tok g = Some (e, g') \<Longrightarrow> gui_ok g'"
  by (auto simp: exposeTap_def Let_def exposing_ok exposing_app_def split: if_splits)

lemma exposeRead_ok: "gui_ok g \<Longrightarrow> exposeRead g = Some g' \<Longrightarrow> gui_ok g'"
  by (auto simp: exposeRead_def gui_ok_def refs_ok_def exposing_app_def split: option.splits exposing.splits)

lemma exposePort_good: "gui_ok g \<Longrightarrow> exposePort g = Some res \<Longrightarrow> good_gui ExposePort g res"
  by (auto simp: exposePort_def good_gui_def exposing_ok exposing_app_def split: option.splits exposing.splits)

lemma exposeRun_ok: "gui_ok g \<Longrightarrow> exposeRun na fw g = Some g' \<Longrightarrow> gui_ok g'"
  using Manager_Start_ok [of "g_ng g"]
  by (auto simp: exposeRun_def gui_ok_def refs_ok_def exposing_app_def split: option.splits exposing.splits prod.splits
      dest!: arg_cong [of _ _ snd])

lemma exposeDone_ok: "gui_ok g \<Longrightarrow> exposeDone g = Some g' \<Longrightarrow> gui_ok g'"
  by (auto simp: exposeDone_def exposing_ok exposing_app_def split: option.splits exposing.splits sum.splits)

lemma stopExpose_ok: "gui_ok g \<Longrightarrow> gui_ok (stopExpose g)"
  by (simp add: stopExpose_def exposing_ok gui_ok_def refs_ok_def Manager_Stop_ok)

lemma refreshSessions_ok: "gui_ok (refreshSessions clock iter g) = gui_ok g"
  by (simp add: refreshSessions_def Let_def exposing_ok split: option.split)

lemma tick_ok: "gui_ok g \<Longrightarrow> tick stats clock iter g = Some g' \<Longrightarrow> gui_ok g'"
  by (auto simp: tick_def Let_def refreshSessions_ok exposing_ok split: if_splits)

lemma tick_stats_ok:
  assumes "gui_ok g" and "tick_stats iter picks g = Some g'"
  shows "gui_ok g'"
proof -
  obtain k where k: "g_poll g = Some k" using assms(2) by (auto simp: tick_stats_def split: option.splits)
  with assms(1) have w: "reachable (world_at k g)" by (intro runs_at) (simp_all add: gui_ok_def refs_ok_def in_range_def)
  have "reachable w'" if "PollStats iter picks (world_at k g) = Some w'" for w'
    by (rule reachable.step [OF w, of "Poll iter picks"]) (simp add: that)
  with assms k show ?thesis
    by (auto simp: tick_stats_def Let_def exposing_ok intro!: set_world_ok split: if_splits)
qed

lemma disconnect_read_ok: "gui_ok g \<Longrightarrow> gui_ok (g\<lparr>g_disc := disconnect_read g\<rparr>)"
  by (auto simp: gui_ok_def refs_ok_def disc_ok_def disconnect_read_def in_range_def split: option.splits)

lemma disconnect_row_ok:
  assumes "gui_ok g" and "0 \<le> idx" and "k < length (g_runs g)"
  shows "\<exists>g'. disconnect_row idx k g = Inr g' \<and> gui_ok g'"
proof -
  have "\<exists>w'. close i (world_at k g) = Inr w' \<and> gui_ok (set_world k w' g)"
    if "Get (w_reg (world_at k g)) tid = Some t" "t_session t = Some i" for tid t i
    using live_close [OF runs_at [OF assms(1,3)] that] set_world_ok [OF assms(1)] by metis
  then show ?thesis
    using assms(1,2) by (auto simp: disconnect_row_def row_at_def Let_def split: option.splits) (metis sum.simps(6))
qed

lemma serve_ok:
  assumes "gui_ok g" and "k < length (g_runs g)" and "server_exec q (world_at k g) = Some res"
  shows "\<exists>w'. res = Inr w' \<and> gui_ok (set_world k w' g)"
proof -
  have w: "reachable (world_at k g)" by (rule runs_at [OF assms(1,2)])
  obtain w' where w': "res = Inr w'"
    using server_exec_good [OF _ assms(3)] reachable_ok [OF w] by (auto simp: good_step_def)
  have "reachable w'" by (rule reachable.step [OF w]) (use assms(3) w' in simp)
  with assms(1) w' set_world_ok show ?thesis by blast
qed

lemma gui_exec_ok:
  assumes "gui_ok g" and "gui_exec q g = Some res"
  shows "good_gui q g res"
proof (cases q)
  case (StopGo iter j)
  with assms stop_go_good show ?thesis by (force simp: good_gui_def)
next
  case ExposePort
  with assms exposePort_good show ?thesis by simp
next
  case DisconnectGo
  then obtain idx k where d: "g_disc g = Some (idx, k)" "res = disconnect_row idx k (g\<lparr>g_disc := None\<rparr>)"
    using assms(2) by (auto split: option.splits)
  have "0 \<le> idx" "k < length (g_runs (g\<lparr>g_disc := None\<rparr>))"
    using assms(1) d(1) by (simp_all add: gui_ok_def refs_ok_def disc_ok_def)
  then obtain g' where "disconnect_row idx k (g\<lparr>g_disc := None\<rparr>) = Inr g'" "gui_ok g'"
    using disconnect_row_ok [OF exposing_ok(5) [OF assms(1)]] by blast
  with d(2) show ?thesis by (simp add: good_gui_def)
next
  case (Serve k r)
  with assms(2) obtain res' where "k < length (g_runs g)" "server_exec r (world_at k g) = Some res'"
      "res = map_sum ServerPanic (\<lambda>w. set_world k w g) res'" by (auto split: if_splits)
  with serve_ok [OF assms(1)] show ?thesis by (fastforce simp: good_gui_def)
next
  case CloseWindow
  have "gui_ok (g\<lparr>g_ng := Manager_Stop (g_ng g)\<rparr>)"
    using assms(1) by (simp add: gui_ok_def refs_ok_def Manager_Stop_ok)
  with CloseWindow assms(2) stopServer_ok show ?thesis by (auto simp: windowClosed_def good_gui_def)
qed (use assms in \<open>auto simp: good_gui_def startServer_ok stopServer_ok stopExpose_ok exposing_ok disconnect_read_ok
    intro: exposeTap_ok exposeRead_ok exposeRun_ok exposeDone_ok tick_ok tick_stats_ok split: if_splits\<close>)

interpretation window: stable gui_step gui_ok
  by unfold_locales (auto simp: gui_step_def good_gui_def dest: gui_exec_ok split: option.splits sum.splits)

lemma gui_init_ok: "gui_ok (gui_init dflt file)"
  by (simp add: gui_init_def gui_ok_def refs_ok_def exposing_app_def disc_ok_def new_exposure_ok)

lemma window_ok: "run_opt gui_step qs (gui_init dflt file) = Some g \<Longrightarrow> gui_ok g"
  by (rule window.run_keeps [OF gui_init_ok])

section \<open>Where an exposure may find no application\<close>

text \<open>The events since the last press of the expose button, newest first.\<close>

definition is_press :: "gui_op \<Rightarrow> bool" where
  "is_press q = (case q of TapExpose tok \<Rightarrow> True | _ \<Rightarrow> False)"

definition is_stop :: "gui_op \<Rightarrow> bool" where
  "is_stop q = (case q of StopGo iter j \<Rightarrow> True | _ \<Rightarrow> False)"

definition since_press :: "gui_op list \<Rightarrow> gui_op list" where
  "since_press qs = takeWhile (\<lambda>q. \<not> is_press q) (rev qs)"

definition press_ok :: "gui_op list \<Rightarrow> gui \<Rightarrow> bool" where
  "press_ok qs g \<longleftrightarrow>
     (\<forall>tok. g_exposing g = Some (ExChecked tok) \<longrightarrow> g_app g \<noteq> None \<or> list_ex is_stop (since_press qs)) \<and>
     (\<forall>tok. g_exposing g = Some (ExLaunched tok None) \<longrightarrow> list_ex is_stop (since_press qs))"

lemma press_keep:
  assumes "press_ok qs g" and "\<not> is_press q"
    and "\<And>tok. g_exposing g' = Some (ExChecked tok) \<Longrightarrow> g_exposing g = Some (ExChecked tok)"
    and "\<And>tok. g_exposing g' = Some (ExLaunched tok None) \<Longrightarrow> g_exposing g = Some (ExLaunched tok None)"
    and "g_app g' = g_app g \<or> g_app g' \<noteq> None \<or> is_stop q"
  shows "press_ok (qs @ [q]) g'"
  using assms by (auto simp: press_ok_def since_press_def)

lemma set_at_sel [simp]:
  "g_exposing (set_world k w g) = g_exposing g" "g_app (set_world k w g) = g_app g"
  by (simp_all add: set_world_def)

lemma startServer_sel:
  "g_exposing (snd (startServer f io g)) = g_exposing g"
  "g_app (snd (startServer f io g)) = g_app g \<or> g_app (snd (startServer f io g)) \<noteq> None"
  by (auto simp: startServer_def Let_def split: sum.split option.split prod.split)

lemma stopServer_sel [simp]: "g_exposing (stopServer g) = g_exposing g" "g_app (stopServer g) = g_app g"
  by (simp_all add: stopServer_def split: option.split)

lemma refresh_sel [simp]:
  "g_exposing (refreshSessions clock iter g) = g_exposing g" "g_app (refreshSessions clock iter g) = g_app g"
  by (simp_all add: refreshSessions_def Let_def split: option.split)

lemma disconnect_row_sel:
  "disconnect_row idx k g = Inr g' \<Longrightarrow> g_exposing g' = g_exposing g \<and> g_app g' = g_app g"
  by (auto simp: disconnect_row_def Let_def split: if_splits sum.splits option.splits)

lemma stop_next_sel: "stop_next iter p g = Inr (p', g') \<Longrightarrow> g_exposing g' = g_exposing g"
  by (auto simp: stop_next_def set_app_def split: stopping.splits list.splits option.splits sum.splits if_splits)

lemma stop_go_sel: "stop_go iter j g = Some (Inr g') \<Longrightarrow> g_exposing g' = g_exposing g"
  by (cases "stop_next iter (g_stops g ! j) g") (auto simp: stop_go_def dest: stop_next_sel split: if_splits)

lemma gui_step_press:
  assumes "press_ok qs g" and "gui_step q g = Some g'"
  shows "press_ok (qs @ [q]) g'"
proof -
  have e: "gui_exec q g = Some (Inr g')" using assms(2) by (auto simp: gui_step_def split: option.splits sum.splits)
  show ?thesis
  proof (cases q)
    case (TapExpose tok)
    with e show ?thesis
      by (auto simp: exposeTap_def press_ok_def gui_running_def Let_def split: if_splits option.splits)
  next
    case ExposeRead
    with e assms(1) show ?thesis
      by (auto simp: exposeRead_def press_ok_def since_press_def is_press_def split: option.splits exposing.splits)
  next
    case (StopGo iter j)
    with e have "g_exposing g' = g_exposing g" by (auto dest: stop_go_sel)
    with assms(1) StopGo show ?thesis by (intro press_keep) (simp_all add: is_press_def is_stop_def)
  next
    case DisconnectGo
    with e have "g_exposing g' = g_exposing g \<and> g_app g' = g_app g"
      by (auto dest: disconnect_row_sel split: option.splits)
    with assms(1) DisconnectGo show ?thesis by (intro press_keep; auto simp: is_press_def)
  next
    case (TapStart f io)
    with e startServer_sel [of f io g] assms(1) show ?thesis by (intro press_keep) (auto simp: is_press_def)
  next
    case (Serve k r)
    with e obtain r' where "map_sum ServerPanic (\<lambda>w. set_world k w g) r' = Inr g'" by (auto split: if_splits)
    then have "g_exposing g' = g_exposing g \<and> g_app g' = g_app g" by (cases r') auto
    with assms(1) Serve show ?thesis by (intro press_keep; auto simp: is_press_def)
  qed ((rule press_keep [OF assms(1)]; insert e; auto simp: is_press_def exposePort_def exposeRun_def exposeDone_def
      stopExpose_def tick_def tick_stats_def windowClosed_def Let_def
      split: if_splits option.splits exposing.splits sum.splits prod.splits)+)
qed

lemma window_press:
  "run_opt gui_step qs (gui_init dflt file) = Some g \<Longrightarrow> press_ok qs g"
proof (induction qs arbitrary: g rule: rev_induct)
  case Nil
  then show ?case by (auto simp: press_ok_def gui_init_def)
next
  case (snoc q qs)
  then obtain g1 where "run_opt gui_step qs (gui_init dflt file) = Some g1" "gui_step q g1 = Some g"
    by (auto simp: run_opt_snoc bind_eq_Some_conv)
  with snoc.IH gui_step_press show ?case by blast
qed

section \<open>Properties\<close>

text \<open>C38.  Whatever the operator does, in whatever order the goroutines take their parts and whatever the
  servers do meanwhile: no handler panics, indexes out of range or uses a nil pointer, but for one place.
  It is the goroutine of an exposure that has read \<open>state.app\<close> after a stop cleared it, so a stop has
  moved between the press of the expose button and that read.  The window's application and registry belong together, every server that has
  been started stays in a reachable state, and at most one endpoint is open.\<close>

theorem window_never_panics:
  assumes "run_opt gui_step qs (gui_init dflt file) = Some g"
  shows "(gui_exec q g = Some (Inl e) \<longrightarrow>
      e = NilPointer \<and> q = ExposePort \<and> (\<exists>tok. g_exposing g = Some (ExLaunched tok None)) \<and>
      list_ex is_stop (since_press qs)) \<and>
    g_reg g = g_app g \<and> (\<forall>r \<in> set (g_runs g). reachable (ru_world r)) \<and> length (x_endpoints (g_ng g)) \<le> 1"
proof -
  have ok: "gui_ok g" by (rule window_ok [OF assms])
  have "e = NilPointer \<and> q = ExposePort \<and> (\<exists>tok. g_exposing g = Some (ExLaunched tok None)) \<and>
      list_ex is_stop (since_press qs)" if "gui_exec q g = Some (Inl e)"
    using gui_exec_ok [OF ok that] window_press [OF assms] by (auto simp: good_gui_def press_ok_def)
  with ok show ?thesis by (auto simp: gui_ok_def exposure_ok_def list_all_iff)
qed

text \<open>A stop that goes on alone: the events of its goroutine, and what it leaves.\<close>

definition stop_moves :: "nat \<Rightarrow> (tunnels \<Rightarrow> tunnels) \<Rightarrow> gui \<Rightarrow> gui_op list" where
  "stop_moves n iter g = TapStop # replicate n (StopGo iter (length (g_stops g)))"

definition after_stop :: "launched list \<Rightarrow> gui \<Rightarrow> gui" where
  "after_stop rs g = g\<lparr>g_ng := Manager_Stop (g_ng g), g_publicURL := [], g_app := None, g_reg := None,
     g_stops := g_stops g @ [StopDone], g_runs := rs\<rparr>"

lemma gui_step_StopGo:
  assumes "j < length (g_stops g)" and "g_stops g ! j = p" and "p \<noteq> StopDone" and "stop_next iter p g = Inr (p', g')"
  shows "gui_step (StopGo iter j) g = Some (g'\<lparr>g_stops := (g_stops g')[j := p']\<rparr>)"
  using assms by (simp add: gui_step_def stop_go_def)

lemma stop_closing:
  assumes "gui_ok g" and "g_stops g = ps @ [StopClosing k ts]" and "k < length (g_runs g)"
  shows "\<exists>n rs. map ru_app rs = map ru_app (g_runs g) \<and>
    run_opt gui_step (replicate n (StopGo iter (length ps))) g =
      Some (g\<lparr>g_publicURL := [], g_app := None, g_reg := None, g_stops := ps @ [StopDone], g_runs := rs\<rparr>)"
  using assms
proof (induction ts arbitrary: g)
  case Nil
  have "gui_step (StopGo iter (length ps)) g = Some (g\<lparr>g_stops := ps @ [StopClear]\<rparr>)"
    using gui_step_StopGo [of "length ps" g "StopClosing k []" iter StopClear g] Nil.prems(2) by (simp add: stop_next_def)
  moreover have "gui_step (StopGo iter (length ps)) (g\<lparr>g_stops := ps @ [StopClear]\<rparr>) =
      Some (g\<lparr>g_publicURL := [], g_app := None, g_reg := None, g_stops := ps @ [StopDone]\<rparr>)"
    by (simp add: gui_step_def stop_go_def stop_next_def)
  ultimately show ?case
    by (intro exI [of _ "Suc (Suc 0)"] exI [of _ "g_runs g"]) simp
next
  case (Cons t ts)
  let ?p = "StopClosing k (t # ts)"
  have "in_range (length (g_runs g)) (stopping_app ?p)" using Cons.prems(3) by (simp add: stopping_app_def in_range_def)
  from stop_next_ok [OF Cons.prems(1) this, of iter] obtain w where
    w: "stop_next iter ?p g = Inr (StopClosing k ts, set_world k w g) \<and> gui_ok (set_world k w g)"
  proof (cases "live_session t (world_at k g)")
    case None
    have "set_world k (world_at k g) g = g" by (simp add: set_world_def)
    with None that [of "world_at k g"] Cons.prems(1) show ?thesis by (simp add: stop_next_def)
  qed (auto simp: stop_next_def split: sum.splits)
  let ?g = "(set_world k w g)\<lparr>g_stops := ps @ [StopClosing k ts]\<rparr>"
  have st: "gui_step (StopGo iter (length ps)) g = Some ?g"
    using gui_step_StopGo [of "length ps" g ?p iter] w Cons.prems(2) by (simp add: set_world_def)
  have "gui_ok ?g" by (rule window.step_keeps [OF Cons.prems(1) st])
  from Cons.IH [OF this] Cons.prems(3) obtain n rs where
    "map ru_app rs = map ru_app (g_runs ?g)" "run_opt gui_step (replicate n (StopGo iter (length ps))) ?g =
      Some (?g\<lparr>g_publicURL := [], g_app := None, g_reg := None, g_stops := ps @ [StopDone], g_runs := rs\<rparr>)"
    by auto
  moreover have "(map ru_app (g_runs g))[k := app_at k g] = map ru_app (g_runs g)"
    using Cons.prems(3) by (simp add: list_update_same_conv)
  ultimately show ?case
    using st by (intro exI [of _ "Suc n"] exI [of _ rs]) (simp add: set_world_def map_update)
qed

lemma stop_runs:
  assumes "gui_ok g" and "g_app g = Some k" and "Running (app_at k g)"
  shows "\<exists>n rs. map ru_app rs = (map ru_app (g_runs g))[k := (app_at k g)\<lparr>a_ln := None\<rparr>] \<and>
    run_opt gui_step (stop_moves n iter g) g = Some (after_stop rs g)"
proof -
  let ?j = "length (g_stops g)"
  have k: "k < length (g_runs g)" using assms(1,2) by (simp add: gui_ok_def refs_ok_def in_range_def)
  let ?a = "(app_at k g)\<lparr>a_ln := None\<rparr>"
  let ?ts = "List_tunnels iter (w_reg (world_at k g))"
  let ?g = "(set_app k ?a g)\<lparr>g_ng := Manager_Stop (g_ng g), g_stops := g_stops g @ [StopClosing k ?ts]\<rparr>"
  have s: "run_opt gui_step [TapStop, StopGo iter ?j, StopGo iter ?j, StopGo iter ?j] g = Some ?g"
    using assms(2,3) k by (auto simp: gui_step_def stopServer_def stop_go_def stop_next_def Running_def set_app_def)
  have "gui_ok ?g" by (rule window.run_keeps [OF assms(1) s])
  from stop_closing [OF this, of "g_stops g" k ?ts iter] k obtain n rs where
    n: "map ru_app rs = map ru_app (g_runs ?g)" "run_opt gui_step (replicate n (StopGo iter ?j)) ?g =
      Some (?g\<lparr>g_publicURL := [], g_app := None, g_reg := None, g_stops := g_stops g @ [StopDone], g_runs := rs\<rparr>)"
    by auto
  have "stop_moves (3 + n) iter g = [TapStop, StopGo iter ?j, StopGo iter ?j, StopGo iter ?j] @ replicate n (StopGo iter ?j)"
    by (simp add: stop_moves_def eval_nat_numeral)
  then have "run_opt gui_step (stop_moves (3 + n) iter g) g = Some (after_stop rs g)"
    using s n(2) by (simp only: run_opt_append bind.bind_lunit) (simp add: after_stop_def set_app_def)
  with n(1) show ?thesis by (auto simp: set_app_def map_update)
qed

lemma Manager_Stop_clears:
  "exposure_ok x \<Longrightarrow> x_endpoints (Manager_Stop x) = [] \<and> x_mgr (Manager_Stop x) = new_Manager"
  by (auto simp: exposure_ok_def Manager_Stop_def Let_def Disconnect_agent_def Close_endpoint_def new_Manager_def
      filter_empty_conv split: option.splits)

lemma gui_running_obtain:
  assumes "gui_running g"
  obtains k where "g_app g = Some k" and "Running (app_at k g)"
  using assms by (auto simp: gui_running_def split: option.splits)

text \<open>Stopping the server ends its exposure: with no exposure under way nothing stays open, no public URL
  is kept, and no configuration for clients can be generated until the server runs again.\<close>

theorem stop_ends_exposure:
  assumes "run_opt gui_step qs (gui_init dflt file) = Some g" and "gui_running g"
  shows "\<exists>n g'. run_opt gui_step (stop_moves n iter g) g = Some g' \<and> \<not> gui_running g' \<and> g_publicURL g' = [] \<and>
    x_endpoints (g_ng g') = [] \<and>
    generateConfig io path addr tls dk g' = (Some ''start the server first'', dk) \<and>
    g_rows (refreshSessions clock iter g') = [] \<and>
    (g_exposing g = None \<longrightarrow> gui_exec (SdkStart na fw) g' = None \<and> gui_exec SdkDone g' = None)"
proof -
  have ok: "gui_ok g" by (rule window_ok [OF assms(1)])
  obtain k where k: "g_app g = Some k" "Running (app_at k g)" by (rule gui_running_obtain [OF assms(2)])
  obtain n rs where "run_opt gui_step (stop_moves n iter g) g = Some (after_stop rs g)"
    using stop_runs [OF ok k] by blast
  moreover have "x_endpoints (Manager_Stop (g_ng g)) = []" using ok Manager_Stop_clears by (simp add: gui_ok_def)
  ultimately show ?thesis
    by (intro exI [of _ n] exI [of _ "after_stop rs g"])
      (simp add: after_stop_def gui_running_def generateConfig_def refreshSessions_def exposeRun_def exposeDone_def)
qed

lemma press_runs:
  assumes "gui_running g" and "TrimSpace tok \<noteq> []" and "g_exposing g = None"
  shows "gui_step (TapExpose tok) g = Some (g\<lparr>g_exposing := Some (ExChecked (TrimSpace tok))\<rparr>)"
  using assms by (simp add: gui_step_def exposeTap_def Let_def)

lemma sdk_runs:
  assumes "exposure_ok x" and "\<not> Manager_Running x" and "tok \<noteq> []"
  obtains y a where "Manager_Start None (Inr url) tok port x = (Inr url, y)" and "exposure_ok y"
    and "x_endpoints y = [(a, ''http://127.0.0.1:'' @ dec_digits port)]"
proof -
  have e: "x_endpoints x = []" using assms(1,2) by (auto simp: exposure_ok_def Manager_Running_def)
  obtain y where y: "Manager_Start None (Inr url) tok port x = (Inr url, y)"
      "x_endpoints y = [(x_next x, ''http://127.0.0.1:'' @ dec_digits port)]"
    using assms(2,3) e by (simp add: Manager_Start_def Manager_Running_def Let_def)
  with that Manager_Start_ok [OF assms(1), of None "Inr url" tok port] show thesis by simp
qed

text \<open>C28.  An exposure under way is not stopped with the server.  Where the SDK call starts after the stop, the
  endpoint stays open, on the port of the dead server, or on port 8080 when the port is looked up after
  the stop as well; where the closure for the main thread runs
  after it, the URL of the closed endpoint is kept, and the next configurations name it.\<close>

theorem exposure_outlives_server:
  assumes "run_opt gui_step qs (gui_init dflt file) = Some g" and "g_app g = Some k" and "Running (app_at k g)"
    and "TrimSpace tok \<noteq> []" and "g_exposing g = None" and "\<not> Manager_Running (g_ng g)"
  shows "(\<exists>n g' a. run_opt gui_step ([TapExpose tok, ExposeRead, ExposePort] @ stop_moves n iter g @
        [SdkStart None (Inr url), SdkDone]) g = Some g' \<and> \<not> gui_running g' \<and> x_endpoints (g_ng g') =
        [(a, ''http://127.0.0.1:'' @ dec_digits (nat (portOf (Addr (app_at k g)))))] \<and> g_publicURL g' = url) \<and>
    (\<exists>n g' a. run_opt gui_step ([TapExpose tok, ExposeRead] @ stop_moves n iter g @
        [ExposePort, SdkStart None (Inr url), SdkDone]) g = Some g' \<and> \<not> gui_running g' \<and> x_endpoints (g_ng g') =
        [(a, ''http://127.0.0.1:'' @ dec_digits 8080)] \<and> g_publicURL g' = url) \<and>
    (\<exists>n g'. run_opt gui_step ([TapExpose tok, ExposeRead, ExposePort, SdkStart None (Inr url)] @ stop_moves n iter g @
        [SdkDone]) g = Some g' \<and> \<not> gui_running g' \<and> x_endpoints (g_ng g') = [] \<and> g_publicURL g' = url)"
proof (intro conjI)
  let ?tok = "TrimSpace tok" and ?port = "portOf (Addr (app_at k g))"
  have ok: "gui_ok g" by (rule window_ok [OF assms(1)])
  have x: "exposure_ok (g_ng g)" "exposure_ok (Manager_Stop (g_ng g))" "\<not> Manager_Running (Manager_Stop (g_ng g))"
    using ok Manager_Stop_ok Manager_Stop_clears by (auto simp: gui_ok_def Manager_Running_def new_Manager_def)
  have run: "gui_running g" using assms(2,3) by (simp add: gui_running_def)
  note press = press_runs [OF run assms(4,5)]
  have k: "k < length (g_runs g)" using ok assms(2) by (simp add: gui_ok_def refs_ok_def in_range_def)
  have stop: "\<exists>n rs. map ru_app rs = (map ru_app (g_runs g))[k := (app_at k g)\<lparr>a_ln := None\<rparr>] \<and>
      run_opt gui_step (stop_moves n iter g) h = Some (after_stop rs h)"
    if "run_opt gui_step rs' g = Some h" "g_runs h = g_runs g" "g_app h = g_app g" "g_stops h = g_stops g" for h rs'
    using stop_runs [OF window.run_keeps [OF ok that(1)], of k iter] that(2-4) assms(2,3) by (simp add: stop_moves_def)
  have r1: "run_opt gui_step [TapExpose tok, ExposeRead] g = Some (g\<lparr>g_exposing := Some (ExLaunched ?tok (Some k))\<rparr>)"
    (is "_ = Some ?g1") using press assms(2) by (simp add: gui_step_def exposeRead_def)
  have r2: "run_opt gui_step [TapExpose tok, ExposeRead, ExposePort] g =
      Some (g\<lparr>g_exposing := Some (ExPorted ?tok ?port)\<rparr>)"
    (is "_ = Some ?g2") using press assms(2) by (simp add: gui_step_def exposeRead_def exposePort_def)
  show "\<exists>n g' a. run_opt gui_step ([TapExpose tok, ExposeRead, ExposePort] @ stop_moves n iter g @
        [SdkStart None (Inr url), SdkDone]) g = Some g' \<and> \<not> gui_running g' \<and> x_endpoints (g_ng g') =
        [(a, ''http://127.0.0.1:'' @ dec_digits (nat ?port))] \<and> g_publicURL g' = url"
  proof -
    obtain n rs where n: "run_opt gui_step (stop_moves n iter g) ?g2 = Some (after_stop rs ?g2)"
      using stop [OF r2] by auto
    obtain y a where "Manager_Start None (Inr url) ?tok (nat ?port) (Manager_Stop (g_ng g)) = (Inr url, y)"
        "x_endpoints y = [(a, ''http://127.0.0.1:'' @ dec_digits (nat ?port))]"
      using sdk_runs [OF x(2,3) assms(4)] by metis
    then have "\<exists>g'. run_opt gui_step [SdkStart None (Inr url), SdkDone] (after_stop rs ?g2) = Some g' \<and>
        \<not> gui_running g' \<and> x_endpoints (g_ng g') = [(a, ''http://127.0.0.1:'' @ dec_digits (nat ?port))] \<and>
        g_publicURL g' = url"
      by (simp add: gui_step_def exposeRun_def exposeDone_def after_stop_def gui_running_def)
    then show ?thesis unfolding run_opt_append r2 bind.bind_lunit using n by (metis bind.bind_lunit)
  qed
  show "\<exists>n g' a. run_opt gui_step ([TapExpose tok, ExposeRead] @ stop_moves n iter g @
        [ExposePort, SdkStart None (Inr url), SdkDone]) g = Some g' \<and> \<not> gui_running g' \<and> x_endpoints (g_ng g') =
        [(a, ''http://127.0.0.1:'' @ dec_digits 8080)] \<and> g_publicURL g' = url"
  proof -
    obtain n rs where n: "run_opt gui_step (stop_moves n iter g) ?g1 = Some (after_stop rs ?g1)"
        "map ru_app rs = (map ru_app (g_runs g))[k := (app_at k g)\<lparr>a_ln := None\<rparr>]"
      using stop [OF r1] by auto
    have "length rs = length (g_runs g)" using arg_cong [OF n(2), of length] by simp
    then have "ru_app (rs ! k) = (app_at k g)\<lparr>a_ln := None\<rparr>"
      using arg_cong [OF n(2), of "\<lambda>xs. xs ! k"] k by simp
    then have port: "portOf (Addr (ru_app (rs ! k))) = 8080"
      by (simp add: Addr_def portOf_def SplitHostPort_def last_index_def)
    obtain y a where "Manager_Start None (Inr url) ?tok (nat 8080) (Manager_Stop (g_ng g)) = (Inr url, y)"
        "x_endpoints y = [(a, ''http://127.0.0.1:'' @ dec_digits (nat 8080))]"
      using sdk_runs [OF x(2,3) assms(4)] by metis
    then have "\<exists>g'. run_opt gui_step [ExposePort, SdkStart None (Inr url), SdkDone] (after_stop rs ?g1) = Some g' \<and>
        \<not> gui_running g' \<and> x_endpoints (g_ng g') = [(a, ''http://127.0.0.1:'' @ dec_digits 8080)] \<and> g_publicURL g' = url"
      by (simp add: gui_step_def exposePort_def exposeRun_def exposeDone_def after_stop_def gui_running_def port)
    then show ?thesis unfolding run_opt_append r1 bind.bind_lunit using n(1) by (metis bind.bind_lunit)
  qed
  show "\<exists>n g'. run_opt gui_step ([TapExpose tok, ExposeRead, ExposePort, SdkStart None (Inr url)] @ stop_moves n iter g @
        [SdkDone]) g = Some g' \<and> \<not> gui_running g' \<and> x_endpoints (g_ng g') = [] \<and> g_publicURL g' = url"
  proof -
    obtain y where y: "Manager_Start None (Inr url) ?tok (nat ?port) (g_ng g) = (Inr url, y)" "exposure_ok y"
      using sdk_runs [OF x(1) assms(6,4)] by metis
    have r3: "run_opt gui_step [TapExpose tok, ExposeRead, ExposePort, SdkStart None (Inr url)] g =
        Some (g\<lparr>g_ng := y, g_exposing := Some (ExDone (Inr url))\<rparr>)" (is "_ = Some ?g3")
      using press assms(2) y(1) by (simp add: gui_step_def exposeRead_def exposePort_def exposeRun_def)
    obtain n rs where n: "run_opt gui_step (stop_moves n iter g) ?g3 = Some (after_stop rs ?g3)"
      using stop [OF r3] by auto
    have "\<exists>g'. run_opt gui_step [SdkDone] (after_stop rs ?g3) = Some g' \<and>
        \<not> gui_running g' \<and> x_endpoints (g_ng g') = [] \<and> g_publicURL g' = url"
      using Manager_Stop_clears [OF y(2)] by (simp add: gui_step_def exposeDone_def after_stop_def gui_running_def)
    then show ?thesis unfolding run_opt_append r3 bind.bind_lunit using n by (metis bind.bind_lunit)
  qed
qed

text \<open>Where the stop is done between the check of the expose button and its second look at \<open>state.app\<close>,
  the goroutine of the exposure asks no application for its address, and the program dies.\<close>

theorem expose_after_stop_crashes:
  assumes "run_opt gui_step qs (gui_init dflt file) = Some g" and "gui_running g"
    and "TrimSpace tok \<noteq> []" and "g_exposing g = None"
  shows "\<exists>n g'. run_opt gui_step ([TapExpose tok] @ stop_moves n iter g @ [ExposeRead]) g = Some g' \<and>
    gui_exec ExposePort g' = Some (Inl NilPointer)"
proof -
  obtain k where k: "g_app g = Some k" "Running (app_at k g)" by (rule gui_running_obtain [OF assms(2)])
  let ?g = "g\<lparr>g_exposing := Some (ExChecked (TrimSpace tok))\<rparr>"
  have s: "run_opt gui_step [TapExpose tok] g = Some ?g" using press_runs [OF assms(2-4)] by simp
  obtain n rs where n: "run_opt gui_step (stop_moves n iter ?g) ?g = Some (after_stop rs ?g)"
    using stop_runs [OF window.run_keeps [OF window_ok [OF assms(1)] s], of k iter] k by auto
  have "stop_moves n iter ?g = stop_moves n iter g" by (simp add: stop_moves_def)
  moreover have "\<exists>g'. run_opt gui_step [ExposeRead] (after_stop rs ?g) = Some g' \<and>
      gui_exec ExposePort g' = Some (Inl NilPointer)"
    by (simp add: gui_step_def exposeRead_def exposePort_def after_stop_def)
  ultimately show ?thesis unfolding run_opt_append s bind.bind_lunit using n by (metis bind.bind_lunit)
qed

text \<open>C39.  A press of the disconnect button just after a refresh closes the session of the tunnel that the
  selected row shows, and takes no other tunnel offline.  The selection is a row number and stays.\<close>

theorem disconnect_hits_row:
  assumes "reachable (world_at r g)" and "g_reg g = Some r" and "r < length (g_runs g)" and "g_selected g = int k"
    and "k < length (List_tunnels iter (w_reg (world_at r g)))" and "List_tunnels iter (w_reg (world_at r g)) ! k = t"
    and "Get (w_reg (world_at r g)) (t_ID t) = Some t" and "t_session t = Some i"
  shows "cell_text k 0 (refreshSessions clock iter g) = t_ID t \<and>
    (\<exists>g' w'. disconnectSelected (refreshSessions clock iter g) = Inr g' \<and> world_at r g' = w' \<and>
      s_closed (w_sess w' i) \<and> Option.bind (Get (w_reg w') (t_ID t)) t_session = None \<and>
      g_selected g' = g_selected g \<and>
      \<not> (\<exists>tid u j. Get (w_reg (world_at r g)) tid = Some u \<and> t_session u = Some j \<and> j \<noteq> i \<and>
           Get (w_reg w') tid \<noteq> Some u))"
proof -
  let ?w = "world_at r g"
  have w: "world_ok ?w" by (rule reachable_world [OF assms(1)])
  obtain w' where w': "close i ?w = Inr w'" using close_ok [OF w] by metis
  have id: "sr_id (row_of clock w u) = t_ID u" for w u
    by (simp add: row_of_def Let_def split: option.split)
  have r: "refreshSessions clock iter g = g\<lparr>g_rows := session_rows clock iter ?w\<rparr>"
    using assms(2,4,5) by (simp add: refreshSessions_def session_rows_def Let_def)
  have k: "session_rows clock iter ?w ! k = row_of clock ?w t" "k < length (session_rows clock iter ?w)"
    using assms(5,6) by (simp_all add: session_rows_def)
  have "disconnectSelected (refreshSessions clock iter g)
      = Inr (set_world r w' (g\<lparr>g_rows := session_rows clock iter ?w\<rparr>))"
    using assms(2,4,7,8) w' k by (simp add: r disconnectSelected_def disconnect_read_def disconnect_row_def row_at_def Let_def id)
  moreover have "Option.bind (Get (w_reg w') (t_ID t)) t_session = None"
    using close_unlinks(1) [OF w w'] assms(7,8) by simp
  moreover have "cell_text k 0 (refreshSessions clock iter g) = t_ID t"
    using k by (simp add: r cell_text_def cell_def tableHeaders_def id)
  moreover have "s_closed (w_sess w' i)" by (rule close_frame(5) [OF w w'])
  ultimately show ?thesis
    using close_keeps_other [OF w w'] assms(3) by (auto simp: set_world_def)
qed

section \<open>Witnesses\<close>

definition demo_form :: form where
  "demo_form = \<lparr>fm_addr = ''127.0.0.1:9000'', fm_data = ''data'', fm_cert = [], fm_key = [], fm_token = ''tok'',
     fm_debug = False\<rparr>"

definition demo_start :: start_io where
  "demo_start = \<lparr>si_saved = None, si_mkdir = None, si_read = None, si_disk = Map.empty, si_now = 0,
     si_listen = Inr\<rparr>"

definition demo_gui :: gui where
  "demo_gui = snd (startServer demo_form demo_start (gui_init ''data'' None))"

lemma demo_gui_run: "run_opt gui_step [TapStart demo_form demo_start] (gui_init ''data'' None) = Some demo_gui"
  by (simp add: gui_step_def demo_gui_def)

lemma demo_addr: "TrimSpace ''127.0.0.1:9000'' = ''127.0.0.1:9000''" "TrimSpace ''data'' = ''data''"
    "TrimSpace ''tok'' = ''tok''" "TrimSpace [] = []"
    "SplitHostPort ''127.0.0.1:9000'' = Inr (''127.0.0.1'', ''9000'')"
  by code_simp+

lemma demo_gui_sel:
  "gui_running demo_gui" "g_exposing demo_gui = None" "\<not> Manager_Running (g_ng demo_gui)" "g_app demo_gui = Some 0"
  "Running (app_at 0 demo_gui)"
  by (simp_all add: demo_gui_def startServer_def demo_form_def demo_start_def demo_addr form_settings_def
      NewApp_def Start_def Load_def Let_def gui_running_def Running_def gui_init_def Manager_Running_def
      new_exposure_def new_Manager_def)

lemma demo_token: "TrimSpace ''tok'' \<noteq> []"
  by (simp add: demo_addr)

theorem window_never_panics_witness:
  "\<exists>qs g. run_opt gui_step qs (gui_init ''data'' None) = Some g \<and> gui_exec ExposePort g = Some (Inl NilPointer) \<and>
     list_ex is_stop (since_press qs)"
proof -
  obtain n g where g: "run_opt gui_step ([TapExpose ''tok''] @ stop_moves n id demo_gui @ [ExposeRead]) demo_gui = Some g"
      "gui_exec ExposePort g = Some (Inl NilPointer)"
    using expose_after_stop_crashes [OF demo_gui_run demo_gui_sel(1) demo_token demo_gui_sel(2), of id] by blast
  have r: "run_opt gui_step ([TapStart demo_form demo_start] @ [TapExpose ''tok''] @ stop_moves n id demo_gui @ [ExposeRead])
      (gui_init ''data'' None) = Some g"
    using g(1) by (simp only: run_opt_append [of _ "[TapStart demo_form demo_start]"] demo_gui_run bind.bind_lunit)
  from window_never_panics [OF r, of ExposePort NilPointer] g(2) r show ?thesis by blast
qed

theorem stop_ends_exposure_witness:
  "\<exists>n g'. run_opt gui_step (stop_moves n id demo_gui) demo_gui = Some g' \<and> \<not> gui_running g' \<and> x_endpoints (g_ng g') = []"
  using stop_ends_exposure [OF demo_gui_run demo_gui_sel(1), of id] by blast

theorem exposure_outlives_server_witness:
  "\<exists>n g' a. run_opt gui_step ([TapExpose ''tok'', ExposeRead] @ stop_moves n id demo_gui @
        [ExposePort, SdkStart None (Inr ''https://x''), SdkDone]) demo_gui = Some g' \<and> \<not> gui_running g' \<and>
      x_endpoints (g_ng g') = [(a, ''http://127.0.0.1:'' @ dec_digits 8080)] \<and> g_publicURL g' = ''https://x''"
  using exposure_outlives_server [OF demo_gui_run demo_gui_sel(4,5) demo_token demo_gui_sel(2,3), of id "''https://x''"]
  by (elim conjE) assumption

theorem expose_after_stop_crashes_witness:
  "\<exists>n g'. run_opt gui_step ([TapExpose ''tok''] @ stop_moves n id demo_gui @ [ExposeRead]) demo_gui = Some g' \<and>
    gui_exec ExposePort g' = Some (Inl NilPointer)"
  by (rule expose_after_stop_crashes [OF demo_gui_run demo_gui_sel(1) demo_token demo_gui_sel(2)])

theorem disconnect_hits_row_witness:
  "\<exists>g'. disconnectSelected (refreshSessions (\<lambda>_. []) id ((gui_init ''data'' None)
       \<lparr>g_runs := [\<lparr>ru_app = NewApp '':8080'' [] [], ru_world = demo_w2\<rparr>], g_reg := Some 0, g_selected := 0\<rparr>)) = Inr g' \<and>
     s_closed (w_sess (world_at 0 g') 0)"
proof -
  let ?g = "(gui_init ''data'' None)
      \<lparr>g_runs := [\<lparr>ru_app = NewApp '':8080'' [] [], ru_world = demo_w2\<rparr>], g_reg := Some 0, g_selected := int 0\<rparr>"
  let ?t = "(newTunnel 0 ''zzzz0000'')\<lparr>t_session := Some 0\<rparr>"
  have l: "List_tunnels id (w_reg demo_w2) = [?t]"
    by (simp add: demo_w2_reg List_tunnels_def modify_tunnel_def)
      (simp add: put_tunnel_def open_registry_def NewRegistry_def)
  have g: "world_at 0 ?g = demo_w2" "g_reg ?g = Some 0" "0 < length (g_runs ?g)" "g_selected ?g = int 0" by simp_all
  have "reachable (world_at 0 ?g)" using demo_w2_reachable by simp
  from disconnect_hits_row [OF this g(2-4), of id ?t 0 "\<lambda>_. []"] l demo_w2_sel(3)
  show ?thesis by (simp add: newTunnel_def) blast
qed

end
