(* ===== verification/ClientGui.thy ===== *)
theory ClientGui
  imports ClientLoop GuiParts
begin

text \<open>
  The window of the client (\<open>cmd/selftunnel-client-gui/main.go\<close>): the connect button, the status bar
  and the clients it starts.

  Every client the window has started is a runner of \<open>ClientLoop\<close>, in the order of their start.  They
  share the configuration (one pointer), the files and the sleep inhibitor (a package variable), so
  these live in the window and are lent to the client that moves.  The status callback posts a
  closure to the main thread; a posted one is an entry of \<open>cg_posted\<close>.
\<close>

section \<open>State\<close>

record cgui =
  cg_cfg :: Config
  cg_disk :: cfg_disk
  cg_power :: power
  cg_runs :: "runner list"
  cg_current :: "nat option"
  cg_cancel :: "nat option"
  cg_posted :: "Status list"
  cg_statusLabel :: string
  cg_tunIDLabel :: string
  cg_button :: string
  cg_copy :: bool

definition cgui_init :: "go_error option \<Rightarrow> string \<Rightarrow> cfg_disk \<Rightarrow> power \<Rightarrow> cgui" where
  "cgui_init read_err configPath dk pw =
     \<lparr>cg_cfg = (case LoadConfig read_err dk configPath of Inl e \<Rightarrow> empty_config | Inr cfg \<Rightarrow> cfg),
      cg_disk = dk, cg_power = pw, cg_runs = [], cg_current = None, cg_cancel = None, cg_posted = [],
      cg_statusLabel = ''Disconnected'', cg_tunIDLabel = ''-'', cg_button = ''Connect'', cg_copy = False\<rparr>"

section \<open>A move of a client\<close>

definition lend :: "cgui \<Rightarrow> runner \<Rightarrow> runner" where
  "lend g s = s\<lparr>rn_client := (rn_client s)\<lparr>cl_cfg := cg_cfg g, cl_disk := cg_disk g, cl_power := cg_power g\<rparr>\<rparr>"

definition give_back :: "nat \<Rightarrow> runner \<Rightarrow> cgui \<Rightarrow> cgui" where
  "give_back k s g =
     g\<lparr>cg_cfg := cl_cfg (rn_client s), cg_disk := cl_disk (rn_client s), cg_power := cl_power (rn_client s),
       cg_posted := cg_posted g @
         drop (length (cl_statuses (rn_client (cg_runs g ! k)))) (cl_statuses (rn_client s)),
       cg_runs := (cg_runs g)[k := s]\<rparr>"

definition client_move :: "nat \<Rightarrow> event \<Rightarrow> cgui \<Rightarrow> cgui option" where
  "client_move k ev g =
     (if k < length (cg_runs g)
      then map_option (\<lambda>s. give_back k s g) (client_step ev (lend g (cg_runs g ! k))) else None)"

section \<open>The handlers\<close>

text \<open>\<open>updateUI\<close> on the main thread.\<close>

definition updateUI :: "Status \<Rightarrow> cgui \<Rightarrow> cgui" where
  "updateUI status g =
     (case status of
        StatusOnline \<Rightarrow>
          (let g1 = g\<lparr>cg_statusLabel := ''Online''\<rparr>;
               g2 = (case cg_current g1 of
                       Some k \<Rightarrow> g1\<lparr>cg_tunIDLabel := Client_TunnelID (rn_client (cg_runs g1 ! k))\<rparr>
                     | None \<Rightarrow> g1)
           in g2\<lparr>cg_button := ''Disconnect'', cg_copy := True\<rparr>)
      | StatusConnecting \<Rightarrow>
          g\<lparr>cg_statusLabel := ''Connecting...'', cg_button := ''Connecting'', cg_copy := False\<rparr>
      | StatusBackoff \<Rightarrow>
          g\<lparr>cg_statusLabel := ''Reconnecting...'', cg_button := ''Reconnecting'', cg_copy := False\<rparr>
      | StatusDisconnected \<Rightarrow>
          g\<lparr>cg_statusLabel := ''Disconnected'', cg_tunIDLabel := ''-'', cg_button := ''Connect'', cg_copy := False\<rparr>)"

definition post_next :: "cgui \<Rightarrow> cgui option" where
  "post_next g =
     (case cg_posted g of [] \<Rightarrow> None | status # rest \<Rightarrow> Some (updateUI status (g\<lparr>cg_posted := rest\<rparr>)))"

text \<open>Cancelling a context twice does nothing.\<close>

definition cancel_ctx :: "nat \<Rightarrow> cgui \<Rightarrow> cgui" where
  "cancel_ctx k g =
     (case client_move k (Env (CtxDone ''context canceled'')) g of None \<Rightarrow> g | Some g' \<Rightarrow> g')"

definition stop_current :: "power_io \<Rightarrow> nat \<Rightarrow> cgui \<Rightarrow> cgui" where
  "stop_current pio k g =
     (case client_move k (Env (StopCalled pio)) g of None \<Rightarrow> g | Some g' \<Rightarrow> g')"

definition stopClient :: "power_io \<Rightarrow> cgui \<Rightarrow> cgui" where
  "stopClient pio g =
     (let g1 = (case cg_current g of None \<Rightarrow> g | Some k \<Rightarrow> (stop_current pio k g)\<lparr>cg_current := None\<rparr>);
          g2 = (case cg_cancel g1 of None \<Rightarrow> g1 | Some k \<Rightarrow> (cancel_ctx k g1)\<lparr>cg_cancel := None\<rparr>)
      in g2\<lparr>cg_posted := cg_posted g2 @ [StatusDisconnected]\<rparr>)"

text \<open>What the operator has entered, and the outcome of the operations on files and keys.\<close>

record entries =
  en_server :: string
  en_target :: string
  en_custom :: string
  en_opts :: Options
  en_load :: "string \<Rightarrow> string \<Rightarrow> go_error + string"
  en_save :: cfg_io
  en_path :: string
  en_power :: power_io

definition start_client :: "entries \<Rightarrow> cgui \<Rightarrow> cgui" where
  "start_client en g =
     (let o1 = (en_opts en)\<lparr>o_ClientCert := TrimSpace (o_ClientCert (en_opts en)),
            o_ClientKey := TrimSpace (o_ClientKey (en_opts en)), o_OnStatusChange := True, o_OnLog := True\<rparr>;
          c = SetConfigPath (en_path en) (New (en_load en) (cg_disk g) (cg_power g) (cg_cfg g) o1);
          k = length (cg_runs g)
      in g\<lparr>cg_runs := cg_runs g @ [run_init c], cg_current := Some k, cg_cancel := Some k\<rparr>)"

definition current_online :: "cgui \<Rightarrow> bool" where
  "current_online g =
     (case cg_current g of None \<Rightarrow> False | Some k \<Rightarrow> Client_Status (rn_client (cg_runs g ! k)) = StatusOnline)"

definition tapConnect :: "entries \<Rightarrow> cgui \<Rightarrow> go_error option \<times> cgui" where
  "tapConnect en g =
     (if current_online g then (None, stopClient (en_power en) g)
      else case gui_config (en_server en) (en_target en) (en_custom en) (cg_cfg g) of
             Inl e \<Rightarrow> (Some e, g)
           | Inr cfg \<Rightarrow>
               (let g1 = g\<lparr>cg_cfg := cfg\<rparr> in
                case SaveConfig (en_save en) (en_path en) cfg (cg_disk g1) of
                  (Some e, dk) \<Rightarrow> (Some (''failed to save config: '' @ e), g1\<lparr>cg_disk := dk\<rparr>)
                | (None, dk) \<Rightarrow> (None, start_client en (g1\<lparr>cg_disk := dk\<rparr>))))"

text \<open>The copy button.\<close>

definition copyID :: "cgui \<Rightarrow> string option" where
  "copyID g =
     (case cg_current g of
        None \<Rightarrow> None
      | Some k \<Rightarrow> (let i = Client_TunnelID (rn_client (cg_runs g ! k)) in if i \<noteq> [] then Some i else None))"

text \<open>A line of the log pane; an attribute is a key and a value as \<open>fmt\<close> prints them.\<close>

definition onLog :: "string \<Rightarrow> string \<Rightarrow> (string \<times> string) list \<Rightarrow> string" where
  "onLog level msg attrs =
     fold (\<lambda>(k, v) line. line @ '' '' @ k @ ''='' @ v) attrs (''['' @ map ascii_upper level @ ''] '' @ msg)"

section \<open>Events\<close>

datatype cgui_op =
    TapConnect entries
  | Closed power_io
  | Posted
  | Moves nat event

fun cgui_step :: "cgui_op \<Rightarrow> cgui \<Rightarrow> cgui option" where
  "cgui_step (TapConnect en) g = Some (snd (tapConnect en g))"
| "cgui_step (Closed pio) g = Some (stopClient pio g)"
| "cgui_step Posted g = post_next g"
| "cgui_step (Moves k ev) g = client_move k ev g"

section \<open>One client at a time\<close>

text \<open>A client that nobody has asked to stop.\<close>

definition live :: "runner \<Rightarrow> bool" where
  "live s \<longleftrightarrow> rn_ctx s = None \<and> \<not> cl_stop (rn_client s)"

definition live_ok :: "cgui \<Rightarrow> bool" where
  "live_ok g \<longleftrightarrow> cg_cancel g = cg_current g \<and>
     (\<forall>k < length (cg_runs g). live (cg_runs g ! k) \<longrightarrow> cg_current g = Some k)"

lemma run_keeps_asked:
  "run_step ev s = Some s' \<Longrightarrow> rn_ctx s' = rn_ctx s \<and> cl_stop (rn_client s') = cl_stop (rn_client s)"
  by (cases ev) (auto simp: client_simps link_kept Let_def sleepBackoff_def same_link_def
      split: if_splits option.splits place.splits sum.splits prod.splits dest!: link_sendD)

lemma live_back: "client_step ev s = Some s' \<Longrightarrow> live s' \<Longrightarrow> live s"
proof (cases ev)
  case (Env e)
  then show "client_step ev s = Some s' \<Longrightarrow> live s' \<Longrightarrow> live s"
    using env_keeps [of e s s'] by (cases "rn_ctx s") (auto simp: live_def)
qed (use run_keeps_asked [of _ s s'] in \<open>auto simp: live_def\<close>)

lemma live_lend [simp]: "live (lend g s) = live s"
  by (simp add: live_def lend_def)

lemma give_back_sel [simp]:
  "cg_runs (give_back k s g) = (cg_runs g)[k := s]" "cg_current (give_back k s g) = cg_current g"
  "cg_cancel (give_back k s g) = cg_cancel g"
  by (simp_all add: give_back_def)

lemma client_move_cases:
  assumes "client_move k ev g = Some g'"
  obtains s where "k < length (cg_runs g)" "client_step ev (lend g (cg_runs g ! k)) = Some s" "g' = give_back k s g"
  using assms by (auto simp: client_move_def split: if_splits)

lemma client_move_live:
  assumes "client_move k ev g = Some g'" and "live (cg_runs g' ! j)" and "j < length (cg_runs g')"
  shows "live (cg_runs g ! j) \<and> j < length (cg_runs g)"
  using assms(1)
proof (cases rule: client_move_cases)
  case (1 s)
  with assms live_back [OF 1(2)] show ?thesis by (cases "j = k") auto
qed

lemma client_move_sel:
  "client_move k ev g = Some g' \<Longrightarrow> cg_current g' = cg_current g \<and> cg_cancel g' = cg_cancel g \<and>
     length (cg_runs g') = length (cg_runs g)"
  by (erule client_move_cases) simp

lemma updateUI_sel [simp]:
  "cg_runs (updateUI st g) = cg_runs g" "cg_current (updateUI st g) = cg_current g"
  "cg_cancel (updateUI st g) = cg_cancel g"
  by (simp_all add: updateUI_def Let_def split: Status.split option.split)

text \<open>The two requests to stop, as a change of one runner.\<close>

lemma stop_current_sel:
  "cg_current (stop_current pio k g) = cg_current g" "cg_cancel (stop_current pio k g) = cg_cancel g"
  "length (cg_runs (stop_current pio k g)) = length (cg_runs g)"
  "k < length (cg_runs g) \<Longrightarrow> cl_stop (rn_client (cg_runs (stop_current pio k g) ! k))"
  "j \<noteq> k \<Longrightarrow> cg_runs (stop_current pio k g) ! j = cg_runs g ! j"
  by (simp_all add: stop_current_def client_move_def client_simps)

lemma cancel_ctx_sel:
  "cg_current (cancel_ctx k g) = cg_current g" "cg_cancel (cancel_ctx k g) = cg_cancel g"
  "length (cg_runs (cancel_ctx k g)) = length (cg_runs g)"
  "k < length (cg_runs g) \<Longrightarrow> rn_ctx (cg_runs (cancel_ctx k g) ! k) \<noteq> None"
  "k < length (cg_runs g) \<Longrightarrow> cl_stop (rn_client (cg_runs (cancel_ctx k g) ! k)) = cl_stop (rn_client (cg_runs g ! k))"
  "j \<noteq> k \<Longrightarrow> cg_runs (cancel_ctx k g) ! j = cg_runs g ! j"
  by (auto simp: cancel_ctx_def client_move_def lend_def split: option.splits if_splits)

lemma stopClient_sel:
  assumes "cg_cancel g = cg_current g"
  shows "cg_current (stopClient pio g) = None" "cg_cancel (stopClient pio g) = None"
    "length (cg_runs (stopClient pio g)) = length (cg_runs g)"
    "cg_current g \<noteq> Some j \<Longrightarrow> cg_runs (stopClient pio g) ! j = cg_runs g ! j"
    "cg_current g = Some k \<Longrightarrow> k < length (cg_runs g) \<Longrightarrow>
      cl_stop (rn_client (cg_runs (stopClient pio g) ! k)) \<and> rn_ctx (cg_runs (stopClient pio g) ! k) \<noteq> None"
  using assms by (auto simp: stopClient_def Let_def stop_current_sel cancel_ctx_sel split: option.splits)

lemma stopClient_live:
  assumes "live_ok g" and "j < length (cg_runs g)"
  shows "\<not> live (cg_runs (stopClient pio g) ! j)"
proof (cases "cg_current g = Some j")
  case True
  have "cg_cancel g = cg_current g" using assms(1) by (simp add: live_ok_def)
  from stopClient_sel(5) [OF this True assms(2), of pio] show ?thesis by (simp add: live_def)
next
  case False
  have "cg_cancel g = cg_current g" "\<not> live (cg_runs g ! j)" using assms False unfolding live_ok_def by blast+
  with stopClient_sel(4) [OF this(1) False, of pio] show ?thesis by simp
qed

lemma stopClient_ok: "live_ok g \<Longrightarrow> live_ok (stopClient pio g)"
  using stopClient_live [of g] stopClient_sel(1-3) [of g] by (simp add: live_ok_def)

lemma start_client_sel:
  "cg_runs (start_client en g) = cg_runs g @ [cg_runs (start_client en g) ! length (cg_runs g)]"
  "length (cg_runs (start_client en g)) = Suc (length (cg_runs g))"
  "cg_current (start_client en g) = Some (length (cg_runs g))" "cg_cancel (start_client en g) = cg_current (start_client en g)"
  "live (cg_runs (start_client en g) ! length (cg_runs g))"
  by (simp_all add: start_client_def Let_def live_def run_init_def SetConfigPath_def New_def)

text \<open>The operator presses the button only when no client is there, or when the current one is online.\<close>

definition idle_or_online :: "cgui \<Rightarrow> bool" where
  "idle_or_online g \<longleftrightarrow> cg_current g = None \<or> current_online g"

fun patient_step :: "cgui_op \<Rightarrow> cgui \<Rightarrow> cgui option" where
  "patient_step (TapConnect en) g = (if idle_or_online g then cgui_step (TapConnect en) g else None)"
| "patient_step q g = cgui_step q g"

lemma tapConnect_ok:
  assumes "live_ok g" and "idle_or_online g"
  shows "live_ok (snd (tapConnect en g))"
proof (cases "current_online g")
  case True
  then show ?thesis using assms(1) by (simp add: tapConnect_def stopClient_ok)
next
  case False
  then have none: "cg_current g = None" using assms(2) by (simp add: idle_or_online_def)
  have "live_ok (start_client en h)" if "cg_runs h = cg_runs g" for h
  proof -
    have "\<not> live (cg_runs g ! k)" if "k < length (cg_runs g)" for k
      using assms(1) none that by (auto simp: live_ok_def)
    moreover have "cg_runs (start_client en h) ! k = cg_runs g ! k" if "k < length (cg_runs g)" for k
      using that \<open>cg_runs h = cg_runs g\<close> by (subst start_client_sel(1)) (simp add: nth_append)
    ultimately show ?thesis
      using start_client_sel(2-4) [of en h] \<open>cg_runs h = cg_runs g\<close>
      by (auto simp: live_ok_def less_Suc_eq)
  qed
  with False assms(1) show ?thesis
    by (auto simp: tapConnect_def Let_def live_ok_def [of "cg_disk_update _ _"] live_ok_def [of g]
        split: sum.split prod.split option.split)
qed

interpretation patient: stable patient_step live_ok
proof unfold_locales
  fix q g g'
  assume ok: "live_ok g" and st: "patient_step q g = Some g'"
  show "live_ok g'"
  proof (cases q)
    case (TapConnect en)
    with ok st tapConnect_ok show ?thesis by (auto split: if_splits)
  next
    case (Moves k ev)
    with st have "client_move k ev g = Some g'" by simp
    with ok client_move_live client_move_sel show ?thesis by (fastforce simp: live_ok_def)
  qed (use ok st stopClient_ok in \<open>auto simp: post_next_def live_ok_def split: list.splits\<close>)
qed

section \<open>Properties\<close>

lemma cgui_init_ok: "live_ok (cgui_init re path dk pw)"
  by (simp add: cgui_init_def live_ok_def)

text \<open>C40.  While the button is pressed only with no client or with the current one online, at most one client is
  not asked to stop, and it is the one the window shows; disconnecting or closing the window asks
  every client to stop, by \<open>Stop\<close> and by the context.\<close>

theorem one_client_at_a_time:
  assumes "run_opt patient_step ops (cgui_init re path dk pw) = Some g" and "j < length (cg_runs g)"
  shows "(live (cg_runs g ! j) \<longrightarrow> cg_current g = Some j) \<and> \<not> live (cg_runs (stopClient pio g) ! j) \<and>
    cg_current (stopClient pio g) = None \<and>
    (cg_current g = Some j \<longrightarrow> cl_stop (rn_client (cg_runs (stopClient pio g) ! j)) \<and>
       rn_ctx (cg_runs (stopClient pio g) ! j) \<noteq> None)"
proof -
  have ok: "live_ok g" by (rule patient.run_keeps [OF cgui_init_ok assms(1)])
  then have c: "cg_cancel g = cg_current g" by (simp add: live_ok_def)
  have "live (cg_runs g ! j) \<longrightarrow> cg_current g = Some j" using ok assms(2) unfolding live_ok_def by blast
  moreover have "cg_current g = Some j \<longrightarrow> cl_stop (rn_client (cg_runs (stopClient pio g) ! j)) \<and>
      rn_ctx (cg_runs (stopClient pio g) ! j) \<noteq> None"
    using stopClient_sel(5) [OF c _ assms(2), of pio] by blast
  ultimately show ?thesis
    using stopClient_live [OF ok assms(2), of pio] stopClient_sel(1) [OF c, of pio] by simp
qed

lemma start_client_keeps: "k < length (cg_runs g) \<Longrightarrow> cg_runs (start_client en g) ! k = cg_runs g ! k"
  by (subst start_client_sel(1)) (simp add: nth_append)

text \<open>A press while the client is connecting or waiting to reconnect starts a second one and forgets the
  first: the first is not asked to stop, and no later disconnect reaches it.\<close>

theorem second_press_orphans_client:
  assumes "cg_current g = Some k" and "k < length (cg_runs g)" and "live (cg_runs g ! k)"
    and "\<not> current_online g"
    and "gui_config (en_server en) (en_target en) (en_custom en) (cg_cfg g) = Inr cfg"
    and "SaveConfig (en_save en) (en_path en) cfg (cg_disk g) = (None, dk)"
  shows "\<exists>g1. tapConnect en g = (None, g1) \<and> length (cg_runs g1) = Suc (length (cg_runs g)) \<and>
    live (last (cg_runs g1)) \<and> cg_current g1 = Some (length (cg_runs g)) \<and>
    cg_current (stopClient pio g1) = None \<and> cg_cancel (stopClient pio g1) = None \<and>
    cg_runs (stopClient pio g1) ! k = cg_runs g ! k \<and> live (cg_runs (stopClient pio g1) ! k)"
proof -
  let ?h = "g\<lparr>cg_cfg := cfg, cg_disk := dk\<rparr>"
  let ?g1 = "start_client en ?h"
  have t: "tapConnect en g = (None, ?g1)" using assms(4-6) by (simp add: tapConnect_def)
  note sel = start_client_sel [of en ?h]
  have "cg_runs (stopClient pio ?g1) ! k = cg_runs ?g1 ! k"
    by (rule stopClient_sel(4) [OF sel(4)]) (use sel(3) assms(2) in simp)
  also have "\<dots> = cg_runs g ! k" using start_client_keeps [of k ?h en] assms(2) by simp
  finally have "cg_runs (stopClient pio ?g1) ! k = cg_runs g ! k" .
  moreover have "last (cg_runs ?g1) = cg_runs ?g1 ! length (cg_runs g)"
    using sel(2) by (simp add: last_conv_nth [of "cg_runs ?g1"] flip: length_0_conv)
  ultimately show ?thesis
    using t sel assms(3) stopClient_sel(1,2) [OF sel(4), of pio] by simp
qed

section \<open>Witnesses\<close>

definition demo_entries :: entries where
  "demo_entries = \<lparr>en_server = ''wss://relay.test'', en_target = [], en_custom = [], en_opts = client_opts,
     en_load = \<lambda>_ _. Inl ''no file'', en_save = cio_good, en_path = ''config.json'', en_power = pio_good\<rparr>"

definition demo_saved :: Config where
  "demo_saved = empty_config\<lparr>c_Server := ''wss://relay.test/ws/tunnel''\<rparr>"

lemma demo_config: "gui_config ''wss://relay.test'' [] [] empty_config = Inr demo_saved"
    "gui_config ''wss://relay.test'' [] [] demo_saved = Inr demo_saved"
  by code_simp+

lemma demo_save: "\<exists>dk'. SaveConfig cio_good path cfg dk = (None, dk')"
  by (simp add: SaveConfig_def cio_good_def Let_def)

definition demo_cgui :: cgui where
  "demo_cgui = snd (tapConnect demo_entries (cgui_init None ''config.json'' Map.empty (power_init Linux)))"

lemma demo_cgui_sel:
  "length (cg_runs demo_cgui) = 1" "cg_current demo_cgui = Some 0" "live (cg_runs demo_cgui ! 0)"
  "\<not> current_online demo_cgui" "cg_cfg demo_cgui = demo_saved"
  "run_opt patient_step [TapConnect demo_entries] (cgui_init None ''config.json'' Map.empty (power_init Linux)) = Some demo_cgui"
proof -
  have l: "LoadConfig None Map.empty ''config.json'' = Inr empty_config" by (simp add: LoadConfig_def)
  have "\<exists>dk. demo_cgui = start_client demo_entries
      ((cgui_init None ''config.json'' Map.empty (power_init Linux))\<lparr>cg_cfg := demo_saved, cg_disk := dk\<rparr>)"
    using demo_config demo_save [of "''config.json''" demo_saved Map.empty]
    by (auto simp: demo_cgui_def tapConnect_def current_online_def cgui_init_def demo_entries_def l)
  then obtain dk where g: "demo_cgui = start_client demo_entries
      ((cgui_init None ''config.json'' Map.empty (power_init Linux))\<lparr>cg_cfg := demo_saved, cg_disk := dk\<rparr>)" ..
  show "length (cg_runs demo_cgui) = 1" "cg_current demo_cgui = Some 0" "live (cg_runs demo_cgui ! 0)"
    "\<not> current_online demo_cgui" "cg_cfg demo_cgui = demo_saved"
    unfolding g by (simp_all add: start_client_def cgui_init_def Let_def current_online_def live_def run_init_def
        Client_Status_def SetConfigPath_def New_def)
  show "run_opt patient_step [TapConnect demo_entries] (cgui_init None ''config.json'' Map.empty (power_init Linux)) = Some demo_cgui"
    by (simp add: idle_or_online_def demo_cgui_def) (simp add: cgui_init_def)
qed

theorem one_client_at_a_time_witness:
  "cg_current demo_cgui = Some 0 \<and> \<not> live (cg_runs (stopClient pio_good demo_cgui) ! 0) \<and>
   cg_current (stopClient pio_good demo_cgui) = None"
  using one_client_at_a_time [OF demo_cgui_sel(6), of 0 pio_good] demo_cgui_sel(1,2) by simp

theorem second_press_orphans_client_witness:
  "\<exists>g1. tapConnect demo_entries demo_cgui = (None, g1) \<and> length (cg_runs g1) = 2 \<and>
    live (cg_runs (stopClient pio_good g1) ! 0)"
proof -
  obtain dk where s: "SaveConfig (en_save demo_entries) (en_path demo_entries) demo_saved (cg_disk demo_cgui) = (None, dk)"
    using demo_save [of "''config.json''" demo_saved "cg_disk demo_cgui"] by (auto simp: demo_entries_def)
  have c: "gui_config (en_server demo_entries) (en_target demo_entries) (en_custom demo_entries) (cg_cfg demo_cgui) = Inr demo_saved"
    using demo_config(2) demo_cgui_sel(5) by (simp add: demo_entries_def)
  from second_press_orphans_client [OF demo_cgui_sel(2) _ demo_cgui_sel(3,4) c s, of pio_good] demo_cgui_sel(1)
  show ?thesis by auto
qed

end
