(* ===== verification/Spec2Isabelle.thy ===== *)
theory Spec2Isabelle
  imports Target DebugLog ServerGui ClientGui
begin

text \<open>
  Verification of selftunnel, a relay that gives a web server behind a firewall a public address: a
  client beside the web server (the target) holds a WebSocket to a public server, the server takes
  HTTP requests for \<open>/t/<tunnel ID>/...\<close> and sends them as frames over the WebSocket, and the
  client executes them against the target and sends the responses back.

  \<^bold>\<open>The parts and how they interact.\<close>
  A tunnel is an entry of the server's registry (\<open>internal/server/registry.go\<close>), owned by whoever
  knows its secret and kept in a JSON file.  A WebSocket is a session (\<open>tunnel.go\<close>) with a reader, a
  writer and a table of the requests in flight; its hello (\<open>server.go\<close>) binds it to a tunnel and
  closes the session that held the tunnel before.  A request at the relay endpoint (\<open>relay.go\<close>) takes
  a number from the session, queues frames for the writer, and reads its mailbox, which the
  session's reader fills; the teardown of the session aborts it.  The client
  (\<open>internal/client/client.go\<close>) runs a connection loop with back-off; its reader collects a request's
  frames and starts a goroutine for it, at most eight of which work at a time.  The command-line
  programs and the two windows (\<open>cmd/...\<close>) build configurations, start and stop these, and may
  expose the server by ngrok (\<open>internal/ngrok\<close>).

  \<^bold>\<open>The theories\<close>, in the order of their imports:
  \<^item> \<open>Prelude\<close>: types, dictionaries, collections of hints, the generic locales \<open>stable\<close> and \<open>traced\<close>
    (what every operation keeps of the state, and of the state and the operations so far), \<open>store\<close> (look up after insert) and \<open>atomic_save\<close> (a file is old or new).
  \<^item> \<open>GoStrings\<close>, \<open>GoCodec\<close>, \<open>GoHttp\<close>: what the program uses of the packages \<open>strings\<close>,
    \<open>encoding/base64\<close>, \<open>crypto/sha256\<close> and \<open>net/http\<close>, as executable functions, and the law of
    numbered chunks (locale \<open>chunking\<close>) that both directions of a body satisfy.
  \<^item> \<open>Frame\<close> (\<open>internal/proto/frame.go\<close>): the frame, \<open>Marshal\<close> and \<open>Unmarshal\<close> over JSON values.
  \<^item> \<open>Registry\<close> (\<open>registry.go\<close>): tunnels, allocation and ownership of IDs, the file.
  \<^item> \<open>Session\<close> (\<open>tunnel.go\<close>): \<open>World\<close> is the state of the server, its sessions and mailboxes by their
    addresses, the registry and the disk; one definition per operation, each \<open>select\<close> resolved by
    an argument.
  \<^item> \<open>Server\<close> (\<open>server.go\<close>, \<open>lifecycle.go\<close>): hello, the read loop frame by frame, polling, health, the
    application; \<open>reachable\<close> are the states under any order of the steps of all goroutines.
  \<^item> \<open>Relay\<close> (\<open>relay.go\<close>): a request as a state machine, \<open>relay_step\<close>, with the server free to move
    between two of its steps.
  \<^item> \<open>ClientConfig\<close>, \<open>Sleep\<close>, \<open>Client\<close>, \<open>Forward\<close>, \<open>ClientLoop\<close> (\<open>internal/client\<close>): addresses and the
    configuration file, the sleep inhibitors, the object, the requests, and the connection loop.
  \<^item> \<open>System\<close>: what the frames of a request and a response are to both ends, and the identity of a
    tunnel across reconnects and restarts.
  \<^item> \<open>Wire\<close>, \<open>LinkServer\<close>, \<open>LinkClient\<close>, \<open>Link\<close>: both ends as one transition system.  A state holds the
    server, the handler of a request and the client, a move (\<open>link_step\<close>, in \<open>Wire\<close>) is one of any of
    them, and what is written at one end of the connection is what the other end reads, as JSON and
    in order.  \<open>LinkServer\<close> and \<open>LinkClient\<close> hold the invariants of the two ends, \<open>Link\<close> joins them.
  \<^item> \<open>Target\<close>: the request that the target gets, and its URL as \<open>net/url\<close> reads it.
  \<^item> \<open>DebugLog\<close> (\<open>debuglog.go\<close>), \<open>Ngrok\<close> (\<open>ngrok.go\<close>), \<open>Programs\<close> (the two command-line programs and the
    tunnel intake), \<open>GuiParts\<close>, \<open>ServerGui\<close>, \<open>ClientGui\<close> (the two windows).

  \<^bold>\<open>State and operations.\<close>
  A struct is a record with the source's fields, a pointer that is shared is an index (a session, a
  mailbox, a \<open>forward\<close> goroutine, a client of the window), a Go map is a dictionary with distinct
  keys, and its iteration order is an argument wherever the code walks one.  Request numbers are
  32-bit words, the digits of a port are read in 64-bit arithmetic, counters that Go keeps in 64
  bits are words or integers.  An operation that blocks until it can go on gives \<open>None\<close> where it
  cannot; an error is the left of a sum or a present option; closing a closed channel is the value
  \<open>CloseOfClosedChannel\<close>, so that its absence is a theorem.  Random bytes, the clock, the outcome of
  file operations, of the network and of the SDK are arguments.

  \<^bold>\<open>What is shown.\<close>
  \<^item> The wire: frames survive encoding; per session the frames leave in the order they were queued,
    and a mailbox gives its frames in the order they came, each at most once, to the request whose
    number they carry; a request number is never one in flight.
  \<^item> The registry: only the secret reclaims an ID, it does so after any history, registering takes
    nothing from others, the file is replaced in one piece and gives the tunnels back.
  \<^item> The server: no order of steps closes a channel twice; an online tunnel points at a live session
    that is its own; the last connect wins; a stop takes every tunnel offline.
  \<^item> A request: what the endpoint has read is what the target gets, once, with the caller's method,
    header values, path and query (but for the characters that a URL reads otherwise); what the client has read
    from the target is what the caller gets; no success without an answer of the tunnel.  In \<open>Link\<close> and
    \<open>Target\<close> this holds of every interleaving of the handler with all else that the server and the client do,
    from any state the server can reach, for a client that has no request under the same number on
    this connection, a caller whose strings are UTF-8, and fewer than 2^63 chunks; \<open>server_inv\<close> and
    \<open>fw_inv\<close> are the two halves of its invariant.
  \<^item> The client: at most eight requests at the target, the bounds of the back-off, when \<open>Run\<close> ends
    and that it ends after \<open>Stop\<close>, that nothing keeps the machine awake while it is off line, and that
    the configuration file, under its documented keys, gives back what was saved.
  \<^item> The programs: a start-up leaves a state the invariants hold in, the log is transparent, the
    windows keep one endpoint and, used patiently, one client, and the server's window does not
    panic but in one race.
  \<^item> Deviations, as theorems: the tunnel of a client without a custom ID is lost on reconnect, an
    answer may go out on a later connection under its old number, the online counter grows with each
    kick, an error after the headers looks like success, a stop during a dial or a handshake, a
    release of the sleep state on another thread, a failed upgrade logged as one, a question mark in a decoded
    path, an exposure that outlives its server or ends the program, a second press of the connect button.

  \<^bold>\<open>Bounds and loops.\<close>
  No definition runs on fuel.  The search for a request number is a \<open>partial_function\<close> and is shown to
  end while a number is free; the search for a random ID consumes the list of random draws and gives
  \<open>None\<close> where they end.  The capacities 256 (send queue) and 16 (mailbox), eight slots, chunks of
  256 KiB, the back-off from 1 s to 60 s are those of the source.

  \<^bold>\<open>Not modelled.\<close>
  \<^item> The text layer of JSON: a message is a JSON value, or none where the text does not parse.
  \<^item> gorilla/websocket (upgrade, control frames, deadlines): a read or write error is an event, and
    \<open>Upgrade\<close> an argument.  \<open>net/http\<close> beyond what a handler sees of its writer; TLS handshakes and
    key files; the ngrok SDK; the Fyne toolkit (widgets, dialogs, the clipboard, the icon).
  \<^item> Real time: a timeout or a tick is an event that may come whenever the code waits for it.
  \<^item> Parallelism inside an operation: the operations of one goroutine between two points where it
    blocks, and those under one lock, are one step; the handlers of the server's window are cut at
    every lock as well.  The hello of a session is one step with the sending of its acknowledgement.  The
    keepalive goroutine of the client acts only while the read loop runs.  A cancelled helper
    process is gone at once.
  \<^item> Log lines, but for those a property is about.
\<close>

end
